(* ===== verification/Prelude.thy ===== *)
theory Prelude
  imports Main "HOL-Library.Word"
begin

text \<open>
  Shared vocabulary of the development: the C integer types as words, the two error values the
  kernel returns, the \<open>named_theorems\<close> collections the component theories fill, and the
  generic lemmas on words, masks and index ranges they use.
\<close>

unbundle bit_operations_syntax

section \<open>Integer types and results\<close>

type_synonym u8 = "8 word"
type_synonym u16 = "16 word"
type_synonym u32 = "32 word"
type_synonym u64 = "64 word"

text \<open>
  A kernel function that returns \<open>-1\<close> yields \<open>Inl EFAIL\<close>; the value \<open>-2\<close>
  (\<^verbatim>\<open>VFS_ERR_WOULD_BLOCK\<close>) is \<open>Inl EWOULDBLOCK\<close>; a success carries its result. \<open>Inl ENOTERM\<close> is not
  a value of the code: it marks a recursion that used up its fuel.
\<close>

datatype error = EFAIL | EWOULDBLOCK | ENOTERM

type_synonym 'a result = "error + 'a"

text \<open>Sequencing of stateful steps: a failure ends the sequence with the state it left.\<close>

definition bind_r :: "('s \<Rightarrow> 'a result \<times> 's) \<Rightarrow> ('a \<Rightarrow> 's \<Rightarrow> 'b result \<times> 's) \<Rightarrow> 's \<Rightarrow> 'b result \<times> 's" where
  "bind_r m k s = (case m s of (Inl e, s1) \<Rightarrow> (Inl e, s1) | (Inr x, s1) \<Rightarrow> k x s1)"

lemma bind_r_simps:
  "m s = (Inl e, s1) \<Longrightarrow> bind_r m k s = (Inl e, s1)"
  "m s = (Inr x, s1) \<Longrightarrow> bind_r m k s = k x s1"
  by (simp_all add: bind_r_def)

lemma bind_r_InrD:
  "bind_r m k s = (Inr y, s2) \<Longrightarrow> \<exists>x s1. m s = (Inr x, s1) \<and> k x s1 = (Inr y, s2)"
  by (auto simp: bind_r_def split: prod.splits sum.splits)

text \<open>\<open>word_nat\<close>: rules that turn word comparisons and sums into statements on \<open>nat\<close>.\<close>

named_theorems word_nat

lemmas [word_nat] = word_less_nat_alt word_le_nat_alt unat_word_ariths

section \<open>Words\<close>

lemma unat_u32_lt [simp]: "unat (w :: u32) < 4294967296"
  using unsigned_less [of w, where 'a = nat] by simp

lemma unat_u16_lt [simp]: "unat (w :: u16) < 65536"
  using unsigned_less [of w, where 'a = nat] by simp

lemma unat_u64_lt [simp]: "unat (w :: u64) < 18446744073709551616"
  using unsigned_less [of w, where 'a = nat] by simp

lemma unat_u8_lt [simp]: "unat (w :: u8) < 256"
  using unsigned_less [of w, where 'a = nat] by simp

lemma unat_of_nat_u32: "n < 4294967296 \<Longrightarrow> unat (of_nat n :: u32) = n"
  by (simp add: unat_of_nat)

lemma unat_add_u32: "unat a + unat b < 4294967296 \<Longrightarrow> unat (a + b :: u32) = unat a + unat b"
  by (simp add: unat_word_ariths)

lemma unat_Suc_u32: "unat a < 4294967295 \<Longrightarrow> unat (a + 1 :: u32) = Suc (unat a)"
  by (simp add: unat_add_u32)

lemma unat_ucast_u16: "unat (ucast (w :: u16) :: u32) = unat w"
  by (simp add: unsigned_ucast_eq take_bit_nat_eq_self order_less_trans [OF unat_u16_lt])

lemma unat_ucast_u8: "unat (ucast (w :: u8) :: u32) = unat w"
  by (simp add: unsigned_ucast_eq take_bit_nat_eq_self order_less_trans [OF unat_u8_lt])

lemma unat_ucast_u64: "unat (ucast (w :: u32) :: u64) = unat w"
  by (simp add: unsigned_ucast_eq take_bit_nat_eq_self order_less_trans [OF unat_u32_lt])

lemma unat_ucast_u32: "unat (w :: u64) < 4294967296 \<Longrightarrow> unat (ucast w :: u32) = unat w"
  by (simp add: unsigned_ucast_eq take_bit_nat_eq_self)

section \<open>Single-bit masks\<close>

text \<open>The three mask idioms of the C code: test, set and clear one bit of a word.\<close>

lemma mask_test: "((w :: 'a::len word) AND push_bit n 1 \<noteq> 0) = bit w n"
  by (simp add: bit_iff_and_push_bit_not_eq_0)

lemma mask_set: "n < LENGTH('a) \<Longrightarrow> bit (w OR push_bit n 1 :: 'a::len word) m = (bit w m \<or> m = n)"
  by (auto simp: bit_or_iff bit_exp_iff)

lemma mask_clear: "n < LENGTH('a) \<Longrightarrow>
    bit (w AND NOT (push_bit n 1) :: 'a::len word) m = (bit w m \<and> m \<noteq> n)"
  using bit_imp_le_length [of w m]
  by (auto simp: bit_and_iff bit_not_iff bit_exp_iff)

section \<open>Index ranges\<close>

lemma div_mod_eq_iff: "(i :: nat) div k = j div k \<Longrightarrow> i mod k = j mod k \<Longrightarrow> i = j"
  by (metis div_mult_mod_eq)

lemma find_upt_Some:
  assumes "find P [a..<b] = Some i"
  shows "a \<le> i" "i < b" "P i" "\<And>j. a \<le> j \<Longrightarrow> j < i \<Longrightarrow> \<not> P j"
proof -
  from assms obtain k where k: "k < length [a..<b]" "P ([a..<b] ! k)" "i = [a..<b] ! k"
      "\<forall>j<k. \<not> P ([a..<b] ! j)"
    unfolding find_Some_iff by blast
  then have i: "i = a + k" by simp
  with k show "a \<le> i" "i < b" "P i" by auto
  fix j assume "a \<le> j" "j < i"
  then have "j - a < k" and "[a..<b] ! (j - a) = j" using i k(1) by auto
  with k(4) show "\<not> P j" by metis
qed

lemma find_upt_None: "find P [a..<b] = None \<longleftrightarrow> (\<forall>i. a \<le> i \<longrightarrow> i < b \<longrightarrow> \<not> P i)"
  by (auto simp: find_None_iff)

section \<open>Rounding\<close>

lemma unat_and_not_mask: "unat (x AND NOT (mask n) :: 'a::len word) = unat x div 2 ^ n * 2 ^ n"
proof -
  have "x AND NOT (mask n) = push_bit n (drop_bit n x)"
    by (rule bit_word_eqI) (auto simp: bit_simps)
  moreover have "unat x div 2 ^ n * 2 ^ n \<le> unat x" by simp
  then have "unat x div 2 ^ n * 2 ^ n < 2 ^ LENGTH('a)"
    using unsigned_less [of x, where 'a = nat] by linarith
  moreover have "unat (push_bit n (drop_bit n x)) = take_bit LENGTH('a) (unat x div 2 ^ n * 2 ^ n)"
    unfolding unsigned_push_bit_eq unsigned_drop_bit_eq by (simp add: push_bit_eq_mult drop_bit_eq_div take_bit_nat_eq_self)
  ultimately show ?thesis by (metis take_bit_nat_eq_self)
qed

text \<open>The rounding idiom of the code, for an alignment \<open>2\<^sup>n\<close> written as a numeral.\<close>

lemma unat_align_up:
  fixes x a :: u32
  assumes "a = 2 ^ n" "n < 32" "unat x + 2 ^ n \<le> 4294967296"
  shows "unat ((x + a - 1) AND NOT (a - 1)) = (unat x + 2 ^ n - 1) div 2 ^ n * 2 ^ n"
proof -
  have m: "a - 1 = mask n" using assms(1) by (simp add: mask_eq_exp_minus_1)
  have "(2 :: nat) ^ n < 2 ^ 32" using assms(2) by (intro power_strict_increasing) auto
  then have "unat (of_nat (mask n) :: u32) = mask n"
    by (intro unat_of_nat_u32) (simp add: mask_eq_exp_minus_1)
  then have k: "unat (mask n :: u32) = 2 ^ n - 1" unfolding of_nat_mask_eq by (simp add: mask_eq_exp_minus_1 [where 'a = nat])
  have p: "(1 :: nat) \<le> 2 ^ n" by simp
  have "unat (x + mask n) = unat x + unat (mask n :: u32)" using k p assms(3) by (intro unat_add_u32) linarith
  moreover have "x + a - 1 = x + mask n" unfolding m [symmetric] by (simp add: algebra_simps)
  ultimately have "unat (x + a - 1) = unat x + 2 ^ n - 1" using k p by (metis Nat.add_diff_assoc)
  then show ?thesis unfolding m unat_and_not_mask by simp
qed

end
