(* ===== verification/Bitmap.thy ===== *)
theory Bitmap
  imports Prelude
begin

text \<open>
  The interface of the kernel's allocation bitmaps. Three arrays of the kernel are bitmaps: the
  frame bitmap of \<^verbatim>\<open>palloc.c\<close> (32-bit words) and the inode and block bitmaps of
  \<^verbatim>\<open>simplefs.c\<close> (bytes). The locale states what a client relies on, one test and two
  updates of a single index, and proves the facts on ranges of indices once; the component
  theories interpret it on their own arrays.
\<close>

locale bitmap =
  fixes used :: "'m \<Rightarrow> nat \<Rightarrow> bool"
    and set_used :: "nat \<Rightarrow> 'm \<Rightarrow> 'm"
    and set_free :: "nat \<Rightarrow> 'm \<Rightarrow> 'm"
  assumes used_set_used: "used (set_used i m) j = (used m j \<or> j = i)"
    and used_set_free: "used (set_free i m) j = (used m j \<and> j \<noteq> i)"
begin

lemma used_fold_set_used: "used (fold set_used is m) j = (used m j \<or> j \<in> set is)"
  by (induction "is" arbitrary: m) (auto simp: used_set_used)

lemma used_fold_set_free: "used (fold set_free is m) j = (used m j \<and> j \<notin> set is)"
  by (induction "is" arbitrary: m) (auto simp: used_set_free)

lemma set_free_set_used: "\<not> used m i \<Longrightarrow> used (set_free i (set_used i m)) = used m"
  by (auto simp: fun_eq_iff used_set_used used_set_free)

lemma free_range_undoes_mark:
  assumes "\<And>j. j \<in> set is \<Longrightarrow> \<not> used m j"
  shows "used (fold set_free is (fold set_used is m)) = used m"
  using assms by (auto simp: fun_eq_iff used_fold_set_used used_fold_set_free)

end

section \<open>Bitmaps stored in an array of words\<close>

text \<open>
  All three bitmaps index an array of \<open>k\<close>-bit cells the same way: the cell \<open>i div k\<close>, the
  mask \<open>1 << (i mod k)\<close>.
\<close>

lemma word_bitmap_set:
  fixes m :: "nat \<Rightarrow> 'a::len word"
  assumes "k = LENGTH('a)"
  shows "((m(i div k := m (i div k) OR push_bit (i mod k) 1)) (j div k) AND push_bit (j mod k) 1 \<noteq> 0) =
    ((m (j div k) AND push_bit (j mod k) 1 \<noteq> 0) \<or> j = i)"
  using assms div_mod_eq_iff [of j k i] by (auto simp only: fun_upd_apply mask_test mask_set
      mod_less_divisor len_gt_0 split: if_splits)

lemma word_bitmap_clear:
  fixes m :: "nat \<Rightarrow> 'a::len word"
  assumes "k = LENGTH('a)"
  shows "((m(i div k := m (i div k) AND NOT (push_bit (i mod k) 1))) (j div k) AND push_bit (j mod k) 1 \<noteq> 0) =
    ((m (j div k) AND push_bit (j mod k) 1 \<noteq> 0) \<and> j \<noteq> i)"
  using assms div_mod_eq_iff [of j k i] by (auto simp only: fun_upd_apply mask_test mask_clear
      mod_less_divisor len_gt_0 split: if_splits)

end
