(* ===== verification/Page_Allocator.thy ===== *)
theory Page_Allocator
  imports Prelude
begin

text \<open>
  What the memory components (paging, heap, stacks, address spaces) rely on in the physical page
  allocator: a page handed out had no references and then has one, retaining adds one, releasing
  removes one, and no other page is touched. \<open>refs s p\<close> is the number of references to the page
  at address \<open>p\<close>; the failure value of an allocation is the address 0. The theory \<open>Palloc\<close>
  interprets the locale on the code's allocator.
\<close>

locale page_allocator =
  fixes inv :: "'s \<Rightarrow> bool"
    and refs :: "'s \<Rightarrow> u32 \<Rightarrow> nat"
    and alloc :: "'s \<Rightarrow> u32 \<times> 's"
    and retain :: "u32 \<Rightarrow> 's \<Rightarrow> unit result \<times> 's"
    and release :: "u32 \<Rightarrow> 's \<Rightarrow> 's"
  assumes alloc_ok: "inv s \<Longrightarrow> alloc s = (p, s') \<Longrightarrow> p \<noteq> 0 \<Longrightarrow>
        inv s' \<and> p mod 4096 = 0 \<and> refs s p = 0 \<and> refs s' = (refs s)(p := 1)"
    and alloc_fail: "inv s \<Longrightarrow> alloc s = (0, s') \<Longrightarrow> s' = s"
    and retain_ok: "inv s \<Longrightarrow> 0 < refs s p \<Longrightarrow> refs s p < 65535 \<Longrightarrow>
        \<exists>s'. retain p s = (Inr (), s') \<and> inv s' \<and> refs s' = (refs s)(p := Suc (refs s p))"
    and retain_fail: "inv s \<Longrightarrow> refs s p = 0 \<Longrightarrow> retain p s = (Inl EFAIL, s)"
    and release_ok: "inv s \<Longrightarrow> p \<noteq> 0 \<Longrightarrow>
        inv (release p s) \<and> refs (release p s) = (refs s)(p := refs s p - 1)"
begin

lemma alloc_inv: "inv s \<Longrightarrow> inv (snd (alloc s))"
  by (cases "alloc s"; cases "fst (alloc s) = 0") (auto dest: alloc_ok alloc_fail)

lemma release_after_alloc:
  assumes "inv s" "alloc s = (p, s')" "p \<noteq> 0"
  shows "refs (release p s') = refs s"
  using alloc_ok [OF assms] release_ok [of s' p] assms(3) by auto

lemma release_after_retain:
  assumes "inv s" "retain p s = (Inr (), s')" "refs s p < 65535" "p \<noteq> 0"
  shows "refs (release p s') = refs s"
proof -
  have "0 < refs s p" using retain_fail [OF assms(1), of p] assms(2) by fastforce
  from retain_ok [OF assms(1) this assms(3)] assms(2)
  have "inv s'" "refs s' = (refs s)(p := Suc (refs s p))" by auto
  then show ?thesis using release_ok [of s' p] assms(4) by auto
qed

lemma fresh_page_differs:
  assumes "inv s" "alloc s = (p, s')" "p \<noteq> 0" "0 < refs s q"
  shows "p \<noteq> q" "refs s' q = refs s q"
  using alloc_ok [OF assms(1-3)] assms(4) by auto

lemma two_allocs_differ:
  assumes "inv s" "alloc s = (p, s')" "p \<noteq> 0" "alloc s' = (q, s'')" "q \<noteq> 0"
  shows "p \<noteq> q"
  using alloc_ok [OF assms(1-3)] alloc_ok [of s' q s''] assms(4,5) by auto

lemma release_list:
  assumes "inv s" "0 \<notin> set ps"
  shows "inv (fold release ps s)" "refs (fold release ps s) q = refs s q - count_list ps q"
  using assms by (induction ps arbitrary: s) (auto simp: release_ok)

end

end
