(* ===== verification/Palloc.thy ===== *)
theory Palloc
  imports Bitmap Page_Allocator
begin

text \<open>
  The physical page allocator, \<^verbatim>\<open>src/kernel/palloc.c\<close>. Its static variables are the record
  \<open>palloc_state\<close>; the arrays are functions on the index, so that the initial state of the
  2^20-frame bitmap is a term. A \<^verbatim>\<open>for\<close> loop over frame numbers is a \<open>fold\<close> or a
  \<open>find\<close> over the list of those numbers. The record \<open>multiboot_info\<close> holds the boot
  loader's data: the memory map and the module list appear as the lists the pointer walks of
  \<^verbatim>\<open>multiboot.h\<close> produce. The console messages are not modelled.
\<close>

section \<open>State and boot data\<close>

abbreviation PAGE_SIZE :: u32 where "PAGE_SIZE \<equiv> 4096"

definition MAX_PAGE_FRAMES :: nat where "MAX_PAGE_FRAMES = 1048576"

definition MAX_PHYSICAL_BYTES :: u64 where "MAX_PHYSICAL_BYTES = 0x100000000"

record palloc_state =
  frame_bitmap :: "nat \<Rightarrow> u32"
  frame_refcounts :: "nat \<Rightarrow> u16"
  first_unusable_frame :: u32
  total_usable_frames :: u32
  free_frames :: u32
  next_search_frame :: u32

record multiboot_memory_map =
  mm_addr :: u64
  mm_len :: u64
  mm_type :: u32

record multiboot_module =
  mod_start :: u32
  mod_end :: u32
  mod_cmdline :: u32

record multiboot_info =
  mb_address :: u32
  mb_flags :: u32
  mb_mem_upper :: u32
  mb_cmdline :: u32
  mb_mods_count :: u32
  mb_mods_addr :: u32
  mb_mmap_length :: u32
  mb_mmap_addr :: u32
  mb_framebuffer_addr :: u64
  mb_framebuffer_pitch :: u32
  mb_framebuffer_height :: u32
  mb_mmap :: "multiboot_memory_map list"
  mb_modules :: "multiboot_module list"

definition MULTIBOOT_INFO_MEMORY :: u32 where "MULTIBOOT_INFO_MEMORY = 1"
definition MULTIBOOT_INFO_CMDLINE :: u32 where "MULTIBOOT_INFO_CMDLINE = 4"
definition MULTIBOOT_INFO_MODS :: u32 where "MULTIBOOT_INFO_MODS = 8"
definition MULTIBOOT_INFO_MMAP :: u32 where "MULTIBOOT_INFO_MMAP = 64"
definition MULTIBOOT_INFO_FRAMEBUFFER :: u32 where "MULTIBOOT_INFO_FRAMEBUFFER = 4096"

lemmas multiboot_flags = MULTIBOOT_INFO_MEMORY_def MULTIBOOT_INFO_CMDLINE_def
  MULTIBOOT_INFO_MODS_def MULTIBOOT_INFO_MMAP_def MULTIBOOT_INFO_FRAMEBUFFER_def

section \<open>The frame bitmap\<close>

definition frame_word_index :: "nat \<Rightarrow> nat" where
  "frame_word_index frame = frame div 32"

definition frame_bit_mask :: "nat \<Rightarrow> u32" where
  "frame_bit_mask frame = push_bit (frame mod 32) 1"

definition bitmap_test :: "(nat \<Rightarrow> u32) \<Rightarrow> nat \<Rightarrow> bool" where
  "bitmap_test bm frame \<longleftrightarrow> bm (frame_word_index frame) AND frame_bit_mask frame \<noteq> 0"

definition bitmap_mark_used :: "nat \<Rightarrow> (nat \<Rightarrow> u32) \<Rightarrow> nat \<Rightarrow> u32" where
  "bitmap_mark_used frame bm =
     bm(frame_word_index frame := bm (frame_word_index frame) OR frame_bit_mask frame)"

definition bitmap_mark_free :: "nat \<Rightarrow> (nat \<Rightarrow> u32) \<Rightarrow> nat \<Rightarrow> u32" where
  "bitmap_mark_free frame bm =
     bm(frame_word_index frame := bm (frame_word_index frame) AND NOT (frame_bit_mask frame))"

definition frame_is_used :: "palloc_state \<Rightarrow> nat \<Rightarrow> bool" where
  "frame_is_used s frame = bitmap_test (frame_bitmap s) frame"

definition mark_frame_used :: "nat \<Rightarrow> palloc_state \<Rightarrow> palloc_state" where
  "mark_frame_used frame s = s\<lparr>frame_bitmap := bitmap_mark_used frame (frame_bitmap s)\<rparr>"

definition mark_frame_free :: "nat \<Rightarrow> palloc_state \<Rightarrow> palloc_state" where
  "mark_frame_free frame s = s\<lparr>frame_bitmap := bitmap_mark_free frame (frame_bitmap s)\<rparr>"

interpretation frame_bm: bitmap bitmap_test bitmap_mark_used bitmap_mark_free
  unfolding bitmap_test_def bitmap_mark_used_def bitmap_mark_free_def frame_word_index_def
    frame_bit_mask_def
  by (unfold_locales; rule word_bitmap_set word_bitmap_clear; simp)

section \<open>Initialisation from the memory map\<close>

definition clip_range_end :: "u64 \<Rightarrow> u64" where
  "clip_range_end e = (if e > MAX_PHYSICAL_BYTES then MAX_PHYSICAL_BYTES else e)"

definition align_up_to_page :: "u64 \<Rightarrow> u32" where
  "align_up_to_page address = ucast ((address + 4096 - 1) div 4096)"

definition align_down_to_page :: "u64 \<Rightarrow> u32" where
  "align_down_to_page address = ucast (address div 4096)"

definition free_frame :: "nat \<Rightarrow> palloc_state \<Rightarrow> palloc_state" where
  "free_frame frame s =
     (if frame_is_used s frame
      then (mark_frame_free frame s)
        \<lparr>frame_refcounts := (frame_refcounts s)(frame := 0), free_frames := free_frames s + 1\<rparr>
      else s)"

definition free_range :: "u64 \<Rightarrow> u64 \<Rightarrow> palloc_state \<Rightarrow> palloc_state" where
  "free_range start e s =
     (let first_frame = align_up_to_page start;
          last_frame = align_down_to_page (clip_range_end e);
          s1 = (if last_frame > first_unusable_frame s
                then s\<lparr>first_unusable_frame := last_frame\<rparr> else s)
      in fold free_frame [unat first_frame..<unat last_frame] s1)"

definition reserve_frame :: "nat \<Rightarrow> palloc_state \<Rightarrow> palloc_state" where
  "reserve_frame frame s =
     (if \<not> frame_is_used s frame
      then (mark_frame_used frame s)
        \<lparr>frame_refcounts := (frame_refcounts s)(frame := 1), free_frames := free_frames s - 1\<rparr>
      else s)"

definition reserve_range :: "u64 \<Rightarrow> u64 \<Rightarrow> palloc_state \<Rightarrow> palloc_state" where
  "reserve_range start e s =
     (let first_frame = align_down_to_page start;
          last_frame0 = align_up_to_page (clip_range_end e);
          last_frame = (if last_frame0 > first_unusable_frame s
                        then first_unusable_frame s else last_frame0)
      in fold reserve_frame [unat first_frame..<unat last_frame] s)"

definition reserve_module :: "multiboot_module \<Rightarrow> palloc_state \<Rightarrow> palloc_state" where
  "reserve_module m s =
     (let s1 = reserve_range (ucast (mod_start m)) (ucast (mod_end m)) s
      in if mod_cmdline m \<noteq> 0
         then reserve_range (ucast (mod_cmdline m)) (ucast (mod_cmdline m + 256)) s1 else s1)"

definition reserve_boot_structures :: "multiboot_info \<Rightarrow> palloc_state \<Rightarrow> palloc_state" where
  "reserve_boot_structures mb s =
     (let s1 = reserve_range (ucast (mb_address mb)) (ucast (mb_address mb + 116)) s;
          s2 = (if mb_flags mb AND MULTIBOOT_INFO_MMAP \<noteq> 0
                then reserve_range (ucast (mb_mmap_addr mb))
                       (ucast (mb_mmap_addr mb + mb_mmap_length mb)) s1
                else s1);
          s3 = (if mb_flags mb AND MULTIBOOT_INFO_CMDLINE \<noteq> 0 \<and> mb_cmdline mb \<noteq> 0
                then reserve_range (ucast (mb_cmdline mb)) (ucast (mb_cmdline mb + 256)) s2
                else s2);
          s4 = (if mb_flags mb AND MULTIBOOT_INFO_FRAMEBUFFER \<noteq> 0 \<and> mb_framebuffer_addr mb \<noteq> 0 \<and>
                   mb_framebuffer_pitch mb \<noteq> 0 \<and> mb_framebuffer_height mb \<noteq> 0
                then reserve_range (mb_framebuffer_addr mb)
                       (mb_framebuffer_addr mb +
                        ucast (mb_framebuffer_pitch mb) * ucast (mb_framebuffer_height mb)) s3
                else s3)
      in if mb_flags mb AND MULTIBOOT_INFO_MODS = 0 \<or> mb_mods_count mb = 0 then s4
         else fold reserve_module (take (unat (mb_mods_count mb)) (mb_modules mb))
                (reserve_range (ucast (mb_mods_addr mb))
                   (ucast (mb_mods_addr mb + mb_mods_count mb * 16)) s4))"

definition free_map_entry :: "multiboot_memory_map \<Rightarrow> palloc_state \<Rightarrow> palloc_state" where
  "free_map_entry e s =
     (if mm_type e = 1 then free_range (mm_addr e) (mm_addr e + mm_len e) s else s)"

definition palloc_reset :: palloc_state where
  "palloc_reset = \<lparr>frame_bitmap = (\<lambda>_. 0xFFFFFFFF), frame_refcounts = (\<lambda>_. 1),
     first_unusable_frame = 0, total_usable_frames = 0, free_frames = 0, next_search_frame = 0\<rparr>"

definition palloc_init :: "multiboot_info \<Rightarrow> u32 \<Rightarrow> u32 \<Rightarrow> palloc_state" where
  "palloc_init mb kernel_start kernel_end =
     (let s1 = (if mb_flags mb AND MULTIBOOT_INFO_MMAP \<noteq> 0
                then fold free_map_entry (mb_mmap mb) palloc_reset
                else if mb_flags mb AND MULTIBOOT_INFO_MEMORY \<noteq> 0
                then free_range 0x100000 (0x100000 + ucast (mb_mem_upper mb) * 1024) palloc_reset
                else palloc_reset);
          s2 = s1\<lparr>total_usable_frames := free_frames s1\<rparr>;
          s3 = reserve_range 0 0x100000 s2;
          s4 = reserve_range (ucast kernel_start) (ucast kernel_end) s3;
          s5 = reserve_boot_structures mb s4
      in s5\<lparr>next_search_frame := align_up_to_page (ucast kernel_end)\<rparr>)"

section \<open>Allocation, retention and release\<close>

definition take_frame :: "nat \<Rightarrow> palloc_state \<Rightarrow> u32 \<times> palloc_state" where
  "take_frame frame s =
     (of_nat frame * PAGE_SIZE,
      (mark_frame_used frame s)
        \<lparr>frame_refcounts := (frame_refcounts s)(frame := 1),
         free_frames := free_frames s - 1,
         next_search_frame := of_nat frame + 1\<rparr>)"

definition palloc_alloc_page :: "palloc_state \<Rightarrow> u32 \<times> palloc_state" where
  "palloc_alloc_page s =
     (case find (\<lambda>f. \<not> frame_is_used s f)
             [unat (next_search_frame s)..<unat (first_unusable_frame s)] of
        Some frame \<Rightarrow> take_frame frame s
      | None \<Rightarrow>
          (case find (\<lambda>f. \<not> frame_is_used s f) [0..<unat (next_search_frame s)] of
             Some frame \<Rightarrow> take_frame frame s
           | None \<Rightarrow> (0, s)))"

text \<open>
  The two search loops of \<^verbatim>\<open>palloc_alloc_pages\<close>: try the run at \<open>start\<close>; at the first used
  frame of it, go on just after that frame, until \<open>start\<close> passes \<open>limit\<close>.
\<close>

function find_run :: "palloc_state \<Rightarrow> nat \<Rightarrow> nat \<Rightarrow> nat \<Rightarrow> nat option" where
  "find_run s start limit page_count =
     (if start \<le> limit
      then case find (frame_is_used s) [start..<start + page_count] of
             None \<Rightarrow> Some start
           | Some frame \<Rightarrow> find_run s (Suc frame) limit page_count
      else None)"
  by pat_completeness auto
termination
  by (relation "measure (\<lambda>(s, start, limit, n). Suc limit - start)")
    (auto dest: find_upt_Some(1))

declare find_run.simps [simp del]

definition use_frame :: "nat \<Rightarrow> palloc_state \<Rightarrow> palloc_state" where
  "use_frame frame s =
     (mark_frame_used frame s)\<lparr>frame_refcounts := (frame_refcounts s)(frame := 1)\<rparr>"

definition take_run :: "nat \<Rightarrow> u32 \<Rightarrow> palloc_state \<Rightarrow> u32 \<times> palloc_state" where
  "take_run start page_count s =
     (let s1 = fold use_frame [start..<start + unat page_count] s
      in (of_nat start * PAGE_SIZE,
          s1\<lparr>free_frames := free_frames s1 - page_count,
             next_search_frame := of_nat start + page_count\<rparr>))"

definition palloc_alloc_pages :: "u32 \<Rightarrow> palloc_state \<Rightarrow> u32 \<times> palloc_state" where
  "palloc_alloc_pages page_count s =
     (if page_count = 0 then (0, s)
      else if page_count = 1 then palloc_alloc_page s
      else if page_count > first_unusable_frame s \<or> page_count > free_frames s then (0, s)
      else
        case (if first_unusable_frame s \<ge> page_count
              then find_run s (unat (next_search_frame s))
                     (unat (first_unusable_frame s - page_count)) (unat page_count)
              else None) of
          Some start \<Rightarrow> take_run start page_count s
        | None \<Rightarrow>
            (case (if next_search_frame s \<ge> page_count
                   then find_run s 0 (unat (next_search_frame s - page_count)) (unat page_count)
                   else None) of
               Some start \<Rightarrow> take_run start page_count s
             | None \<Rightarrow> (0, s)))"

definition palloc_retain_page :: "u32 \<Rightarrow> palloc_state \<Rightarrow> unit result \<times> palloc_state" where
  "palloc_retain_page physical_address s =
     (if physical_address mod PAGE_SIZE \<noteq> 0 then (Inl EFAIL, s)
      else
        let frame = physical_address div PAGE_SIZE; i = unat frame in
        if frame \<ge> first_unusable_frame s then (Inl EFAIL, s)
        else if \<not> frame_is_used s i \<or> frame_refcounts s i = 0 then (Inl EFAIL, s)
        else (Inr (), s\<lparr>frame_refcounts := (frame_refcounts s)(i := frame_refcounts s i + 1)\<rparr>))"

definition palloc_free_page :: "u32 \<Rightarrow> palloc_state \<Rightarrow> palloc_state" where
  "palloc_free_page physical_address s =
     (if physical_address mod PAGE_SIZE \<noteq> 0 then s
      else
        let frame = physical_address div PAGE_SIZE; i = unat frame in
        if frame \<ge> first_unusable_frame s then s
        else if \<not> frame_is_used s i \<or> frame_refcounts s i = 0 then s
        else
          let s1 = s\<lparr>frame_refcounts := (frame_refcounts s)(i := frame_refcounts s i - 1)\<rparr> in
          if frame_refcounts s1 i \<noteq> 0 then s1
          else
            let s2 = (mark_frame_free i s1)\<lparr>free_frames := free_frames s1 + 1\<rparr>
            in if frame < next_search_frame s2 then s2\<lparr>next_search_frame := frame\<rparr> else s2)"

definition palloc_free_pages_range :: "u32 \<Rightarrow> u32 \<Rightarrow> palloc_state \<Rightarrow> palloc_state" where
  "palloc_free_pages_range physical_address page_count s =
     (if physical_address mod PAGE_SIZE \<noteq> 0 then s
      else fold (\<lambda>index. palloc_free_page (physical_address + of_nat index * PAGE_SIZE))
             [0..<unat page_count] s)"

definition palloc_page_refcount :: "palloc_state \<Rightarrow> u32 \<Rightarrow> u32" where
  "palloc_page_refcount s physical_address =
     (if physical_address mod PAGE_SIZE \<noteq> 0 then 0
      else
        let frame = physical_address div PAGE_SIZE in
        if frame \<ge> first_unusable_frame s \<or> \<not> frame_is_used s (unat frame) then 0
        else ucast (frame_refcounts s (unat frame)))"

definition palloc_total_usable_pages :: "palloc_state \<Rightarrow> u32" where
  "palloc_total_usable_pages s = total_usable_frames s"

definition palloc_free_pages :: "palloc_state \<Rightarrow> u32" where
  "palloc_free_pages s = free_frames s"

definition palloc_managed_bytes :: "palloc_state \<Rightarrow> u32" where
  "palloc_managed_bytes s = first_unusable_frame s * PAGE_SIZE"

section \<open>The invariant\<close>

text \<open>
  A frame is free when its bit is clear. The invariant ties the four redundant parts of the state
  together: nothing at or above \<open>first_unusable_frame\<close> is free, a frame is in use exactly
  when its reference count is not 0, and \<open>free_frames\<close> counts the free frames. \<open>palloc_inv\<close>
  adds that frame 0 is never free, without which the address 0 would be both a page and the
  failure value.
\<close>

definition free_set :: "palloc_state \<Rightarrow> nat set" where
  "free_set s = {f. f < MAX_PAGE_FRAMES \<and> \<not> frame_is_used s f}"

definition palloc_core :: "palloc_state \<Rightarrow> bool" where
  "palloc_core s \<longleftrightarrow>
     unat (first_unusable_frame s) \<le> MAX_PAGE_FRAMES \<and>
     unat (next_search_frame s) \<le> MAX_PAGE_FRAMES \<and>
     (\<forall>f < MAX_PAGE_FRAMES. \<not> frame_is_used s f \<longrightarrow> f < unat (first_unusable_frame s)) \<and>
     (\<forall>f < MAX_PAGE_FRAMES. frame_is_used s f \<longleftrightarrow> frame_refcounts s f \<noteq> 0) \<and>
     unat (free_frames s) = card (free_set s)"

definition palloc_inv :: "palloc_state \<Rightarrow> bool" where
  "palloc_inv s \<longleftrightarrow> palloc_core s \<and> frame_is_used s 0"

text \<open>The number of references to a page, by its physical address.\<close>

definition page_refs :: "palloc_state \<Rightarrow> u32 \<Rightarrow> nat" where
  "page_refs s p = unat (palloc_page_refcount s p)"

lemma finite_free_set [simp]: "finite (free_set s)"
  by (simp add: free_set_def)

lemma free_set_bound: "f \<in> free_set s \<Longrightarrow> f < MAX_PAGE_FRAMES"
  by (simp add: free_set_def)

lemma card_free_set_le: "card (free_set s) \<le> MAX_PAGE_FRAMES"
proof -
  have "free_set s \<subseteq> {..<MAX_PAGE_FRAMES}" by (auto simp: free_set_def)
  then show ?thesis using card_mono [of "{..<MAX_PAGE_FRAMES}"] by simp
qed

lemma frame_is_used_simps [simp]:
  "frame_is_used (s\<lparr>frame_refcounts := rc\<rparr>) = frame_is_used s"
  "frame_is_used (s\<lparr>first_unusable_frame := a\<rparr>) = frame_is_used s"
  "frame_is_used (s\<lparr>total_usable_frames := b\<rparr>) = frame_is_used s"
  "frame_is_used (s\<lparr>free_frames := c\<rparr>) = frame_is_used s"
  "frame_is_used (s\<lparr>next_search_frame := d\<rparr>) = frame_is_used s"
  "frame_is_used (mark_frame_used f s) g = (frame_is_used s g \<or> g = f)"
  "frame_is_used (mark_frame_free f s) g = (frame_is_used s g \<and> g \<noteq> f)"
  by (auto simp: fun_eq_iff frame_is_used_def mark_frame_used_def mark_frame_free_def
      frame_bm.used_set_used frame_bm.used_set_free)

lemma mark_frame_simps [simp]:
  "frame_refcounts (mark_frame_used f s) = frame_refcounts s"
  "first_unusable_frame (mark_frame_used f s) = first_unusable_frame s"
  "free_frames (mark_frame_used f s) = free_frames s"
  "next_search_frame (mark_frame_used f s) = next_search_frame s"
  "total_usable_frames (mark_frame_used f s) = total_usable_frames s"
  "frame_refcounts (mark_frame_free f s) = frame_refcounts s"
  "first_unusable_frame (mark_frame_free f s) = first_unusable_frame s"
  "free_frames (mark_frame_free f s) = free_frames s"
  "next_search_frame (mark_frame_free f s) = next_search_frame s"
  "total_usable_frames (mark_frame_free f s) = total_usable_frames s"
  by (simp_all add: mark_frame_used_def mark_frame_free_def)

text \<open>Taking a free frame and returning a used one keep the invariant.\<close>

lemma core_acquire:
  assumes core: "palloc_core s" and f: "f \<in> free_set s"
    and used: "\<And>g. frame_is_used s' g = (frame_is_used s g \<or> g = f)"
    and rc: "frame_refcounts s' = (frame_refcounts s)(f := 1)"
    and rest: "first_unusable_frame s' = first_unusable_frame s"
      "free_frames s' = free_frames s - 1"
      "unat (next_search_frame s') \<le> MAX_PAGE_FRAMES"
  shows "palloc_core s'" and "free_set s' = free_set s - {f}"
proof -
  show fs: "free_set s' = free_set s - {f}" by (auto simp: free_set_def used)
  have "card (free_set s) \<noteq> 0" using f by auto
  then have "free_frames s \<noteq> 0" using core by (auto simp: palloc_core_def)
  then have "unat (free_frames s') = card (free_set s')"
    using core f by (simp add: rest fs unat_minus_one palloc_core_def)
  with core f rest show "palloc_core s'"
    by (auto simp: palloc_core_def used rc free_set_def)
qed

lemma core_release:
  assumes core: "palloc_core s" and f: "frame_is_used s f" "f < unat (first_unusable_frame s')"
    and used: "\<And>g. frame_is_used s' g = (frame_is_used s g \<and> g \<noteq> f)"
    and rc: "frame_refcounts s' = (frame_refcounts s)(f := 0)"
    and rest: "first_unusable_frame s \<le> first_unusable_frame s'"
      "unat (first_unusable_frame s') \<le> MAX_PAGE_FRAMES"
      "free_frames s' = free_frames s + 1"
      "unat (next_search_frame s') \<le> MAX_PAGE_FRAMES"
  shows "palloc_core s'" and "free_set s' = insert f (free_set s)"
proof -
  have fM: "f < MAX_PAGE_FRAMES" using f(2) rest(2) by simp
  show fs: "free_set s' = insert f (free_set s)" using f(1) fM by (auto simp: free_set_def used)
  have nf: "f \<notin> free_set s" using f by (simp add: free_set_def)
  have "unat (free_frames s) < 4294967295"
    using core card_free_set_le [of s] by (simp add: palloc_core_def MAX_PAGE_FRAMES_def)
  then have "unat (free_frames s') = card (free_set s')"
    using core nf by (simp add: rest fs unat_Suc_u32 palloc_core_def)
  with core f rest fM show "palloc_core s'"
    by (force simp: palloc_core_def used rc word_le_nat_alt)
qed

section \<open>Single pages\<close>

definition frame_address :: "nat \<Rightarrow> u32" where
  "frame_address f = of_nat f * PAGE_SIZE"

lemma unat_frame_address: "f < MAX_PAGE_FRAMES \<Longrightarrow> unat (frame_address f) = f * 4096"
  by (simp add: frame_address_def MAX_PAGE_FRAMES_def unat_word_ariths unat_of_nat)

lemma frame_address_simps:
  assumes "f < MAX_PAGE_FRAMES"
  shows "frame_address f mod PAGE_SIZE = 0" "unat (frame_address f div PAGE_SIZE) = f"
    "frame_address f = 0 \<longleftrightarrow> f = 0"
  using unat_frame_address [OF assms]
  by (simp_all add: word_unat_eq_iff unat_mod unat_div)

lemma frame_address_of_page:
  assumes "p mod PAGE_SIZE = 0"
  shows "frame_address (unat (p div PAGE_SIZE)) = p" and "unat (p div PAGE_SIZE) < MAX_PAGE_FRAMES"
proof -
  have m: "unat p mod 4096 = 0" using assms by (simp add: word_unat_eq_iff unat_mod)
  have l: "unat p div 4096 < 1048576" using unat_u32_lt [of p] by linarith
  show "unat (p div PAGE_SIZE) < MAX_PAGE_FRAMES" using l by (simp add: unat_div MAX_PAGE_FRAMES_def)
  then have "unat (frame_address (unat (p div PAGE_SIZE))) = unat p"
    using div_mult_mod_eq [of "unat p" 4096] m by (simp add: unat_frame_address unat_div)
  then show "frame_address (unat (p div PAGE_SIZE)) = p" by (simp add: word_unat_eq_iff)
qed

lemma page_refs_eq:
  assumes "palloc_core s"
  shows "page_refs s p =
    (if p mod PAGE_SIZE = 0 \<and> p div PAGE_SIZE < first_unusable_frame s
     then unat (frame_refcounts s (unat (p div PAGE_SIZE))) else 0)"
  using assms frame_address_of_page(2) [of p]
  by (auto simp: page_refs_def palloc_page_refcount_def Let_def palloc_core_def not_less
      unat_ucast_u16)

lemma page_refs_frame:
  assumes "palloc_core s" "f < MAX_PAGE_FRAMES"
  shows "page_refs s (frame_address f) =
    (if f < unat (first_unusable_frame s) then unat (frame_refcounts s f) else 0)"
  using assms by (simp add: page_refs_eq frame_address_simps word_less_nat_alt)

lemma take_frame_eq:
  "take_frame f s = (frame_address f, (mark_frame_used f s)
     \<lparr>frame_refcounts := (frame_refcounts s)(f := 1), free_frames := free_frames s - 1,
      next_search_frame := of_nat f + 1\<rparr>)"
  by (simp add: take_frame_def frame_address_def)

lemma take_frame_eqs:
  assumes "take_frame f s = (p, s')"
  shows "p = frame_address f" "frame_is_used s' g = (frame_is_used s g \<or> g = f)"
    "frame_refcounts s' = (frame_refcounts s)(f := 1)"
    "first_unusable_frame s' = first_unusable_frame s"
  using assms unfolding take_frame_eq by auto

lemma take_frame_core:
  assumes "palloc_core s" "f \<in> free_set s"
  shows "palloc_core (snd (take_frame f s))" "free_set (snd (take_frame f s)) = free_set s - {f}"
proof -
  have "f < MAX_PAGE_FRAMES" using assms(2) by (rule free_set_bound)
  then have "unat (of_nat f + 1 :: u32) \<le> MAX_PAGE_FRAMES"
    by (simp add: MAX_PAGE_FRAMES_def unat_word_ariths unat_of_nat)
  then show "palloc_core (snd (take_frame f s))"
      "free_set (snd (take_frame f s)) = free_set s - {f}"
    using core_acquire [OF assms, of "snd (take_frame f s)"]
    by (simp_all add: take_frame_eq)
qed

lemma alloc_page_cases:
  assumes "palloc_core s"
  shows "(free_set s = {} \<and> palloc_alloc_page s = (0, s)) \<or>
         (\<exists>f \<in> free_set s. palloc_alloc_page s = take_frame f s)"
proof -
  let ?free = "\<lambda>f. \<not> frame_is_used s f"
  have lim: "unat (first_unusable_frame s) \<le> MAX_PAGE_FRAMES"
      "unat (next_search_frame s) \<le> MAX_PAGE_FRAMES"
      "\<forall>f < MAX_PAGE_FRAMES. ?free f \<longrightarrow> f < unat (first_unusable_frame s)"
    using assms by (auto simp: palloc_core_def)
  let ?hi = "find ?free [unat (next_search_frame s)..<unat (first_unusable_frame s)]"
  let ?lo = "find ?free [0..<unat (next_search_frame s)]"
  consider f where "?hi = Some f" | f where "?hi = None" "?lo = Some f" | "?hi = None" "?lo = None"
    by (cases ?hi; cases ?lo) auto
  then show ?thesis
  proof cases
    case (1 f)
    then have "f \<in> free_set s" using find_upt_Some [OF 1] lim by (auto simp: free_set_def)
    then show ?thesis using 1 by (auto simp: palloc_alloc_page_def)
  next
    case (2 f)
    then have "f \<in> free_set s" using find_upt_Some [OF 2(2)] lim by (auto simp: free_set_def)
    then show ?thesis using 2 by (auto simp: palloc_alloc_page_def)
  next
    case 3
    then have "free_set s = {}"
      using lim unfolding find_upt_None free_set_def by (auto simp: not_less) (meson not_less)
    then show ?thesis using 3 by (simp add: palloc_alloc_page_def)
  qed
qed

lemma page_refs_upd:
  assumes core: "palloc_core s" "palloc_core s'"
    and p: "p mod PAGE_SIZE = 0" "p div PAGE_SIZE < first_unusable_frame s"
    and eqs: "frame_refcounts s' = (frame_refcounts s)(unat (p div PAGE_SIZE) := v)"
      "first_unusable_frame s' = first_unusable_frame s"
  shows "page_refs s' = (page_refs s)(p := unat v)"
proof
  fix q
  show "page_refs s' q = ((page_refs s)(p := unat v)) q"
  proof (cases "q = p")
    case True
    then show ?thesis using p by (simp add: page_refs_eq [OF core(2)] eqs)
  next
    case False
    have "unat (q div PAGE_SIZE) \<noteq> unat (p div PAGE_SIZE)" if "q mod PAGE_SIZE = 0"
      using frame_address_of_page(1) [OF that] frame_address_of_page(1) [OF p(1)] False by metis
    then show ?thesis
      using False by (simp add: page_refs_eq [OF core(2)] page_refs_eq [OF core(1)] eqs)
  qed
qed

lemma core_used_iff: "palloc_core s \<Longrightarrow> f < MAX_PAGE_FRAMES \<Longrightarrow>
    frame_is_used s f = (frame_refcounts s f \<noteq> 0)"
  by (simp add: palloc_core_def)

lemma core_free_below: "palloc_core s \<Longrightarrow> f \<in> free_set s \<Longrightarrow> f < unat (first_unusable_frame s)"
  by (simp add: palloc_core_def free_set_def)

lemma refs_after_acquire:
  assumes core: "palloc_core s" "palloc_core s'" and f: "f \<in> free_set s"
    and eqs: "frame_refcounts s' = (frame_refcounts s)(f := 1)"
      "first_unusable_frame s' = first_unusable_frame s"
  shows "page_refs s (frame_address f) = 0" "page_refs s' = (page_refs s)(frame_address f := 1)"
proof -
  have fM: "f < MAX_PAGE_FRAMES" using f by (rule free_set_bound)
  have fl: "f < unat (first_unusable_frame s)" using core(1) f by (rule core_free_below)
  have r0: "frame_refcounts s f = 0"
    using f core_used_iff [OF core(1) fM] by (simp add: free_set_def)
  show "page_refs s (frame_address f) = 0"
    by (simp add: page_refs_frame [OF core(1) fM] r0)
  show "page_refs s' = (page_refs s)(frame_address f := 1)"
    using page_refs_upd [OF core, of "frame_address f" 1] eqs fl
    by (simp add: frame_address_simps [OF fM] word_less_nat_alt)
qed

lemma palloc_alloc_page_ok:
  assumes inv: "palloc_inv s" and a: "palloc_alloc_page s = (p, s')" and p: "p \<noteq> 0"
  shows "palloc_inv s' \<and> p mod 4096 = 0 \<and> page_refs s p = 0 \<and> page_refs s' = (page_refs s)(p := 1)"
proof -
  have core: "palloc_core s" using inv by (simp add: palloc_inv_def)
  from alloc_page_cases [OF core] a p obtain f where f: "f \<in> free_set s" "take_frame f s = (p, s')"
    by auto
  have pf: "p = frame_address f" and s': "s' = snd (take_frame f s)"
    using f(2) by (simp_all add: take_frame_eq)
  have core': "palloc_core s'" using take_frame_core(1) [OF core f(1)] s' by simp
  have "frame_is_used s' 0" using inv by (simp add: s' take_frame_eq palloc_inv_def)
  with core' have "palloc_inv s'" by (simp add: palloc_inv_def)
  moreover have "page_refs s p = 0 \<and> page_refs s' = (page_refs s)(p := 1)"
    using refs_after_acquire [OF core core' f(1)] by (simp add: pf s' take_frame_eq)
  moreover have "p mod 4096 = 0"
    using frame_address_simps(1) free_set_bound [OF f(1)] pf by simp
  ultimately show ?thesis by simp
qed

lemma palloc_alloc_page_fail:
  assumes inv: "palloc_inv s" and a: "palloc_alloc_page s = (0, s')"
  shows "s' = s" and "free_set s = {}"
proof -
  have core: "palloc_core s" and z: "frame_is_used s 0" using inv by (auto simp: palloc_inv_def)
  have "\<not> (\<exists>f \<in> free_set s. palloc_alloc_page s = take_frame f s)"
  proof
    assume "\<exists>f \<in> free_set s. palloc_alloc_page s = take_frame f s"
    then obtain f where f: "f \<in> free_set s" "frame_address f = 0" using a by (auto simp: take_frame_eq)
    then have "f = 0" using frame_address_simps(3) [OF free_set_bound [OF f(1)]] by simp
    with f(1) z show False by (simp add: free_set_def)
  qed
  with alloc_page_cases [OF core] a show "s' = s" "free_set s = {}" by auto
qed

text \<open>The guards shared by retaining and releasing a page that has references.\<close>

lemma page_refs_posD:
  assumes core: "palloc_core s" and r: "0 < page_refs s p"
  shows "p mod PAGE_SIZE = 0" "p div PAGE_SIZE < first_unusable_frame s"
    "unat (p div PAGE_SIZE) < MAX_PAGE_FRAMES"
    "page_refs s p = unat (frame_refcounts s (unat (p div PAGE_SIZE)))"
    "frame_is_used s (unat (p div PAGE_SIZE))" "frame_refcounts s (unat (p div PAGE_SIZE)) \<noteq> 0"
proof -
  show al: "p mod PAGE_SIZE = 0" and "p div PAGE_SIZE < first_unusable_frame s"
      and rc: "page_refs s p = unat (frame_refcounts s (unat (p div PAGE_SIZE)))"
    using r by (simp_all add: page_refs_eq [OF core] split: if_splits)
  show iM: "unat (p div PAGE_SIZE) < MAX_PAGE_FRAMES" using al by (rule frame_address_of_page)
  show nz: "frame_refcounts s (unat (p div PAGE_SIZE)) \<noteq> 0" using r rc by (intro notI) simp
  then show "frame_is_used s (unat (p div PAGE_SIZE))" using core_used_iff [OF core iM] by simp
qed

lemma page_refs_0D:
  assumes core: "palloc_core s" and r: "page_refs s p = 0"
  shows "p mod PAGE_SIZE \<noteq> 0 \<or> p div PAGE_SIZE \<ge> first_unusable_frame s \<or>
    frame_refcounts s (unat (p div PAGE_SIZE)) = 0"
  using r by (simp add: page_refs_eq [OF core] unat_eq_0 not_less split: if_splits)

lemma palloc_retain_page_ok:
  assumes inv: "palloc_inv s" and r: "0 < page_refs s p" "page_refs s p < 65535"
  shows "\<exists>s'. palloc_retain_page p s = (Inr (), s') \<and> palloc_inv s' \<and>
    page_refs s' = (page_refs s)(p := Suc (page_refs s p))"
proof -
  let ?i = "unat (p div PAGE_SIZE)"
  let ?v = "frame_refcounts s ?i + 1"
  let ?s' = "s\<lparr>frame_refcounts := (frame_refcounts s)(?i := ?v)\<rparr>"
  have core: "palloc_core s" using inv by (simp add: palloc_inv_def)
  note d = page_refs_posD [OF core r(1)]
  have suc: "unat ?v = Suc (page_refs s p)"
    using r(2) d(4) by (simp add: unat_word_ariths)
  then have nz': "?v \<noteq> 0" by (intro notI) simp
  have core': "palloc_core ?s'"
    using core d(5,6) nz' by (simp add: palloc_core_def free_set_def)
  have "palloc_retain_page p s = (Inr (), ?s')"
    using d by (simp add: palloc_retain_page_def Let_def)
  moreover have "page_refs ?s' = (page_refs s)(p := Suc (page_refs s p))"
    using page_refs_upd [OF core core' d(1,2), of ?v] suc by simp
  ultimately show ?thesis using core' inv by (simp add: palloc_inv_def)
qed

lemma palloc_retain_page_fail:
  assumes inv: "palloc_inv s" and r: "page_refs s p = 0"
  shows "palloc_retain_page p s = (Inl EFAIL, s)"
  using page_refs_0D [OF _ r] inv
  by (auto simp: palloc_retain_page_def Let_def palloc_inv_def)

lemma palloc_free_page_ok:
  assumes inv: "palloc_inv s" and p: "p \<noteq> 0"
  shows "palloc_inv (palloc_free_page p s) \<and>
    page_refs (palloc_free_page p s) = (page_refs s)(p := page_refs s p - 1)"
proof (cases "page_refs s p = 0")
  case True
  have "palloc_free_page p s = s"
    using page_refs_0D [OF _ True] inv by (auto simp: palloc_free_page_def Let_def palloc_inv_def)
  then show ?thesis using inv True by (simp add: fun_upd_idem)
next
  case False
  let ?i = "unat (p div PAGE_SIZE)"
  let ?v = "frame_refcounts s ?i - 1"
  let ?s' = "palloc_free_page p s"
  have core: "palloc_core s" using inv by (simp add: palloc_inv_def)
  have r: "0 < page_refs s p" using False by simp
  note d = page_refs_posD [OF core r]
  note live = d(1,5,6) d(2) [folded not_le]
  have i0: "?i \<noteq> 0"
    using p frame_address_of_page(1) [OF d(1)] by (intro notI) (simp add: frame_address_def)
  have pre: "unat ?v = page_refs s p - 1" using d(4,6) by (simp add: unat_minus_one)
  have rc: "frame_refcounts ?s' = (frame_refcounts s)(?i := ?v)"
      "first_unusable_frame ?s' = first_unusable_frame s"
    using live by (simp_all add: palloc_free_page_def Let_def)
  have "palloc_core ?s' \<and> frame_is_used ?s' 0"
  proof (cases "?v = 0")
    case True
    have used: "frame_is_used ?s' g = (frame_is_used s g \<and> g \<noteq> ?i)" for g
      using live True by (simp add: palloc_free_page_def Let_def)
    have "unat (next_search_frame ?s') \<le> MAX_PAGE_FRAMES"
      using live core less_imp_le [OF d(3)] by (simp add: palloc_free_page_def Let_def palloc_core_def)
    moreover have "free_frames ?s' = free_frames s + 1"
      using live True by (simp add: palloc_free_page_def Let_def)
    ultimately have "palloc_core ?s'"
      using core_release(1) [OF core d(5), of ?s'] d(2) rc core True used
      by (simp add: word_less_nat_alt palloc_core_def)
    then show ?thesis using inv i0 by (simp add: used palloc_inv_def)
  next
    case nz: False
    have eq: "?s' = s\<lparr>frame_refcounts := (frame_refcounts s)(?i := ?v)\<rparr>"
      using live nz by (simp add: palloc_free_page_def Let_def)
    then show ?thesis
      unfolding eq using inv d(5,6) nz by (simp add: palloc_core_def palloc_inv_def free_set_def)
  qed
  then show ?thesis
    using page_refs_upd [OF core _ d(1,2), of ?s' ?v] rc pre by (simp add: palloc_inv_def)
qed

text \<open>The code's allocator provides the page allocator interface.\<close>

interpretation pages: page_allocator palloc_inv page_refs palloc_alloc_page palloc_retain_page
  palloc_free_page
  by (unfold_locales; (rule palloc_alloc_page_ok palloc_alloc_page_fail(1) palloc_retain_page_ok
      palloc_retain_page_fail palloc_free_page_ok; assumption))

section \<open>Runs of pages\<close>

lemma find_run_Some:
  assumes "find_run s start limit n = Some r"
  shows "start \<le> r" "r \<le> limit" "\<And>f. r \<le> f \<Longrightarrow> f < r + n \<Longrightarrow> \<not> frame_is_used s f"
proof -
  have "start \<le> r \<and> r \<le> limit \<and> (\<forall>f. r \<le> f \<longrightarrow> f < r + n \<longrightarrow> \<not> frame_is_used s f)"
    using assms
  proof (induction s start limit n rule: find_run.induct)
    case (1 s start limit n)
    show ?case
    proof (cases "find (frame_is_used s) [start..<start + n]")
      case None
      then have "r = start" "start \<le> limit"
        using "1.prems" by (simp_all add: find_run.simps [of s start] split: if_splits)
      then show ?thesis using None by (simp add: find_upt_None)
    next
      case (Some f)
      have "start \<le> limit" and run: "find_run s (Suc f) limit n = Some r"
        using "1.prems" Some by (simp_all add: find_run.simps [of s start] split: if_splits)
      from "1.IH" [OF this(1) Some run] find_upt_Some(1) [OF Some] show ?thesis by auto
    qed
  qed
  then show "start \<le> r" "r \<le> limit" "\<And>f. r \<le> f \<Longrightarrow> f < r + n \<Longrightarrow> \<not> frame_is_used s f"
    by auto
qed

text \<open>The search is exhaustive: without a result, every run that starts in the interval has a used frame.\<close>

lemma find_run_None:
  "find_run s start limit n = None \<Longrightarrow> start \<le> q \<Longrightarrow> q \<le> limit \<Longrightarrow>
     \<exists>f. q \<le> f \<and> f < q + n \<and> frame_is_used s f"
proof (induction s start limit n rule: find_run.induct)
  case (1 s start limit n)
  from "1.prems" obtain f where f: "find (frame_is_used s) [start..<start + n] = Some f"
      and run: "find_run s (Suc f) limit n = None"
    by (auto simp: find_run.simps [of s start] split: option.splits)
  note ff = find_upt_Some [OF f]
  show ?case
  proof (cases "q \<le> f")
    case True
    then show ?thesis using ff "1.prems"(2) by (intro exI [of _ f]) simp
  next
    case False
    then show ?thesis using "1.IH" [OF _ f run] "1.prems" by simp
  qed
qed

lemma fold_use_frame:
  "frame_is_used (fold use_frame fs s) g = (frame_is_used s g \<or> g \<in> set fs)"
  "frame_refcounts (fold use_frame fs s) g = (if g \<in> set fs then 1 else frame_refcounts s g)"
  "first_unusable_frame (fold use_frame fs s) = first_unusable_frame s"
  "free_frames (fold use_frame fs s) = free_frames s"
  by (induction fs arbitrary: s) (auto simp: use_frame_def)

lemma take_run_core:
  assumes core: "palloc_core s" and run: "{r..<r + unat n} \<subseteq> free_set s" and n: "n \<noteq> 0"
    and r: "take_run r n s = (p, s')"
  shows "palloc_core s'" "p = frame_address r" "free_set s' = free_set s - {r..<r + unat n}"
    "frame_is_used s' g = (frame_is_used s g \<or> g \<in> {r..<r + unat n})"
    "frame_refcounts s' g = (if g \<in> {r..<r + unat n} then 1 else frame_refcounts s g)"
    "first_unusable_frame s' = first_unusable_frame s"
proof -
  have s': "s' = (fold use_frame [r..<r + unat n] s)
      \<lparr>free_frames := free_frames s - n, next_search_frame := of_nat r + n\<rparr>"
    and p: "p = frame_address r"
    using r by (simp_all add: take_run_def Let_def frame_address_def fold_use_frame)
  show "p = frame_address r" by (rule p)
  show used: "frame_is_used s' g = (frame_is_used s g \<or> g \<in> {r..<r + unat n})" for g
    by (simp add: s' fold_use_frame)
  show rc: "frame_refcounts s' g = (if g \<in> {r..<r + unat n} then 1 else frame_refcounts s g)" for g
    by (simp add: s' fold_use_frame)
  show fu: "first_unusable_frame s' = first_unusable_frame s" by (simp add: s' fold_use_frame)
  show fs: "free_set s' = free_set s - {r..<r + unat n}" by (auto simp: free_set_def used)
  have "r + (unat n - 1) \<in> free_set s" using run n by (auto simp: unat_gt_0)
  then have rM: "r + unat n \<le> MAX_PAGE_FRAMES" using n free_set_bound by (fastforce simp: unat_gt_0)
  have "card {r..<r + unat n} \<le> card (free_set s)" using run by (intro card_mono) auto
  then have nle: "unat n \<le> unat (free_frames s)" using core by (simp add: palloc_core_def)
  have "free_frames s' = free_frames s - n" by (simp add: s')
  then have ff: "unat (free_frames s') = card (free_set s')"
    using core run nle by (simp add: fs unat_sub word_le_nat_alt card_Diff_subset palloc_core_def)
  have nsf: "unat (next_search_frame s') \<le> MAX_PAGE_FRAMES"
    using rM by (simp add: s' MAX_PAGE_FRAMES_def unat_word_ariths unat_of_nat)
  show "palloc_core s'" using core ff nsf by (auto simp: palloc_core_def used rc fu)
qed

lemma alloc_pages_cases:
  assumes core: "palloc_core s" and n: "n \<noteq> 0" "n \<noteq> 1" and a: "palloc_alloc_pages n s = (p, s')"
  shows "(p = 0 \<and> s' = s) \<or>
    (\<exists>r. {r..<r + unat n} \<subseteq> free_set s \<and> take_run r n s = (p, s'))"
proof -
  have lim: "unat (first_unusable_frame s) \<le> MAX_PAGE_FRAMES"
      "unat (next_search_frame s) \<le> MAX_PAGE_FRAMES"
    using core by (auto simp: palloc_core_def)
  have run: "{r..<r + unat n} \<subseteq> free_set s"
    if "find_run s a (unat (b - n)) (unat n) = Some r" "n \<le> b" "unat b \<le> MAX_PAGE_FRAMES" for a b r
    using find_run_Some [OF that(1)] that(2,3) unat_sub [OF that(2)] word_le_nat_alt [of n b]
    by (auto simp: free_set_def)
  show ?thesis
    using a n run [OF _ _ lim(1)] run [OF _ _ lim(2)]
    by (fastforce simp: palloc_alloc_pages_def split: if_splits option.splits)
qed

lemma alloc_pages_run:
  assumes inv: "palloc_inv s" and n: "n \<noteq> 0" and a: "palloc_alloc_pages n s = (p, s')" and p: "p \<noteq> 0"
  shows "palloc_inv s'" "\<exists>r. p = frame_address r \<and> {r..<r + unat n} \<subseteq> free_set s \<and>
    free_set s' = free_set s - {r..<r + unat n} \<and>
    (\<forall>i < unat n. page_refs s' (frame_address (r + i)) = 1)"
proof -
  have core: "palloc_core s" using inv by (simp add: palloc_inv_def)
  have "\<exists>r. {r..<r + unat n} \<subseteq> free_set s \<and> palloc_core s' \<and> p = frame_address r \<and>
      free_set s' = free_set s - {r..<r + unat n} \<and>
      (\<forall>g. frame_is_used s' g = (frame_is_used s g \<or> g \<in> {r..<r + unat n})) \<and>
      (\<forall>g \<in> {r..<r + unat n}. frame_refcounts s' g = 1) \<and>
      first_unusable_frame s' = first_unusable_frame s"
  proof (cases "n = 1")
    case True
    then have a': "palloc_alloc_page s = (p, s')" using a by (simp add: palloc_alloc_pages_def)
    then obtain f where f: "f \<in> free_set s" "take_frame f s = (p, s')"
      using alloc_page_cases [OF core] p by auto
    have "palloc_core s'" "free_set s' = free_set s - {f}"
      using take_frame_core [OF core f(1)] f(2) by simp_all
    moreover have "{f..<f + unat n} = {f}" using True by simp
    ultimately show ?thesis
      using f(1) take_frame_eqs [OF f(2)] by (intro exI [of _ f]) simp
  next
    case False
    from alloc_pages_cases [OF core n False a] p
    obtain r where r: "{r..<r + unat n} \<subseteq> free_set s" "take_run r n s = (p, s')" by auto
    from take_run_core [OF core r(1) n r(2)] r show ?thesis by (intro exI [of _ r]) auto
  qed
  then obtain r where r: "{r..<r + unat n} \<subseteq> free_set s" "palloc_core s'" "p = frame_address r"
      "free_set s' = free_set s - {r..<r + unat n}"
      and u: "\<And>g. frame_is_used s' g = (frame_is_used s g \<or> g \<in> {r..<r + unat n})"
      and rc: "\<And>g. g \<in> {r..<r + unat n} \<Longrightarrow> frame_refcounts s' g = 1"
      and fu: "first_unusable_frame s' = first_unusable_frame s"
    by blast
  show "palloc_inv s'" using r(2) inv u by (simp add: palloc_inv_def)
  have "page_refs s' (frame_address (r + i)) = 1" if "i < unat n" for i
  proof -
    have i: "r + i \<in> free_set s" using r(1) that by auto
    show ?thesis
      using page_refs_frame [OF r(2) free_set_bound [OF i]] core_free_below [OF core i]
        rc [of "r + i"] that by (simp add: fu)
  qed
  then show "\<exists>r. p = frame_address r \<and> {r..<r + unat n} \<subseteq> free_set s \<and>
      free_set s' = free_set s - {r..<r + unat n} \<and>
      (\<forall>i < unat n. page_refs s' (frame_address (r + i)) = 1)"
    using r by blast
qed

section \<open>Initialisation\<close>

text \<open>
  A range of addresses is freed by whole frames only and reserved by every frame it touches.
\<close>

definition frame_inside :: "nat \<Rightarrow> nat \<Rightarrow> nat \<Rightarrow> bool" where
  "frame_inside a e f \<longleftrightarrow> a \<le> 4096 * f \<and> 4096 * f + 4096 \<le> e"

definition frame_touches :: "nat \<Rightarrow> nat \<Rightarrow> nat \<Rightarrow> bool" where
  "frame_touches a e f \<longleftrightarrow> a < 4096 * f + 4096 \<and> 4096 * f < e"

lemma clip_range_end_unat: "unat (clip_range_end e) = min (unat e) 4294967296"
  by (auto simp: clip_range_end_def MAX_PHYSICAL_BYTES_def word_less_nat_alt)

lemma align_down_unat:
  assumes "unat a < 17592186044416"
  shows "unat (align_down_to_page a) = unat a div 4096"
proof -
  have "unat (a div 4096) = unat a div 4096" by (simp add: unat_div)
  moreover have "unat a div 4096 < 4294967296" using assms by linarith
  ultimately show ?thesis by (simp add: align_down_to_page_def unat_ucast_u32)
qed

lemma align_up_unat:
  assumes "unat a < 17592186040321"
  shows "unat (align_up_to_page a) = (unat a + 4095) div 4096"
proof -
  have "unat (a + 4096 - 1) = unat a + 4095"
    using assms by (simp add: unat_word_ariths)
  then have "unat ((a + 4096 - 1) div 4096) = (unat a + 4095) div 4096" by (simp add: unat_div)
  moreover have "(unat a + 4095) div 4096 < 4294967296" using assms by linarith
  ultimately show ?thesis by (simp add: align_up_to_page_def unat_ucast_u32)
qed

lemma last_frame_bounds:
  "unat (align_down_to_page (clip_range_end e)) = min (unat e) 4294967296 div 4096"
  "unat (align_up_to_page (clip_range_end e)) = (min (unat e) 4294967296 + 4095) div 4096"
  by (simp_all add: align_down_unat align_up_unat clip_range_end_unat)

lemma inside_iff:
  assumes "unat a < 17592186040321" "f < MAX_PAGE_FRAMES"
  shows "unat (align_up_to_page a) \<le> f \<and> f < unat (align_down_to_page (clip_range_end e)) \<longleftrightarrow>
    frame_inside (unat a) (unat e) f"
  using assms by (auto simp: align_up_unat last_frame_bounds frame_inside_def MAX_PAGE_FRAMES_def)

lemma touches_iff:
  assumes "unat a < 17592186040321" "f < MAX_PAGE_FRAMES"
  shows "unat (align_down_to_page a) \<le> f \<and> f < unat (align_up_to_page (clip_range_end e)) \<longleftrightarrow>
    frame_touches (unat a) (unat e) f"
  using assms by (auto simp: align_down_unat last_frame_bounds frame_touches_def MAX_PAGE_FRAMES_def)

lemma fold_free_frame:
  assumes "palloc_core s" "\<forall>f \<in> set fs. f < unat (first_unusable_frame s)"
  shows "palloc_core (fold free_frame fs s) \<and>
    (\<forall>g. frame_is_used (fold free_frame fs s) g = (frame_is_used s g \<and> g \<notin> set fs))"
  using assms
proof (induction fs arbitrary: s)
  case Nil
  then show ?case by simp
next
  case (Cons f fs)
  have "palloc_core (free_frame f s) \<and>
      (\<forall>g. frame_is_used (free_frame f s) g = (frame_is_used s g \<and> g \<noteq> f)) \<and>
      first_unusable_frame (free_frame f s) = first_unusable_frame s"
  proof (cases "frame_is_used s f")
    case True
    have "palloc_core (free_frame f s)"
      using core_release(1) [OF Cons.prems(1) True, of "free_frame f s"] Cons.prems True
      by (simp add: free_frame_def palloc_core_def)
    then show ?thesis using True by (simp add: free_frame_def)
  next
    case False
    then show ?thesis using Cons.prems by (auto simp: free_frame_def)
  qed
  with Cons.IH [of "free_frame f s"] Cons.prems show ?case by auto
qed

lemma free_range_spec:
  assumes "palloc_core s"
  shows "palloc_core (free_range a e s) \<and>
    (\<forall>g. frame_is_used (free_range a e s) g = (frame_is_used s g \<and>
       \<not> (unat (align_up_to_page a) \<le> g \<and> g < unat (align_down_to_page (clip_range_end e)))))"
proof -
  let ?l = "align_down_to_page (clip_range_end e)"
  let ?s = "if ?l > first_unusable_frame s then s\<lparr>first_unusable_frame := ?l\<rparr> else s"
  have "unat ?l \<le> MAX_PAGE_FRAMES"
    using div_le_mono [of "min (unat e) 4294967296" 4294967296 4096]
    by (simp add: last_frame_bounds MAX_PAGE_FRAMES_def)
  then have "palloc_core ?s"
    using assms by (auto simp: palloc_core_def free_set_def word_less_nat_alt)
  moreover have "\<forall>f \<in> set [unat (align_up_to_page a)..<unat ?l]. f < unat (first_unusable_frame ?s)"
    by (auto simp: word_less_nat_alt)
  ultimately have "palloc_core (fold free_frame [unat (align_up_to_page a)..<unat ?l] ?s) \<and>
      (\<forall>g. frame_is_used (fold free_frame [unat (align_up_to_page a)..<unat ?l] ?s) g =
        (frame_is_used ?s g \<and> g \<notin> set [unat (align_up_to_page a)..<unat ?l]))"
    by (rule fold_free_frame)
  moreover have "frame_is_used ?s = frame_is_used s" by simp
  ultimately show ?thesis by (simp add: free_range_def Let_def)
qed

lemma fold_reserve_frame:
  assumes "palloc_core s" "\<forall>f \<in> set fs. f < MAX_PAGE_FRAMES"
  shows "palloc_core (fold reserve_frame fs s) \<and>
    (\<forall>g. frame_is_used (fold reserve_frame fs s) g = (frame_is_used s g \<or> g \<in> set fs))"
  using assms
proof (induction fs arbitrary: s)
  case Nil
  then show ?case by simp
next
  case (Cons f fs)
  have "palloc_core (reserve_frame f s) \<and>
      (\<forall>g. frame_is_used (reserve_frame f s) g = (frame_is_used s g \<or> g = f))"
  proof (cases "frame_is_used s f")
    case True
    then show ?thesis using Cons.prems by (auto simp: reserve_frame_def)
  next
    case False
    then have "f \<in> free_set s" using Cons.prems by (simp add: free_set_def)
    from core_acquire(1) [OF Cons.prems(1) this, of "reserve_frame f s"] Cons.prems False
    have "palloc_core (reserve_frame f s)" by (simp add: reserve_frame_def palloc_core_def)
    then show ?thesis using False by (simp add: reserve_frame_def)
  qed
  with Cons.IH [of "reserve_frame f s"] Cons.prems show ?case by auto
qed

lemma reserve_range_spec:
  assumes "palloc_core s"
  shows "palloc_core (reserve_range a e s) \<and>
    (\<forall>g < MAX_PAGE_FRAMES. frame_is_used (reserve_range a e s) g = (frame_is_used s g \<or>
       (unat (align_down_to_page a) \<le> g \<and> g < unat (align_up_to_page (clip_range_end e)))))"
proof -
  let ?a = "unat (align_down_to_page a)" and ?u = "first_unusable_frame s"
  let ?e = "align_up_to_page (clip_range_end e)"
  let ?l = "if ?e > ?u then ?u else ?e"
  have "unat ?l \<le> unat ?u" by (simp add: word_less_nat_alt)
  then have "\<forall>f \<in> set [?a..<unat ?l]. f < MAX_PAGE_FRAMES"
    using assms by (auto simp: palloc_core_def)
  from fold_reserve_frame [OF assms this]
  have spec: "palloc_core (reserve_range a e s)"
      "\<And>g. frame_is_used (reserve_range a e s) g = (frame_is_used s g \<or> (?a \<le> g \<and> g < unat ?l))"
    by (auto simp: reserve_range_def Let_def)
  have "frame_is_used s g \<or> g < unat ?u" if "g < MAX_PAGE_FRAMES" for g
    using assms that by (auto simp: palloc_core_def)
  then show ?thesis using spec by (force simp: word_less_nat_alt)
qed

text \<open>The ranges that \<open>palloc_init\<close> reserves, in the code's order.\<close>

definition boot_ranges :: "multiboot_info \<Rightarrow> u32 \<Rightarrow> u32 \<Rightarrow> (u64 \<times> u64) list" where
  "boot_ranges mb kernel_start kernel_end =
     [(0, 0x100000), (ucast kernel_start, ucast kernel_end),
      (ucast (mb_address mb), ucast (mb_address mb + 116))] @
     (if mb_flags mb AND MULTIBOOT_INFO_MMAP \<noteq> 0
      then [(ucast (mb_mmap_addr mb), ucast (mb_mmap_addr mb + mb_mmap_length mb))] else []) @
     (if mb_flags mb AND MULTIBOOT_INFO_CMDLINE \<noteq> 0 \<and> mb_cmdline mb \<noteq> 0
      then [(ucast (mb_cmdline mb), ucast (mb_cmdline mb + 256))] else []) @
     (if mb_flags mb AND MULTIBOOT_INFO_FRAMEBUFFER \<noteq> 0 \<and> mb_framebuffer_addr mb \<noteq> 0 \<and>
         mb_framebuffer_pitch mb \<noteq> 0 \<and> mb_framebuffer_height mb \<noteq> 0
      then [(mb_framebuffer_addr mb, mb_framebuffer_addr mb +
             ucast (mb_framebuffer_pitch mb) * ucast (mb_framebuffer_height mb))] else []) @
     (if mb_flags mb AND MULTIBOOT_INFO_MODS = 0 \<or> mb_mods_count mb = 0 then []
      else (ucast (mb_mods_addr mb), ucast (mb_mods_addr mb + mb_mods_count mb * 16)) #
        concat (map (\<lambda>m. (ucast (mod_start m), ucast (mod_end m)) #
            (if mod_cmdline m \<noteq> 0
             then [(ucast (mod_cmdline m), ucast (mod_cmdline m + 256))] else []))
          (take (unat (mb_mods_count mb)) (mb_modules mb))))"

lemma fold_reserve_module:
  "fold reserve_module ms s = fold (\<lambda>(a, e). reserve_range a e)
     (concat (map (\<lambda>m. (ucast (mod_start m), ucast (mod_end m)) #
        (if mod_cmdline m \<noteq> 0 then [(ucast (mod_cmdline m), ucast (mod_cmdline m + 256))] else [])) ms)) s"
  by (induction ms arbitrary: s) (simp_all add: reserve_module_def Let_def)

definition init_available :: "multiboot_info \<Rightarrow> palloc_state" where
  "init_available mb =
     (if mb_flags mb AND MULTIBOOT_INFO_MMAP \<noteq> 0 then fold free_map_entry (mb_mmap mb) palloc_reset
      else if mb_flags mb AND MULTIBOOT_INFO_MEMORY \<noteq> 0
      then free_range 0x100000 (0x100000 + ucast (mb_mem_upper mb) * 1024) palloc_reset
      else palloc_reset)"

lemma palloc_init_eq:
  "palloc_init mb kernel_start kernel_end =
     (fold (\<lambda>(a, e). reserve_range a e) (boot_ranges mb kernel_start kernel_end)
       ((init_available mb)\<lparr>total_usable_frames := free_frames (init_available mb)\<rparr>))
     \<lparr>next_search_frame := align_up_to_page (ucast kernel_end)\<rparr>"
  unfolding palloc_init_def init_available_def [symmetric]
  by (simp add: Let_def boot_ranges_def reserve_boot_structures_def fold_reserve_module)

lemma core_simps [simp]:
  "palloc_core (s\<lparr>total_usable_frames := t\<rparr>) = palloc_core s"
  "unat n \<le> MAX_PAGE_FRAMES \<Longrightarrow> palloc_core s \<Longrightarrow> palloc_core (s\<lparr>next_search_frame := n\<rparr>)"
  by (simp_all add: palloc_core_def free_set_def)

lemma reset_core: "palloc_core palloc_reset" and reset_used: "frame_is_used palloc_reset f"
proof -
  have "bit (0xFFFFFFFF :: u32) n" if "n < 32" for n
  proof -
    have "(0xFFFFFFFF :: u32) = mask 32" by (simp add: mask_eq_decr_exp)
    then show ?thesis using that by (simp only: bit_mask_iff) simp
  qed
  then have u: "frame_is_used palloc_reset f" for f
    unfolding frame_is_used_def bitmap_test_def frame_bit_mask_def mask_test
    by (simp add: palloc_reset_def)
  show "frame_is_used palloc_reset f" by (rule u)
  show "palloc_core palloc_reset"
    using u by (simp add: palloc_core_def free_set_def) (simp add: palloc_reset_def)
qed

lemma fold_free_map:
  assumes "palloc_core s"
  shows "palloc_core (fold free_map_entry es s) \<and>
    (\<forall>g. frame_is_used (fold free_map_entry es s) g = (frame_is_used s g \<and>
       \<not> (\<exists>m \<in> set es. mm_type m = 1 \<and> unat (align_up_to_page (mm_addr m)) \<le> g \<and>
            g < unat (align_down_to_page (clip_range_end (mm_addr m + mm_len m))))))"
  using assms
proof (induction es arbitrary: s)
  case Nil
  then show ?case by simp
next
  case (Cons m es)
  have "palloc_core (free_map_entry m s)"
      "\<And>g. frame_is_used (free_map_entry m s) g = (frame_is_used s g \<and>
        \<not> (mm_type m = 1 \<and> unat (align_up_to_page (mm_addr m)) \<le> g \<and>
          g < unat (align_down_to_page (clip_range_end (mm_addr m + mm_len m)))))"
    using free_range_spec [OF Cons.prems, of "mm_addr m" "mm_addr m + mm_len m"] Cons.prems
    by (auto simp: free_map_entry_def)
  then show ?case using Cons.IH [of "free_map_entry m s"] by auto
qed

lemma fold_reserve_ranges:
  assumes "palloc_core s"
  shows "palloc_core (fold (\<lambda>(a, e). reserve_range a e) rs s) \<and>
    (\<forall>g < MAX_PAGE_FRAMES. frame_is_used (fold (\<lambda>(a, e). reserve_range a e) rs s) g =
      (frame_is_used s g \<or> (\<exists>(a, e) \<in> set rs. unat (align_down_to_page a) \<le> g \<and>
         g < unat (align_up_to_page (clip_range_end e)))))"
  using assms
proof (induction rs arbitrary: s)
  case Nil
  then show ?case by simp
next
  case (Cons r rs)
  obtain a e where r: "r = (a, e)" by (cases r)
  note spec = reserve_range_spec [OF Cons.prems, of a e]
  then show ?case using Cons.IH [of "reserve_range a e s"] by (auto simp: r)
qed

lemma init_available_core: "palloc_core (init_available mb)"
  using fold_free_map [OF reset_core] free_range_spec [OF reset_core] reset_core
  by (simp add: init_available_def)

lemma kernel_end_frame: "unat (align_up_to_page (ucast (k :: u32))) \<le> MAX_PAGE_FRAMES"
proof -
  have "unat (ucast k :: u64) < 17592186040321"
    by (simp add: unat_ucast_u64 less_trans [OF unat_u32_lt])
  then have "unat (align_up_to_page (ucast k)) = (unat k + 4095) div 4096"
    by (simp add: align_up_unat unat_ucast_u64)
  then show ?thesis using unat_u32_lt [of k] unfolding MAX_PAGE_FRAMES_def by linarith
qed

lemma palloc_init_spec:
  "palloc_core (palloc_init mb ks ke)"
  "g < MAX_PAGE_FRAMES \<Longrightarrow> frame_is_used (palloc_init mb ks ke) g =
     (frame_is_used (init_available mb) g \<or>
      (\<exists>(a, e) \<in> set (boot_ranges mb ks ke). unat (align_down_to_page a) \<le> g \<and>
         g < unat (align_up_to_page (clip_range_end e))))"
proof -
  let ?s = "(init_available mb)\<lparr>total_usable_frames := free_frames (init_available mb)\<rparr>"
  have "palloc_core ?s" by (simp add: init_available_core)
  note spec = fold_reserve_ranges [OF this, of "boot_ranges mb ks ke"]
  show "palloc_core (palloc_init mb ks ke)"
    unfolding palloc_init_eq using spec kernel_end_frame by simp
  show "frame_is_used (palloc_init mb ks ke) g =
     (frame_is_used (init_available mb) g \<or>
      (\<exists>(a, e) \<in> set (boot_ranges mb ks ke). unat (align_down_to_page a) \<le> g \<and>
         g < unat (align_up_to_page (clip_range_end e))))" if "g < MAX_PAGE_FRAMES"
    unfolding palloc_init_eq using spec that by simp
qed

section \<open>Properties of the allocator\<close>

text \<open>
  C1. Whatever the boot loader passes, initialisation establishes the allocator's invariant: the
  free count is exact, no frame at or above the managed limit is free, reference counts agree with
  the bitmap, and frame 0 is reserved.
\<close>

theorem palloc_init_inv: "palloc_inv (palloc_init mb kernel_start kernel_end)"
proof -
  have "(0, 0x100000) \<in> set (boot_ranges mb kernel_start kernel_end)" by (simp add: boot_ranges_def)
  moreover have "unat (align_down_to_page 0) = 0" by (simp add: align_down_unat)
  moreover have "unat (align_up_to_page (clip_range_end 0x100000)) = 256"
    by (simp add: last_frame_bounds)
  ultimately have "frame_is_used (palloc_init mb kernel_start kernel_end) 0"
    using palloc_init_spec(2) [of 0 mb kernel_start kernel_end]
    by (force simp: MAX_PAGE_FRAMES_def)
  then show ?thesis using palloc_init_spec(1) by (simp add: palloc_inv_def)
qed

text \<open>
  C2. After initialisation from a memory map whose available entries do not wrap around, a frame is
  free exactly when it lies wholly inside an available entry and touches none of the ranges the
  kernel reserves: low memory, the kernel image, and the boot loader's structures and modules.
\<close>

theorem palloc_init_free_frames:
  assumes "mb_flags mb AND MULTIBOOT_INFO_MMAP \<noteq> 0"
    and "\<forall>m \<in> set (mb_mmap mb). mm_type m = 1 \<longrightarrow>
      unat (mm_addr m) < 17592186040321 \<and> unat (mm_addr m) + unat (mm_len m) < 2 ^ 64"
    and "unat (mb_framebuffer_addr mb) < 17592186040321"
    and "f < MAX_PAGE_FRAMES"
  shows "f \<in> free_set (palloc_init mb kernel_start kernel_end) \<longleftrightarrow>
    (\<exists>m \<in> set (mb_mmap mb). mm_type m = 1 \<and>
       frame_inside (unat (mm_addr m)) (unat (mm_addr m) + unat (mm_len m)) f) \<and>
    (\<forall>(a, e) \<in> set (boot_ranges mb kernel_start kernel_end). \<not> frame_touches (unat a) (unat e) f)"
proof -
  have small: "unat (ucast (w :: u32) :: u64) < 17592186040321" for w
    by (simp add: unat_ucast_u64 less_trans [OF unat_u32_lt])
  have "unat a < 17592186040321" if "(a, e) \<in> set (boot_ranges mb kernel_start kernel_end)" for a e
    using that assms(3) small by (auto simp: boot_ranges_def split: if_splits)
  then have res: "(\<exists>(a, e) \<in> set (boot_ranges mb kernel_start kernel_end).
        unat (align_down_to_page a) \<le> f \<and> f < unat (align_up_to_page (clip_range_end e))) \<longleftrightarrow>
      (\<exists>(a, e) \<in> set (boot_ranges mb kernel_start kernel_end). frame_touches (unat a) (unat e) f)"
    using touches_iff [OF _ assms(4)] by fast
  have "(\<exists>m \<in> set (mb_mmap mb). mm_type m = 1 \<and> unat (align_up_to_page (mm_addr m)) \<le> f \<and>
        f < unat (align_down_to_page (clip_range_end (mm_addr m + mm_len m)))) \<longleftrightarrow>
      (\<exists>m \<in> set (mb_mmap mb). mm_type m = 1 \<and>
        frame_inside (unat (mm_addr m)) (unat (mm_addr m + mm_len m)) f)"
    using inside_iff [OF _ assms(4)] assms(2) by (intro bex_cong refl) blast
  then have av: "frame_is_used (init_available mb) f \<longleftrightarrow>
      \<not> (\<exists>m \<in> set (mb_mmap mb). mm_type m = 1 \<and>
        frame_inside (unat (mm_addr m)) (unat (mm_addr m + mm_len m)) f)"
    using fold_free_map [OF reset_core, of "mb_mmap mb"] assms(1)
    by (simp add: init_available_def reset_used) blast
  have "unat (mm_addr m + mm_len m) = unat (mm_addr m) + unat (mm_len m)"
    if "m \<in> set (mb_mmap mb)" "mm_type m = 1" for m
    using assms(2) that by (simp add: unat_word_ariths)
  then show ?thesis
    using palloc_init_spec(2) [OF assms(4), of mb kernel_start kernel_end] res av assms(4)
    by (auto simp: free_set_def)
qed

definition sample_boot :: multiboot_info where
  "sample_boot = \<lparr>mb_address = 0x9000, mb_flags = 64, mb_mem_upper = 0, mb_cmdline = 0,
     mb_mods_count = 0, mb_mods_addr = 0, mb_mmap_length = 24, mb_mmap_addr = 0x9100,
     mb_framebuffer_addr = 0, mb_framebuffer_pitch = 0, mb_framebuffer_height = 0,
     mb_mmap = [\<lparr>mm_addr = 0x100000, mm_len = 0x8000, mm_type = 1\<rparr>], mb_modules = []\<rparr>"

theorem palloc_init_free_frames_witness:
  "257 \<in> free_set (palloc_init sample_boot 0x100000 0x101000) \<and>
   256 \<notin> free_set (palloc_init sample_boot 0x100000 0x101000)"
proof -
  have a: "mb_flags sample_boot AND MULTIBOOT_INFO_MMAP \<noteq> 0"
    "\<forall>m \<in> set (mb_mmap sample_boot). mm_type m = 1 \<longrightarrow>
      unat (mm_addr m) < 17592186040321 \<and> unat (mm_addr m) + unat (mm_len m) < 2 ^ 64"
    "unat (mb_framebuffer_addr sample_boot) < 17592186040321"
    by (simp_all add: sample_boot_def multiboot_flags)
  show ?thesis
    using palloc_init_free_frames [OF a, of 257 "0x100000" "0x101000"]
      palloc_init_free_frames [OF a, of 256 "0x100000" "0x101000"]
    by (simp add: MAX_PAGE_FRAMES_def sample_boot_def boot_ranges_def multiboot_flags
        frame_inside_def frame_touches_def unat_ucast_u64)
qed

lemma sample_free_frame: "257 \<in> free_set (palloc_init sample_boot 0x100000 0x101000)"
proof -
  have "\<not> frame_is_used (init_available sample_boot) 257"
    using fold_free_map [OF reset_core, of "mb_mmap sample_boot"]
    by (simp add: init_available_def sample_boot_def multiboot_flags align_up_unat last_frame_bounds)
  then show ?thesis
    using palloc_init_spec(2) [of 257 sample_boot "0x100000" "0x101000"]
    by (simp add: free_set_def MAX_PAGE_FRAMES_def sample_boot_def boot_ranges_def multiboot_flags
        align_down_unat last_frame_bounds unat_ucast_u64)
qed

text \<open>
  C3. Allocating a page either finds nothing, because no frame is free, and changes nothing, or
  returns the nonzero page-aligned address of a frame that was free; that frame then has one
  reference, it is no longer free, and every other frame is as before.
\<close>

theorem palloc_alloc_page_correct:
  assumes "palloc_inv s" and "palloc_alloc_page s = (p, s')"
  shows "palloc_inv s' \<and>
    (if free_set s = {} then p = 0 \<and> s' = s
     else \<exists>f \<in> free_set s. p = frame_address f \<and> p \<noteq> 0 \<and> page_refs s p = 0 \<and>
       free_set s' = free_set s - {f} \<and> page_refs s' = (page_refs s)(p := 1))"
proof (cases "p = 0")
  case True
  then show ?thesis using palloc_alloc_page_fail [OF assms(1)] assms by simp
next
  case False
  have core: "palloc_core s" using assms(1) by (simp add: palloc_inv_def)
  obtain f where f: "f \<in> free_set s" "take_frame f s = (p, s')"
    using alloc_page_cases [OF core] assms(2) False by auto
  have "free_set s' = free_set s - {f}" using take_frame_core(2) [OF core f(1)] f(2) by simp
  then show ?thesis
    using pages.alloc_ok [OF assms False] take_frame_eqs(1) [OF f(2)] f(1) False by auto
qed

theorem palloc_alloc_page_correct_witness:
  "fst (palloc_alloc_page (palloc_init sample_boot 0x100000 0x101000)) \<noteq> 0 \<and>
   palloc_inv (snd (palloc_alloc_page (palloc_init sample_boot 0x100000 0x101000)))"
  using palloc_alloc_page_correct [OF palloc_init_inv surjective_pairing,
      of sample_boot "0x100000" "0x101000"] sample_free_frame
  by (auto split: if_splits)

text \<open>
  C4. A successful allocation of several pages returns the address of the first of that many
  consecutive frames, all free before; they become used with one reference each, no other frame
  changes its free status, and the invariant is kept. A failed one (address 0) changes nothing.
\<close>

theorem palloc_alloc_pages_correct:
  assumes "palloc_inv s" and "n \<noteq> 0" and "palloc_alloc_pages n s = (p, s')"
  shows "palloc_inv s' \<and>
    (if p = 0 then s' = s
     else \<exists>r. p = frame_address r \<and> {r..<r + unat n} \<subseteq> free_set s \<and>
       free_set s' = free_set s - {r..<r + unat n} \<and>
       (\<forall>i < unat n. page_refs s' (frame_address (r + i)) = 1))"
proof (cases "p = 0")
  case False
  then show ?thesis using alloc_pages_run [OF assms False] by simp
next
  case True
  have core: "palloc_core s" using assms(1) by (simp add: palloc_inv_def)
  have "s' = s"
  proof (cases "n = 1")
    case one: True
    then show ?thesis
      using palloc_alloc_page_fail(1) [OF assms(1)] assms(3) True by (simp add: palloc_alloc_pages_def)
  next
    case False
    have "\<not> (\<exists>r. {r..<r + unat n} \<subseteq> free_set s \<and> take_run r n s = (p, s'))"
    proof
      assume "\<exists>r. {r..<r + unat n} \<subseteq> free_set s \<and> take_run r n s = (p, s')"
      then obtain r where r: "{r..<r + unat n} \<subseteq> free_set s" "take_run r n s = (p, s')" by auto
      have "r \<in> free_set s" using r(1) assms(2) by (auto simp: unat_gt_0)
      moreover have "frame_address r = 0" using take_run_core(2) [OF core r(1) assms(2) r(2)] True by simp
      ultimately have "0 \<in> free_set s" using frame_address_simps(3) free_set_bound by metis
      then show False using assms(1) by (simp add: free_set_def palloc_inv_def)
    qed
    then show ?thesis using alloc_pages_cases [OF core assms(2) False assms(3)] by blast
  qed
  then show ?thesis using True assms(1) by simp
qed

theorem palloc_alloc_pages_correct_witness:
  "palloc_inv (snd (palloc_alloc_pages 2 (palloc_init sample_boot 0x100000 0x101000)))"
  using palloc_alloc_pages_correct [OF palloc_init_inv _ surjective_pairing,
      of 2 sample_boot "0x100000" "0x101000"] by simp

text \<open>
  C5. Releasing a page drops exactly one reference of that page and of no other; the frame becomes
  free precisely when the last reference goes, and a page without references is left alone.
\<close>

theorem palloc_free_page_correct:
  assumes "palloc_inv s" and "p \<noteq> 0"
  shows "palloc_inv (palloc_free_page p s) \<and>
    page_refs (palloc_free_page p s) = (page_refs s)(p := page_refs s p - 1) \<and>
    free_set (palloc_free_page p s) =
      (if page_refs s p = 1 then insert (unat (p div PAGE_SIZE)) (free_set s) else free_set s)"
proof -
  have core: "palloc_core s" using assms(1) by (simp add: palloc_inv_def)
  have "free_set (palloc_free_page p s) =
      (if page_refs s p = 1 then insert (unat (p div PAGE_SIZE)) (free_set s) else free_set s)"
  proof (cases "page_refs s p = 0")
    case True
    then have "palloc_free_page p s = s"
      using page_refs_0D [OF core True] by (auto simp: palloc_free_page_def Let_def)
    then show ?thesis using True by simp
  next
    case False
    note d = page_refs_posD [OF core, of p]
    have live: "p mod PAGE_SIZE = 0" "frame_is_used s (unat (p div PAGE_SIZE))"
        "frame_refcounts s (unat (p div PAGE_SIZE)) \<noteq> 0" "\<not> first_unusable_frame s \<le> p div PAGE_SIZE"
        "unat (p div PAGE_SIZE) < MAX_PAGE_FRAMES"
      using d False by (simp_all add: not_le)
    have one: "frame_refcounts s (unat (p div PAGE_SIZE)) = 1 \<longleftrightarrow> page_refs s p = 1"
      using d(4) False by (simp add: word_unat_eq_iff)
    show ?thesis using live one by (auto simp: palloc_free_page_def Let_def free_set_def)
  qed
  then show ?thesis using pages.release_ok [OF assms] by simp
qed

theorem palloc_free_page_correct_witness:
  "palloc_inv (palloc_free_page 0x101000 (palloc_init sample_boot 0x100000 0x101000))"
  using palloc_free_page_correct [OF palloc_init_inv, of "0x101000" sample_boot "0x100000" "0x101000"]
  by simp

lemma fold_first_unusable:
  "first_unusable_frame (fold free_frame fs s) = first_unusable_frame s"
  "first_unusable_frame (fold reserve_frame fs s) = first_unusable_frame s"
  by (induction fs arbitrary: s) (auto simp: free_frame_def reserve_frame_def)

lemma reserve_first_unusable:
  "first_unusable_frame (fold (\<lambda>(a, e). reserve_range a e) rs s) = first_unusable_frame s"
  by (induction rs arbitrary: s) (auto simp: reserve_range_def Let_def fold_first_unusable)

lemma free_map_first_unusable:
  "unat (first_unusable_frame s) \<le> unat (first_unusable_frame (fold free_map_entry es s)) \<and>
   (\<forall>m \<in> set es. mm_type m = 1 \<longrightarrow>
      unat (align_down_to_page (clip_range_end (mm_addr m + mm_len m)))
        \<le> unat (first_unusable_frame (fold free_map_entry es s)))"
proof (induction es arbitrary: s)
  case Nil
  then show ?case by simp
next
  case (Cons m es)
  have "unat (first_unusable_frame s) \<le> unat (first_unusable_frame (free_map_entry m s)) \<and>
    (mm_type m = 1 \<longrightarrow> unat (align_down_to_page (clip_range_end (mm_addr m + mm_len m)))
        \<le> unat (first_unusable_frame (free_map_entry m s)))"
    by (auto simp: free_map_entry_def free_range_def Let_def fold_first_unusable word_less_nat_alt)
  then show ?case using Cons.IH [of "free_map_entry m s"] by (auto intro: order_trans)
qed

text \<open>
  C6. On a machine with usable memory up to or beyond 4 GiB the managed size, a 32-bit product,
  wraps to 0 bytes, the value \<open>paging_init\<close> reads as a machine
  without memory.
\<close>

theorem palloc_managed_bytes_wraps:
  assumes "mb_flags mb AND MULTIBOOT_INFO_MMAP \<noteq> 0" and "m \<in> set (mb_mmap mb)" and "mm_type m = 1"
    and "2 ^ 32 \<le> unat (mm_addr m) + unat (mm_len m)"
    and "unat (mm_addr m) + unat (mm_len m) < 2 ^ 64"
  shows "palloc_managed_bytes (palloc_init mb kernel_start kernel_end) = 0"
proof -
  let ?s = "palloc_init mb kernel_start kernel_end"
  have "unat (mm_addr m + mm_len m) = unat (mm_addr m) + unat (mm_len m)"
    using assms(5) by (simp add: unat_word_ariths)
  then have "unat (align_down_to_page (clip_range_end (mm_addr m + mm_len m))) = 1048576"
    using assms(4) by (simp add: last_frame_bounds)
  then have "1048576 \<le> unat (first_unusable_frame ?s)"
    using free_map_first_unusable [of palloc_reset "mb_mmap mb"] assms(1-3)
    by (auto simp: palloc_init_eq reserve_first_unusable init_available_def)
  moreover have "unat (first_unusable_frame ?s) \<le> 1048576"
    using palloc_init_spec(1) [of mb kernel_start kernel_end]
    by (simp add: palloc_core_def MAX_PAGE_FRAMES_def)
  ultimately have "unat (first_unusable_frame ?s) = 1048576" by simp
  then have "first_unusable_frame ?s = 1048576" by (simp add: word_unat_eq_iff)
  then show ?thesis by (simp add: palloc_managed_bytes_def)
qed

theorem palloc_managed_bytes_wraps_witness:
  "palloc_managed_bytes (palloc_init (sample_boot
     \<lparr>mb_mmap := [\<lparr>mm_addr = 0x100000, mm_len = 0x100000000, mm_type = 1\<rparr>]\<rparr>) 0x100000 0x101000) = 0"
  by (rule palloc_managed_bytes_wraps
      [where m = "\<lparr>mm_addr = 0x100000, mm_len = 0x100000000, mm_type = 1\<rparr>"])
    (simp_all add: sample_boot_def multiboot_flags)

definition gap_state :: palloc_state where
  "gap_state = (fold mark_frame_free [258, 259, 263] palloc_reset)
     \<lparr>frame_refcounts := (\<lambda>_. 1)(258 := 0, 259 := 0, 263 := 0), first_unusable_frame := 264,
      free_frames := 3, next_search_frame := 259\<rparr>"

lemma gap_state_used: "frame_is_used gap_state f \<longleftrightarrow> f \<notin> {258, 259, 263}"
  by (auto simp: gap_state_def reset_used)

lemma gap_state_sel:
  "first_unusable_frame gap_state = 264" "next_search_frame gap_state = 259"
  "free_frames gap_state = 3" "frame_refcounts gap_state = (\<lambda>_. 1)(258 := 0, 259 := 0, 263 := 0)"
  by (simp_all add: gap_state_def)

lemma gap_state_inv: "palloc_inv gap_state"
proof -
  have "free_set gap_state = {258, 259, 263}"
    by (auto simp: free_set_def gap_state_used MAX_PAGE_FRAMES_def)
  then show ?thesis
    by (simp add: palloc_inv_def palloc_core_def gap_state_used gap_state_sel MAX_PAGE_FRAMES_def)
qed

text \<open>
  The search for consecutive pages is not complete: it looks from the search position up and
  then strictly below it, never across it. Here the allocator's invariant holds, frames 258 and 259
  are free, the search position is 259, and a request for two pages fails.
\<close>

theorem palloc_alloc_pages_incomplete:
  "palloc_inv gap_state \<and> {258, 259} \<subseteq> free_set gap_state \<and> palloc_alloc_pages 2 gap_state = (0, gap_state)"
proof -
  have "find_run gap_state a b 2 = None" if "a > 258 \<or> b < 258" for a b
  proof (rule ccontr)
    assume "find_run gap_state a b 2 \<noteq> None"
    then obtain r where r: "find_run gap_state a b 2 = Some r" by auto
    note run = find_run_Some [OF this]
    have "r \<in> {258, 259, 263}" "r + 1 \<in> {258, 259, 263}"
      using run(3) [of r] run(3) [of "r + 1"] by (simp_all add: gap_state_used)
    then have "r = 258" by auto
    then show False using run(1,2) that by auto
  qed
  then have "find_run gap_state 259 262 2 = None" "find_run gap_state 0 257 2 = None" by simp_all
  then have "palloc_alloc_pages 2 gap_state = (0, gap_state)"
    by (simp add: palloc_alloc_pages_def gap_state_sel)
  then show ?thesis
    using gap_state_inv by (simp add: free_set_def gap_state_used MAX_PAGE_FRAMES_def)
qed

end
