(* ===== verification/Paging.thy ===== *)
theory Paging
  imports Palloc
begin

text \<open>
  The two-level page tables, \<^verbatim>\<open>src/kernel/paging.c\<close>. Physical memory is the function
  \<open>pm\<close> from the address of an aligned 32-bit word to its value; the kernel reaches it through
  its direct map, so an access to \<open>paging_phys_to_virt(p)\<close> is an access to \<open>p\<close>. The control
  register cr3 is a field of the state; TLB invalidation and console messages are not modelled.
\<close>

section \<open>State and constants\<close>

record mem_state =
  pm :: "u32 \<Rightarrow> u32"
  pal :: palloc_state
  cr3 :: u32
  kernel_page_directory_phys :: u32
  direct_map_limit :: u32

abbreviation PAGE_PRESENT :: u32 where "PAGE_PRESENT \<equiv> 0x001"
abbreviation PAGE_WRITABLE :: u32 where "PAGE_WRITABLE \<equiv> 0x002"
abbreviation PAGE_USER :: u32 where "PAGE_USER \<equiv> 0x004"
abbreviation PAGE_COPY_ON_WRITE :: u32 where "PAGE_COPY_ON_WRITE \<equiv> 0x200"
abbreviation PAGE_FLAGS :: u32 where "PAGE_FLAGS \<equiv> 0x003"
abbreviation PAGE_FRAME_MASK :: u32 where "PAGE_FRAME_MASK \<equiv> 0xFFFFF000"
abbreviation PAGE_TABLE_SPAN :: u32 where "PAGE_TABLE_SPAN \<equiv> 0x400000"
abbreviation RECURSIVE_DIRECTORY_INDEX :: nat where "RECURSIVE_DIRECTORY_INDEX \<equiv> 1023"
abbreviation DIRECT_MAP_DIRECTORY_INDEX :: nat where "DIRECT_MAP_DIRECTORY_INDEX \<equiv> 768"
abbreviation KERNEL_DIRECT_MAP_BASE :: u32 where "KERNEL_DIRECT_MAP_BASE \<equiv> 0xC0000000"
abbreviation USER_VIRT_BASE :: u32 where "USER_VIRT_BASE \<equiv> 0x00400000"
abbreviation USER_VIRT_LIMIT :: u32 where "USER_VIRT_LIMIT \<equiv> 0xC0000000"

definition load :: "mem_state \<Rightarrow> u32 \<Rightarrow> u32" where
  "load s a = pm s a"

definition store :: "u32 \<Rightarrow> u32 \<Rightarrow> mem_state \<Rightarrow> mem_state" where
  "store a v s = s\<lparr>pm := (pm s)(a := v)\<rparr>"

definition align_up :: "u32 \<Rightarrow> u32 \<Rightarrow> u32" where
  "align_up value alignment = (value + alignment - 1) AND NOT (alignment - 1)"

definition page_directory_index :: "u32 \<Rightarrow> nat" where
  "page_directory_index virtual_address = unat (drop_bit 22 virtual_address)"

definition page_table_index :: "u32 \<Rightarrow> nat" where
  "page_table_index virtual_address = unat (drop_bit 12 virtual_address AND 0x3FF)"

text \<open>The words of a directory or table: \<open>entry_addr t i\<close> is the address of \<open>t[i]\<close>.\<close>

definition entry_addr :: "u32 \<Rightarrow> nat \<Rightarrow> u32" where
  "entry_addr table i = table + of_nat i * 4"

definition table_of :: "u32 \<Rightarrow> u32" where
  "table_of entry = entry AND PAGE_FRAME_MASK"

definition zero_page :: "u32 \<Rightarrow> mem_state \<Rightarrow> mem_state" where
  "zero_page physical_address s = s\<lparr>pm := (\<lambda>a. if a - physical_address < 4096 then 0 else pm s a)\<rparr>"

definition copy_page_bytes :: "u32 \<Rightarrow> u32 \<Rightarrow> mem_state \<Rightarrow> mem_state" where
  "copy_page_bytes dst src s =
     s\<lparr>pm := (\<lambda>a. if a - dst < 4096 then pm s (a - dst + src) else pm s a)\<rparr>"

definition paging_entry_flags :: "u32 \<Rightarrow> u32" where
  "paging_entry_flags flags = flags OR PAGE_PRESENT"

definition paging_phys_to_virt :: "u32 \<Rightarrow> u32" where
  "paging_phys_to_virt physical_address = KERNEL_DIRECT_MAP_BASE + physical_address"

definition paging_virt_to_phys :: "u32 \<Rightarrow> u32" where
  "paging_virt_to_phys virtual_address = virtual_address - KERNEL_DIRECT_MAP_BASE"

text \<open>Allocation through the kernel state.\<close>

definition alloc_page :: "mem_state \<Rightarrow> u32 \<times> mem_state" where
  "alloc_page s = (let (p, a) = palloc_alloc_page (pal s) in (p, s\<lparr>pal := a\<rparr>))"

definition release_page :: "u32 \<Rightarrow> mem_state \<Rightarrow> mem_state" where
  "release_page p s = s\<lparr>pal := palloc_free_page p (pal s)\<rparr>"

text \<open>The index sequence of a \<open>for\<close> loop over directory or table entries.\<close>

definition slots :: "nat \<Rightarrow> nat \<Rightarrow> nat list" where
  "slots from_index to_index = [from_index..<to_index]"

section \<open>Initialisation\<close>

fun paging_prepare_shared_tables :: "u32 \<Rightarrow> nat list \<Rightarrow> mem_state \<Rightarrow> unit result \<times> mem_state" where
  "paging_prepare_shared_tables dir [] s = (Inr (), s)"
| "paging_prepare_shared_tables dir (index # rest) s =
     (if load s (entry_addr dir index) AND PAGE_PRESENT \<noteq> 0
      then paging_prepare_shared_tables dir rest s
      else
        let (table_phys, s1) = alloc_page s in
        if table_phys = 0 then (Inl EFAIL, s1)
        else paging_prepare_shared_tables dir rest
               (store (entry_addr dir index) (table_phys OR PAGE_FLAGS) (zero_page table_phys s1)))"

fun fill_identity_table :: "u32 \<Rightarrow> u32 \<Rightarrow> nat list \<Rightarrow> mem_state \<Rightarrow> mem_state" where
  "fill_identity_table table directory_offset [] s = s"
| "fill_identity_table table directory_offset (i # rest) s =
     (let physical_address = directory_offset + of_nat i * PAGE_SIZE in
      if physical_address \<ge> direct_map_limit s then s
      else fill_identity_table table directory_offset rest
             (store (entry_addr table i) (physical_address OR PAGE_FLAGS) s))"

fun map_identity_tables :: "u32 \<Rightarrow> nat list \<Rightarrow> mem_state \<Rightarrow> unit result \<times> mem_state" where
  "map_identity_tables dir [] s = (Inr (), s)"
| "map_identity_tables dir (table_index # rest) s =
     (let (page_table_phys, s1) = alloc_page s in
      if page_table_phys = 0 then (Inl EFAIL, s1)
      else
        let s2 = fill_identity_table page_table_phys (of_nat table_index * PAGE_TABLE_SPAN) (slots 0 1024)
                   (zero_page page_table_phys s1);
            s3 = store (entry_addr dir table_index) (page_table_phys OR PAGE_FLAGS) s2;
            s4 = store (entry_addr dir (DIRECT_MAP_DIRECTORY_INDEX + table_index))
                   (page_table_phys OR PAGE_FLAGS) s3
        in map_identity_tables dir rest s4)"

text \<open>
  \<open>paging_init\<close> returns at the first failure and leaves paging off; the model reports which. The
  directory index ranges are those of the heap, the MMIO window and the kernel stacks.
\<close>

definition paging_init :: "mem_state \<Rightarrow> unit result \<times> mem_state" where
  "paging_init s0 =
     (let limit0 = align_up (palloc_managed_bytes (pal s0)) PAGE_SIZE;
          s1 = s0\<lparr>direct_map_limit := limit0\<rparr> in
      if limit0 = 0 then (Inl EFAIL, s1)
      else
        let max_bytes = of_nat (992 - DIRECT_MAP_DIRECTORY_INDEX) * PAGE_TABLE_SPAN;
            limit = (if limit0 > max_bytes then max_bytes else limit0);
            s2 = s1\<lparr>direct_map_limit := limit\<rparr>;
            page_table_count = align_up limit PAGE_TABLE_SPAN div PAGE_TABLE_SPAN;
            (dir, s3) = alloc_page s2;
            s4 = s3\<lparr>kernel_page_directory_phys := dir\<rparr> in
        if dir = 0 then (Inl EFAIL, s4)
        else
          case map_identity_tables dir (slots 0 (unat page_table_count)) (zero_page dir s4) of
            (Inl e, s5) \<Rightarrow> (Inl e, s5)
          | (Inr _, s5) \<Rightarrow>
             (case paging_prepare_shared_tables dir (slots 992 1008) s5 of
                (Inl e, s6) \<Rightarrow> (Inl e, s6)
              | (Inr _, s6) \<Rightarrow>
                 (case paging_prepare_shared_tables dir (slots 988 990) s6 of
                    (Inl e, s7) \<Rightarrow> (Inl e, s7)
                  | (Inr _, s7) \<Rightarrow>
                     (case paging_prepare_shared_tables dir (slots 1008 1023) s7 of
                        (Inl e, s8) \<Rightarrow> (Inl e, s8)
                      | (Inr _, s8) \<Rightarrow>
                         (Inr (), (store (entry_addr dir RECURSIVE_DIRECTORY_INDEX)
                                     (dir OR PAGE_FLAGS) s8)\<lparr>cr3 := dir\<rparr>)))))"

section \<open>Address spaces\<close>

definition paging_page_directory_phys :: "mem_state \<Rightarrow> u32" where
  "paging_page_directory_phys s = kernel_page_directory_phys s"

definition paging_current_directory_phys :: "mem_state \<Rightarrow> u32" where
  "paging_current_directory_phys s = cr3 s"

definition copy_entry :: "u32 \<Rightarrow> u32 \<Rightarrow> nat \<Rightarrow> mem_state \<Rightarrow> mem_state" where
  "copy_entry new_directory kernel_directory index s =
     store (entry_addr new_directory index) (load s (entry_addr kernel_directory index)) s"

definition paging_create_address_space :: "mem_state \<Rightarrow> u32 \<times> mem_state" where
  "paging_create_address_space s =
     (let (directory_phys, s1) = alloc_page s in
      if directory_phys = 0 then (0, s1)
      else
        let s2 = zero_page directory_phys s1;
            kernel_directory = kernel_page_directory_phys s2;
            s3 = fold (copy_entry directory_phys kernel_directory) (slots 0 1) s2;
            s4 = fold (copy_entry directory_phys kernel_directory)
                   (slots DIRECT_MAP_DIRECTORY_INDEX RECURSIVE_DIRECTORY_INDEX) s3
        in (directory_phys,
            store (entry_addr directory_phys RECURSIVE_DIRECTORY_INDEX)
              (directory_phys OR PAGE_FLAGS) s4))"

definition destroy_entry :: "u32 \<Rightarrow> nat \<Rightarrow> mem_state \<Rightarrow> mem_state" where
  "destroy_entry directory index s =
     (let e = load s (entry_addr directory index);
          k = load s (entry_addr (kernel_page_directory_phys s) index) in
      if e AND PAGE_PRESENT = 0 then s
      else if k AND PAGE_FRAME_MASK = e AND PAGE_FRAME_MASK then s
      else store (entry_addr directory index) 0 (release_page (e AND PAGE_FRAME_MASK) s))"

definition paging_destroy_address_space :: "u32 \<Rightarrow> mem_state \<Rightarrow> mem_state" where
  "paging_destroy_address_space directory_phys s =
     (if directory_phys = 0 \<or> directory_phys = kernel_page_directory_phys s then s
      else release_page directory_phys
             (fold (destroy_entry directory_phys) (slots 0 RECURSIVE_DIRECTORY_INDEX) s))"

definition paging_switch_directory :: "u32 \<Rightarrow> mem_state \<Rightarrow> mem_state" where
  "paging_switch_directory directory_phys s =
     (if directory_phys = 0 then s
      else if cr3 s = directory_phys then s
      else s\<lparr>cr3 := directory_phys\<rparr>)"

section \<open>Mappings\<close>

definition paging_lookup_page_in :: "u32 \<Rightarrow> u32 \<Rightarrow> mem_state \<Rightarrow> (u32 \<times> u32) result" where
  "paging_lookup_page_in directory_phys virtual_address s =
     (if directory_phys = 0 then Inl EFAIL
      else
        let pde = load s (entry_addr directory_phys (page_directory_index virtual_address)) in
        if pde AND PAGE_PRESENT = 0 then Inl EFAIL
        else
          let page_entry = load s (entry_addr (table_of pde) (page_table_index virtual_address)) in
          if page_entry AND PAGE_PRESENT = 0 then Inl EFAIL
          else Inr (page_entry AND PAGE_FRAME_MASK, page_entry AND NOT PAGE_FRAME_MASK))"

definition paging_resolve_physical_in :: "u32 \<Rightarrow> u32 \<Rightarrow> mem_state \<Rightarrow> u32" where
  "paging_resolve_physical_in directory_phys virtual_address s =
     (if directory_phys = 0 then 0
      else
        let pde = load s (entry_addr directory_phys (page_directory_index virtual_address)) in
        if pde AND PAGE_PRESENT = 0 then 0
        else
          let page_entry = load s (entry_addr (table_of pde) (page_table_index virtual_address)) in
          if page_entry AND PAGE_PRESENT = 0 then 0 else page_entry AND PAGE_FRAME_MASK)"

text \<open>The first half of \<open>paging_map_page_in\<close>: make sure the directory has a usable page table.\<close>

definition ensure_table :: "u32 \<Rightarrow> nat \<Rightarrow> u32 \<Rightarrow> mem_state \<Rightarrow> unit result \<times> mem_state" where
  "ensure_table directory_phys directory_index flags s =
     (let slot = entry_addr directory_phys directory_index; pde = load s slot in
      if pde AND PAGE_PRESENT = 0 then
        let (page_table_phys, s1) = alloc_page s;
            directory_flags = (if flags AND PAGE_USER \<noteq> 0
                               then PAGE_PRESENT OR PAGE_WRITABLE OR PAGE_USER
                               else PAGE_PRESENT OR PAGE_WRITABLE) in
        if page_table_phys = 0 then (Inl EFAIL, s1)
        else (Inr (), store slot (page_table_phys OR directory_flags) (zero_page page_table_phys s1))
      else if flags AND PAGE_USER \<noteq> 0 \<and> pde AND PAGE_USER = 0 then
        if directory_index < 1 \<or> directory_index \<ge> DIRECT_MAP_DIRECTORY_INDEX then (Inl EFAIL, s)
        else (Inr (), store slot (pde OR PAGE_USER) s)
      else (Inr (), s))"

definition paging_map_page_in ::
  "u32 \<Rightarrow> u32 \<Rightarrow> u32 \<Rightarrow> u32 \<Rightarrow> mem_state \<Rightarrow> unit result \<times> mem_state" where
  "paging_map_page_in directory_phys virtual_address physical_address flags s =
     (if virtual_address AND (PAGE_SIZE - 1) \<noteq> 0 \<or> physical_address AND (PAGE_SIZE - 1) \<noteq> 0
      then (Inl EFAIL, s)
      else if directory_phys = 0 then (Inl EFAIL, s)
      else
        let directory_index = page_directory_index virtual_address;
            table_index = page_table_index virtual_address in
        case ensure_table directory_phys directory_index flags s of
          (Inl e, s1) \<Rightarrow> (Inl e, s1)
        | (Inr _, s1) \<Rightarrow>
            let page_table = table_of (load s1 (entry_addr directory_phys directory_index))
            in (Inr (), store (entry_addr page_table table_index)
                          (physical_address OR paging_entry_flags flags) s1))"

definition paging_map_page :: "u32 \<Rightarrow> u32 \<Rightarrow> u32 \<Rightarrow> mem_state \<Rightarrow> unit result \<times> mem_state" where
  "paging_map_page virtual_address physical_address flags s =
     paging_map_page_in (paging_current_directory_phys s) virtual_address physical_address flags s"

definition paging_unmap_page_in :: "u32 \<Rightarrow> u32 \<Rightarrow> mem_state \<Rightarrow> mem_state" where
  "paging_unmap_page_in directory_phys virtual_address s =
     (if directory_phys = 0 \<or> virtual_address AND (PAGE_SIZE - 1) \<noteq> 0 then s
      else
        let pde = load s (entry_addr directory_phys (page_directory_index virtual_address)) in
        if pde AND PAGE_PRESENT = 0 then s
        else store (entry_addr (table_of pde) (page_table_index virtual_address)) 0 s)"

definition paging_unmap_page :: "u32 \<Rightarrow> mem_state \<Rightarrow> mem_state" where
  "paging_unmap_page virtual_address s =
     paging_unmap_page_in (paging_current_directory_phys s) virtual_address s"

definition paging_unmap_pages_in :: "u32 \<Rightarrow> u32 \<Rightarrow> u32 \<Rightarrow> mem_state \<Rightarrow> mem_state" where
  "paging_unmap_pages_in directory_phys virtual_address page_count s =
     fold (\<lambda>index. paging_unmap_page_in directory_phys (virtual_address + of_nat index * PAGE_SIZE))
       [0..<unat page_count] s"

fun map_pages_loop ::
  "u32 \<Rightarrow> u32 \<Rightarrow> nat \<Rightarrow> u32 list \<Rightarrow> u32 \<Rightarrow> mem_state \<Rightarrow> unit result \<times> mem_state" where
  "map_pages_loop directory_phys virtual_address index [] flags s = (Inr (), s)"
| "map_pages_loop directory_phys virtual_address index (p # ps) flags s =
     (case paging_map_page_in directory_phys (virtual_address + of_nat index * PAGE_SIZE) p flags s of
        (Inl e, s1) \<Rightarrow>
          (Inl EFAIL, paging_unmap_pages_in directory_phys virtual_address (of_nat index) s1)
      | (Inr _, s1) \<Rightarrow> map_pages_loop directory_phys virtual_address (Suc index) ps flags s1)"

definition paging_map_pages_in ::
  "u32 \<Rightarrow> u32 \<Rightarrow> u32 list \<Rightarrow> u32 \<Rightarrow> mem_state \<Rightarrow> unit result \<times> mem_state" where
  "paging_map_pages_in directory_phys virtual_address physical_pages flags s =
     map_pages_loop directory_phys virtual_address 0 physical_pages flags s"

definition paging_range_present_in :: "u32 \<Rightarrow> u32 \<Rightarrow> u32 \<Rightarrow> u32 \<Rightarrow> mem_state \<Rightarrow> bool" where
  "paging_range_present_in directory_phys virtual_address page_count required_flags s =
     list_all (\<lambda>index.
         case paging_lookup_page_in directory_phys (virtual_address + of_nat index * PAGE_SIZE) s of
           Inl _ \<Rightarrow> False
         | Inr (_, page_flags) \<Rightarrow> page_flags AND required_flags = required_flags)
       [0..<unat page_count]"

text \<open>
  The page loop of the user-range checks. The callers have checked \<open>end_address \<le> USER_VIRT_LIMIT\<close>,
  so the address does not wrap and is kept as a natural number.
\<close>

function user_page_loop :: "(u32 \<Rightarrow> bool) \<Rightarrow> nat \<Rightarrow> nat \<Rightarrow> bool" where
  "user_page_loop page_ok current_page end_address =
     (if current_page < end_address
      then if page_ok (of_nat current_page)
           then user_page_loop page_ok (current_page + 4096) end_address
           else False
      else True)"
  by auto

termination by (relation "measure (\<lambda>(_, c, e). e - c)") auto

declare user_page_loop.simps [simp del]

definition user_range_check :: "(u32 \<Rightarrow> bool) \<Rightarrow> u32 \<Rightarrow> u32 \<Rightarrow> u32 \<Rightarrow> bool" where
  "user_range_check page_ok directory_phys virtual_address len =
     (if directory_phys = 0 then False
      else if len = 0 then True
      else
        let end_address = virtual_address + len in
        if end_address < virtual_address then False
        else if virtual_address < USER_VIRT_BASE \<or> end_address > USER_VIRT_LIMIT then False
        else user_page_loop page_ok (unat (virtual_address AND NOT (PAGE_SIZE - 1))) (unat end_address))"

definition paging_user_range_mapped_in :: "u32 \<Rightarrow> u32 \<Rightarrow> u32 \<Rightarrow> mem_state \<Rightarrow> bool" where
  "paging_user_range_mapped_in directory_phys virtual_address len s =
     user_range_check (\<lambda>current_page.
         let pde = load s (entry_addr directory_phys (page_directory_index current_page)) in
         if pde AND (PAGE_PRESENT OR PAGE_USER) \<noteq> PAGE_PRESENT OR PAGE_USER then False
         else load s (entry_addr (table_of pde) (page_table_index current_page))
                AND (PAGE_PRESENT OR PAGE_USER) = PAGE_PRESENT OR PAGE_USER)
       directory_phys virtual_address len"

definition paging_user_range_writable_in :: "u32 \<Rightarrow> u32 \<Rightarrow> u32 \<Rightarrow> mem_state \<Rightarrow> bool" where
  "paging_user_range_writable_in directory_phys virtual_address len s =
     user_range_check (\<lambda>current_page.
         case paging_lookup_page_in directory_phys current_page s of
           Inl _ \<Rightarrow> False
         | Inr (_, page_flags) \<Rightarrow>
             \<not> (page_flags AND PAGE_USER = 0 \<or>
                page_flags AND (PAGE_WRITABLE OR PAGE_COPY_ON_WRITE) = 0))
       directory_phys virtual_address len"

definition paging_resolve_copy_on_write_in :: "u32 \<Rightarrow> u32 \<Rightarrow> mem_state \<Rightarrow> unit result \<times> mem_state" where
  "paging_resolve_copy_on_write_in directory_phys virtual_address s =
     (let page_virtual = virtual_address AND NOT (PAGE_SIZE - 1);
          cow = PAGE_PRESENT OR PAGE_USER OR PAGE_COPY_ON_WRITE in
      case paging_lookup_page_in directory_phys page_virtual s of
        Inl e \<Rightarrow> (Inl EFAIL, s)
      | Inr (physical_page, page_flags) \<Rightarrow>
          if page_flags AND cow \<noteq> cow \<or> page_flags AND PAGE_WRITABLE \<noteq> 0 then (Inl EFAIL, s)
          else
            let writable_flags = (page_flags OR PAGE_WRITABLE) AND NOT PAGE_COPY_ON_WRITE;
                refcount = palloc_page_refcount (pal s) physical_page in
            if refcount = 0 then (Inl EFAIL, s)
            else if refcount = 1 then
              (case paging_map_page_in directory_phys page_virtual physical_page writable_flags s of
                 (Inl e, s1) \<Rightarrow> (Inl EFAIL, s1)
               | (Inr _, s1) \<Rightarrow> (Inr (), s1))
            else
              let (new_page, s1) = alloc_page s in
              if new_page = 0 then (Inl EFAIL, s1)
              else
                (case paging_map_page_in directory_phys page_virtual new_page writable_flags
                        (copy_page_bytes new_page physical_page s1) of
                   (Inl e, s2) \<Rightarrow> (Inl EFAIL, release_page new_page s2)
                 | (Inr _, s2) \<Rightarrow> (Inr (), release_page physical_page s2)))"

section \<open>Addresses of table entries\<close>

definition page_aligned :: "u32 \<Rightarrow> bool" where
  "page_aligned p \<longleftrightarrow> p AND 0xFFF = 0"

lemma low_bits: "unat (p AND 0xFFF) = unat (p :: u32) mod 4096"
proof -
  have "p AND 0xFFF = take_bit 12 p" by (simp add: take_bit_eq_mask mask_eq_exp_minus_1)
  then show ?thesis by (simp add: take_bit_eq_mod unat_mod)
qed

lemma page_aligned_unat: "page_aligned p \<longleftrightarrow> unat p mod 4096 = 0"
  unfolding page_aligned_def low_bits [symmetric] by (simp add: unat_eq_0)

lemma page_aligned_mod: "page_aligned p \<longleftrightarrow> p mod 4096 = 0"
  by (simp add: page_aligned_unat word_unat_eq_iff unat_mod)

lemma page_alignedE:
  assumes "page_aligned p"
  obtains k where "unat p = 4096 * k" "k < 1048576"
proof
  show "unat p = 4096 * (unat p div 4096)"
    using assms mult_div_mod_eq [of 4096 "unat p"] by (simp add: page_aligned_unat)
  show "unat p div 4096 < 1048576" using unat_u32_lt [of p] by (simp add: less_mult_imp_div_less)
qed

lemma all_ones_u32: "(0xFFFFFFFF :: u32) = - 1" by simp

lemma not_frame_mask: "NOT PAGE_FRAME_MASK = 0xFFF" by simp

lemma page_base_mask: "NOT (PAGE_SIZE - 1) = PAGE_FRAME_MASK" by simp

lemma split_mask: "(x :: u32) = (x AND PAGE_FRAME_MASK) OR (x AND 0xFFF)"
  by (simp add: all_ones_u32 flip: bit.conj_disj_distrib)

lemma table_of_aligned [simp]: "page_aligned (table_of e)"
  by (simp add: page_aligned_def table_of_def and.assoc)

lemma aligned_frame_mask: "page_aligned p \<Longrightarrow> p AND PAGE_FRAME_MASK = p"
  using split_mask [of p] by (simp add: page_aligned_def)

lemma frame_or_flags:
  assumes "page_aligned p" "f AND PAGE_FRAME_MASK = 0"
  shows "(p OR f) AND PAGE_FRAME_MASK = p" "(p OR f) AND 0xFFF = f"
proof -
  show "(p OR f) AND PAGE_FRAME_MASK = p"
    using assms by (simp add: bit.conj_disj_distrib2 aligned_frame_mask)
  have "f AND 0xFFF = f" using split_mask [of f] assms(2) by simp
  then show "(p OR f) AND 0xFFF = f"
    using assms(1) by (simp add: bit.conj_disj_distrib2 page_aligned_def)
qed

lemma unat_entry_addr:
  assumes "page_aligned t" "i < 1024"
  shows "unat (entry_addr t i) = unat t + 4 * i"
proof -
  obtain k where "unat t = 4096 * k" "k < 1048576" using page_alignedE [OF assms(1)] .
  then show ?thesis using assms(2) by (simp add: entry_addr_def unat_word_ariths unat_of_nat)
qed

lemma page_offset_eq:
  fixes a b i j :: nat
  assumes "4096 * a + 4 * i = 4096 * b + 4 * j" "i < 1024" "j < 1024"
  shows "a = b" "i = j"
proof -
  show "a = b" using assms by (cases a b rule: linorder_cases) linarith+
  with assms(1) show "i = j" by simp
qed

lemma entry_addr_eq:
  assumes "page_aligned t" "page_aligned u" "i < 1024" "j < 1024"
  shows "entry_addr t i = entry_addr u j \<longleftrightarrow> t = u \<and> i = j"
proof
  assume eq: "entry_addr t i = entry_addr u j"
  obtain a where a: "unat t = 4096 * a" using page_alignedE [OF assms(1)] .
  obtain b where b: "unat u = 4096 * b" using page_alignedE [OF assms(2)] .
  have "4096 * a + 4 * i = 4096 * b + 4 * j"
    using arg_cong [OF eq, of unat] assms by (simp add: unat_entry_addr a b)
  from page_offset_eq [OF this assms(3,4)] show "t = u \<and> i = j"
    by (simp add: word_unat_eq_iff a b)
qed simp

lemma in_page_unat:
  assumes "page_aligned p" "unat a = 4096 * k + r" "r < 4096"
  shows "a - p < 4096 \<longleftrightarrow> unat p = 4096 * k"
proof -
  obtain b where b: "unat p = 4096 * b" "b < 1048576" using page_alignedE [OF assms(1)] .
  have k: "k < 1048576" using unat_u32_lt [of a] assms(2) by simp
  have "unat (a - p) < 4096 \<longleftrightarrow> b = k"
  proof (cases b k rule: linorder_cases)
    case less
    then show ?thesis using assms(2,3) b k by (simp add: unat_sub_if')
  next
    case equal
    then show ?thesis using assms(2,3) b by (simp add: unat_sub_if')
  next
    case greater
    then have "\<not> 4096 * b \<le> 4096 * k + r" using assms(3) by linarith
    then show ?thesis using assms(2,3) b k greater by (simp add: unat_sub_if')
  qed
  then show ?thesis by (auto simp: word_less_nat_alt b)
qed

lemma entry_addr_in_page:
  assumes "page_aligned t" "page_aligned p" "i < 1024"
  shows "entry_addr t i - p < 4096 \<longleftrightarrow> t = p"
proof -
  obtain a where a: "unat t = 4096 * a" using page_alignedE [OF assms(1)] .
  have "entry_addr t i - p < 4096 \<longleftrightarrow> unat p = 4096 * a"
    using assms a by (intro in_page_unat [where r = "4 * i"]) (simp_all add: unat_entry_addr)
  then show ?thesis by (auto simp: word_unat_eq_iff a)
qed

lemma index_unat:
  "page_directory_index va = unat va div 4194304" "page_table_index va = unat va div 4096 mod 1024"
proof -
  show "page_directory_index va = unat va div 4194304"
    by (simp add: page_directory_index_def drop_bit_eq_div unat_div)
  have "drop_bit 12 va AND 0x3FF = take_bit 10 (drop_bit 12 va)"
    by (simp add: take_bit_eq_mask mask_eq_exp_minus_1)
  then show "page_table_index va = unat va div 4096 mod 1024"
    unfolding page_table_index_def by (simp add: take_bit_eq_mod drop_bit_eq_div unat_div unat_mod)
qed

lemma index_bounds [simp]: "page_directory_index va < 1024" "page_table_index va < 1024"
  using unat_u32_lt [of va] by (simp_all add: index_unat less_mult_imp_div_less)

lemma same_page:
  assumes "page_aligned va" "page_aligned wa"
  shows "page_directory_index va = page_directory_index wa \<and> page_table_index va = page_table_index wa
    \<longleftrightarrow> va = wa"
proof
  assume eq: "page_directory_index va = page_directory_index wa \<and> page_table_index va = page_table_index wa"
  obtain a where a: "unat va = 4096 * a" using page_alignedE [OF assms(1)] .
  obtain b where b: "unat wa = 4096 * b" using page_alignedE [OF assms(2)] .
  have big: "4096 * c div 4194304 = c div 1024" for c :: nat
    using div_mult2_eq [of "4096 * c" 4096 1024] by simp
  have "a = b" by (rule div_mod_eq_iff [of _ 1024]) (use eq in \<open>simp_all add: index_unat a b big\<close>)
  then show "va = wa" by (simp add: word_unat_eq_iff a b)
qed simp

section \<open>Ownership invariant of the address spaces\<close>

text \<open>
  \<open>pde\<close> and \<open>pte\<close> read a directory and a table entry; \<open>translate s d i j\<close> is the entry the hardware
  finds through slot \<open>i\<close> and table position \<open>j\<close>, or 0 where there is no table. The slots 1 to
  767 are the user part of an address space; slot 0 and the slots from 768 on share the kernel's
  tables. \<open>as_inv s D\<close> says of the directories \<open>D\<close>, the kernel's among them: directories and tables
  are live, distinct pages, and the table in a user slot of a directory other than the kernel's
  belongs to that slot of that directory alone.
\<close>

abbreviation pde :: "mem_state \<Rightarrow> u32 \<Rightarrow> nat \<Rightarrow> u32" where
  "pde s d i \<equiv> load s (entry_addr d i)"

abbreviation present :: "u32 \<Rightarrow> bool" where
  "present e \<equiv> e AND PAGE_PRESENT \<noteq> 0"

definition user_slot :: "nat \<Rightarrow> bool" where
  "user_slot i \<longleftrightarrow> 1 \<le> i \<and> i < 768"

definition translate :: "mem_state \<Rightarrow> u32 \<Rightarrow> nat \<Rightarrow> nat \<Rightarrow> u32" where
  "translate s d i j = (if present (pde s d i) then load s (entry_addr (table_of (pde s d i)) j) else 0)"

definition as_inv :: "mem_state \<Rightarrow> u32 set \<Rightarrow> bool" where
  "as_inv s D \<longleftrightarrow> palloc_inv (pal s) \<and> kernel_page_directory_phys s \<in> D
     \<and> (\<forall>d\<in>D. d \<noteq> 0 \<and> page_aligned d \<and> 0 < page_refs (pal s) d)
     \<and> (\<forall>d\<in>D. \<forall>i<1023. present (pde s d i) \<longrightarrow>
          0 < page_refs (pal s) (table_of (pde s d i)) \<and> table_of (pde s d i) \<notin> D)
     \<and> (\<forall>d\<in>D. \<forall>e\<in>D. \<forall>i j. d \<noteq> kernel_page_directory_phys s \<longrightarrow> user_slot i \<longrightarrow> j < 1023 \<longrightarrow>
          present (pde s d i) \<longrightarrow> present (pde s e j) \<longrightarrow>
          table_of (pde s d i) = table_of (pde s e j) \<longrightarrow> d = e \<and> i = j)"

text \<open>The pages that hold page tables and directories of \<open>D\<close>.\<close>

definition table_pages :: "mem_state \<Rightarrow> u32 set \<Rightarrow> u32 set" where
  "table_pages s D = D \<union> {table_of (pde s d i) | d i. d \<in> D \<and> i < 1023 \<and> present (pde s d i)}"

lemma load_simps [simp]:
  "load (store a v s) b = (if b = a then v else load s b)"
  "load (zero_page p s) b = (if b - p < 4096 then 0 else load s b)"
  "load (s\<lparr>pal := x\<rparr>) b = load s b"
  "pal (store a v s) = pal s" "pal (zero_page p s) = pal s"
  "kernel_page_directory_phys (store a v s) = kernel_page_directory_phys s"
  "kernel_page_directory_phys (zero_page p s) = kernel_page_directory_phys s"
  by (simp_all add: load_def store_def zero_page_def)

lemma user_slot_less: "user_slot i \<Longrightarrow> i < 1023" "user_slot i \<Longrightarrow> i < 1024"
  by (simp_all add: user_slot_def)

lemma as_dirD:
  "as_inv s D \<Longrightarrow> d \<in> D \<Longrightarrow> d \<noteq> 0" "as_inv s D \<Longrightarrow> d \<in> D \<Longrightarrow> page_aligned d"
  "as_inv s D \<Longrightarrow> d \<in> D \<Longrightarrow> 0 < page_refs (pal s) d" "as_inv s D \<Longrightarrow> palloc_inv (pal s)"
  "as_inv s D \<Longrightarrow> kernel_page_directory_phys s \<in> D"
  by (simp_all add: as_inv_def)

lemma as_tableD:
  assumes "as_inv s D" "d \<in> D" "i < 1023" "present (pde s d i)"
  shows "0 < page_refs (pal s) (table_of (pde s d i))" "table_of (pde s d i) \<notin> D"
  using assms unfolding as_inv_def by blast+

lemma as_uniqueD:
  assumes "as_inv s D" "d \<in> D" "d \<noteq> kernel_page_directory_phys s" "e \<in> D" "user_slot i" "j < 1023"
    "present (pde s d i)"
    "present (pde s e j)" "table_of (pde s d i) = table_of (pde s e j)"
  shows "d = e" "i = j"
  using assms unfolding as_inv_def by blast+

lemma as_inv_cong:
  assumes "as_inv s D" "palloc_inv (pal s')" and kd: "kernel_page_directory_phys s' = kernel_page_directory_phys s"
    and refs: "\<And>p. 0 < page_refs (pal s) p \<Longrightarrow> 0 < page_refs (pal s') p"
    and pdes: "\<And>d i. d \<in> D \<Longrightarrow> i < 1023 \<Longrightarrow> pde s' d i AND PAGE_PRESENT = pde s d i AND PAGE_PRESENT
      \<and> table_of (pde s' d i) = table_of (pde s d i)"
  shows "as_inv s' D" "table_pages s' D = table_pages s D"
proof -
  note d = as_dirD [OF assms(1)] and t = as_tableD [OF assms(1)] and u = as_uniqueD [OF assms(1)]
  show "as_inv s' D"
    unfolding as_inv_def
  proof (intro conjI ballI allI impI)
    fix d e i j
    assume de: "d \<in> D" "e \<in> D" and dk: "d \<noteq> kernel_page_directory_phys s'" and s: "user_slot i" "j < 1023"
      and pr: "present (pde s' d i)" "present (pde s' e j)"
      and eq: "table_of (pde s' d i) = table_of (pde s' e j)"
    note i = user_slot_less(1) [OF s(1)]
    have "present (pde s d i)" "present (pde s e j)" "table_of (pde s d i) = table_of (pde s e j)"
      using pr eq pdes [OF de(1) i] pdes [OF de(2) s(2)] by simp_all
    from u [OF de(1) dk [unfolded kd] de(2) s this] show "d = e" "i = j" .
  qed (use d t refs assms(2) pdes kd in auto)
  show "table_pages s' D = table_pages s D"
    unfolding table_pages_def using pdes by force
qed

lemma lookup_translate:
  assumes "d \<noteq> 0"
  shows "paging_lookup_page_in d va s =
    (let e = translate s d (page_directory_index va) (page_table_index va) in
     if present e then Inr (e AND PAGE_FRAME_MASK, e AND 0xFFF) else Inl EFAIL)"
  using assms unfolding paging_lookup_page_in_def translate_def not_frame_mask by (auto simp: Let_def)

text \<open>Writing an entry of the table of a user slot changes one translation and nothing else.\<close>

lemma store_pte:
  fixes v :: u32
  assumes inv: "as_inv s D" and d: "d \<in> D" "d \<noteq> kernel_page_directory_phys s" and i: "user_slot i" and j: "j < 1024"
    and p: "present (pde s d i)"
  defines "s' \<equiv> store (entry_addr (table_of (pde s d i)) j) v s"
  shows "as_inv s' D" "table_pages s' D = table_pages s D"
    and "e \<in> D \<Longrightarrow> k < 1023 \<Longrightarrow> l < 1024 \<Longrightarrow>
      translate s' e k l = (if e = d \<and> k = i \<and> l = j then v else translate s e k l)"
proof -
  note tab = as_tableD [OF inv d(1) user_slot_less(1) [OF i] p]
  have pde: "pde s' e k = pde s e k" if "e \<in> D" "k < 1024" for e k
  proof -
    have "e \<noteq> table_of (pde s d i)" using tab(2) that(1) by auto
    then show ?thesis
      using that as_dirD(2) [OF inv that(1)] j by (simp add: s'_def entry_addr_eq)
  qed
  show "as_inv s' D" "table_pages s' D = table_pages s D"
    by (rule as_inv_cong [OF inv]; use as_dirD(4) [OF inv] pde in \<open>simp add: s'_def\<close>)+
  assume e: "e \<in> D" "k < 1023" "l < 1024"
  show "translate s' e k l = (if e = d \<and> k = i \<and> l = j then v else translate s e k l)"
  proof (cases "present (pde s e k)")
    case True
    have "table_of (pde s e k) = table_of (pde s d i) \<longleftrightarrow> e = d \<and> k = i"
      using as_uniqueD [OF inv d e(1) i e(2) p True] by auto
    then show ?thesis using True e j pde [OF e(1), of k] by (simp add: translate_def s'_def entry_addr_eq)
  next
    case False
    then show ?thesis using p e pde [OF e(1), of k] by (auto simp: translate_def)
  qed
qed

lemma alloc_page_okD:
  assumes "alloc_page s = (p, s1)" "palloc_inv (pal s)" "p \<noteq> 0"
  shows "palloc_inv (pal s1)" "page_aligned p" "page_refs (pal s) p = 0"
    "page_refs (pal s1) = (page_refs (pal s))(p := 1)" "load s1 a = load s a" "pm s1 = pm s"
    "kernel_page_directory_phys s1 = kernel_page_directory_phys s"
proof -
  obtain x where x: "palloc_alloc_page (pal s) = (p, x)" "s1 = s\<lparr>pal := x\<rparr>"
    using assms(1) by (auto simp: alloc_page_def split: prod.splits)
  show "palloc_inv (pal s1)" "page_aligned p" "page_refs (pal s) p = 0"
    "page_refs (pal s1) = (page_refs (pal s))(p := 1)" "load s1 a = load s a" "pm s1 = pm s"
    "kernel_page_directory_phys s1 = kernel_page_directory_phys s"
    using pages.alloc_ok [OF assms(2) x(1) assms(3)] x(2) by (simp_all add: page_aligned_mod)
qed

lemma alloc_page_failD: "alloc_page s = (0, s1) \<Longrightarrow> palloc_inv (pal s) \<Longrightarrow> s1 = s"
  by (auto simp: alloc_page_def dest!: pages.alloc_fail split: prod.splits)

lemma release_page_sel:
  "load (release_page p s) a = load s a"
  "kernel_page_directory_phys (release_page p s) = kernel_page_directory_phys s"
  by (simp_all add: release_page_def)

lemma present_or: "present (x OR f) \<longleftrightarrow> present x \<or> present f"
  by (simp add: bit.conj_disj_distrib2 or_eq_0_iff)

text \<open>A fresh, zeroed page put into an empty user slot changes no translation.\<close>

lemma add_table:
  assumes inv: "as_inv s D" and d: "d \<in> D" "d \<noteq> kernel_page_directory_phys s" and i: "user_slot i" and np: "\<not> present (pde s d i)"
    and al: "alloc_page s = (t, s1)" "t \<noteq> 0" and f: "f AND PAGE_FRAME_MASK = 0" "present f"
  defines "s' \<equiv> store (entry_addr d i) (t OR f) (zero_page t s1)"
  shows "as_inv s' D" "table_pages s' D \<subseteq> insert t (table_pages s D)" "present (pde s' d i)"
    and "e \<in> D \<Longrightarrow> k < 1023 \<Longrightarrow> l < 1024 \<Longrightarrow> translate s' e k l = translate s e k l"
proof -
  note ok = alloc_page_okD [OF al(1) as_dirD(4) [OF inv] al(2)]
  have tD: "t \<notin> D" using ok(3) as_dirD(3) [OF inv] by fastforce
  have tT: "t \<noteq> table_of (pde s e k)" if "e \<in> D" "k < 1023" "present (pde s e k)" for e k
    using ok(3) as_tableD(1) [OF inv that] by auto
  have pde: "pde s' e k = (if e = d \<and> k = i then t OR f else pde s e k)" if "e \<in> D" "k < 1024" for e k
    using that tD d as_dirD(2) [OF inv] ok(2,5) user_slot_less(2) [OF i]
    by (auto simp: s'_def entry_addr_eq entry_addr_in_page)
  have tf: "table_of (t OR f) = t" by (simp add: table_of_def frame_or_flags(1) ok(2) f(1))
  show "present (pde s' d i)" using pde [OF d(1) user_slot_less(2) [OF i]] f(2) by (simp only: present_or simp_thms if_True)
  show tr: "translate s' e k l = translate s e k l" if e: "e \<in> D" "k < 1023" "l < 1024" for e k l
  proof -
    have "table_of x \<noteq> d" if "present x" "x = pde s e k" for x using as_tableD(2) [OF inv e(1,2)] that d by auto
    moreover have "t \<noteq> d" using tD d by auto
    ultimately show ?thesis
      using pde [OF e(1), of k] e tT [OF e(1,2)] np f(2) ok(2,5) as_dirD(2) [OF inv d(1)] user_slot_less(2) [OF i]
      by (auto simp: translate_def tf present_or s'_def entry_addr_eq entry_addr_in_page)
  qed
  show "table_pages s' D \<subseteq> insert t (table_pages s D)"
    using pde tf by (auto simp: table_pages_def split: if_splits) blast+
  show "as_inv s' D"
    unfolding as_inv_def
  proof (intro conjI ballI allI impI)
    fix e e' k k'
    assume e: "e \<in> D" "e' \<in> D" "user_slot k" "k' < 1023" "present (pde s' e k)" "present (pde s' e' k')"
      "table_of (pde s' e k) = table_of (pde s' e' k')" "e \<noteq> kernel_page_directory_phys s'"
    have k: "k < 1024" "k' < 1024" "k < 1023" using e(3,4) by (simp_all add: user_slot_def)
    have "e \<noteq> kernel_page_directory_phys s" using e(8) ok(7) by (simp add: s'_def)
    then show "e = e'" "k = k'"
      using e(5-7) tT [OF e(1) k(3)] tT [OF e(2,4)] as_uniqueD [OF inv e(1) _ e(2-4)]
      unfolding pde [OF e(1) k(1)] pde [OF e(2) k(2)] by (auto simp: tf split: if_splits)
  next
    fix e k assume e: "e \<in> D" "k < 1023" "present (pde s' e k)"
    then show "0 < page_refs (pal s') (table_of (pde s' e k))" "table_of (pde s' e k) \<notin> D"
      using pde [OF e(1), of k] as_tableD [OF inv e(1,2)] tD tf
      by (auto simp: s'_def ok(4) split: if_splits)
  qed (use as_dirD [OF inv] ok in \<open>auto simp: s'_def\<close>)
qed

text \<open>Addresses outside the page-table pages; the pages a mapping operation may take for tables.\<close>

definition outside_tables :: "mem_state \<Rightarrow> u32 set \<Rightarrow> u32 \<Rightarrow> bool" where
  "outside_tables s D a \<longleftrightarrow> (\<forall>p\<in>table_pages s D. \<not> a - p < 4096)"

definition tables_grow :: "mem_state \<Rightarrow> mem_state \<Rightarrow> u32 set \<Rightarrow> bool" where
  "tables_grow s s' D \<longleftrightarrow> as_inv s' D
     \<and> table_pages s' D \<subseteq> table_pages s D \<union> {t. page_refs (pal s) t = 0}
     \<and> (\<forall>a. outside_tables s' D a \<longrightarrow> load s' a = load s a)
     \<and> (\<forall>p. 0 < page_refs (pal s) p \<longrightarrow> page_refs (pal s') p = page_refs (pal s) p)
     \<and> kernel_page_directory_phys s' = kernel_page_directory_phys s"

lemma entry_addr_self: "page_aligned t \<Longrightarrow> i < 1024 \<Longrightarrow> entry_addr t i - t < 4096"
  by (simp add: entry_addr_in_page)

lemma table_pagesI: "d \<in> D \<Longrightarrow> i < 1023 \<Longrightarrow> present (pde s d i) \<Longrightarrow> table_of (pde s d i) \<in> table_pages s D"
  unfolding table_pages_def by blast

lemma table_pages_dir: "d \<in> D \<Longrightarrow> d \<in> table_pages s D"
  by (simp add: table_pages_def)

lemma ensure_table_ok:
  assumes inv: "as_inv s D" and d: "d \<in> D" "d \<noteq> kernel_page_directory_phys s" and i: "user_slot i"
    and run: "ensure_table d i flags s = (Inr u, s')"
  shows "tables_grow s s' D" "present (pde s' d i)"
    and "e \<in> D \<Longrightarrow> k < 1023 \<Longrightarrow> l < 1024 \<Longrightarrow> translate s' e k l = translate s e k l"
proof -
  note ul = user_slot_less [OF i] and al = as_dirD(1-3) [OF inv d(1)] as_dirD(4) [OF inv]
  have "tables_grow s s' D \<and> present (pde s' d i) \<and>
    (\<forall>e\<in>D. \<forall>k<1023. \<forall>l<1024. translate s' e k l = translate s e k l)"
  proof (cases "present (pde s d i)")
    case False
    then obtain t s1 f where t: "alloc_page s = (t, s1)" "t \<noteq> 0" "f \<in> {3, 7}"
      and s': "s' = store (entry_addr d i) (t OR f) (zero_page t s1)"
      using run by (auto simp: ensure_table_def Let_def split: prod.splits if_splits)
    have f: "f AND PAGE_FRAME_MASK = 0" "present f" using t(3) by auto
    note new = add_table [OF inv d i _ t(1,2) f, folded s'] and ok = alloc_page_okD [OF t(1) al(4) t(2)]
    have "t \<in> table_pages s' D"
      using table_pagesI [OF d(1) ul(1) new(3)] False ok d al(2) ul
      by (simp add: s' table_of_def frame_or_flags f)
    then have "load s' a = load s a" if "outside_tables s' D a" for a
      using that entry_addr_self [OF al(2) ul(2)] table_pages_dir [OF d(1), of s'] ok(5)
      by (auto simp: s' outside_tables_def)
    then show ?thesis
      using new False ok(3,4,7) by (auto simp: tables_grow_def s')
  next
    case True
    show ?thesis
    proof (cases "s' = s")
      case True
      then show ?thesis using inv \<open>present (pde s d i)\<close> by (simp add: tables_grow_def)
    next
      case False
      then have s': "s' = store (entry_addr d i) (pde s d i OR PAGE_USER) s"
        using run True by (auto simp: ensure_table_def Let_def split: if_splits)
      have pde: "pde s' e k AND PAGE_PRESENT = pde s e k AND PAGE_PRESENT
          \<and> table_of (pde s' e k) = table_of (pde s e k)" if "e \<in> D" "k < 1023" for e k
        by (simp add: s' table_of_def bit.conj_disj_distrib2)
      have cong: "as_inv s' D" "table_pages s' D = table_pages s D"
        by (rule as_inv_cong [OF inv]; use al(4) pde in \<open>simp add: s'\<close>)+
      have "translate s' e k l = translate s e k l" if "e \<in> D" "k < 1023" "l < 1024" for e k l
        using pde [OF that(1,2)] as_tableD(2) [OF inv that(1,2)] d al(2) that ul
        by (auto simp: translate_def s' entry_addr_eq)
      moreover have "load s' a = load s a" if "outside_tables s' D a" for a
        using that entry_addr_self [OF al(2) ul(2)] table_pages_dir [OF d(1), of s']
        by (auto simp: s' outside_tables_def)
      ultimately show ?thesis
        using cong True pde [OF d(1) ul(1)] by (auto simp: tables_grow_def s')
    qed
  qed
  then show "tables_grow s s' D" "present (pde s' d i)"
    and "e \<in> D \<Longrightarrow> k < 1023 \<Longrightarrow> l < 1024 \<Longrightarrow> translate s' e k l = translate s e k l" by blast+
qed

lemma ensure_table_fail:
  assumes "as_inv s D" "d \<in> D" "d \<noteq> kernel_page_directory_phys s" "user_slot i" "ensure_table d i flags s = (Inl e, s')"
  shows "s' = s" "fst (alloc_page s) = 0" "\<not> present (pde s d i)"
  using assms as_dirD(4) [OF assms(1)] alloc_page_failD [of s s']
  by (auto simp: ensure_table_def user_slot_def Let_def split: prod.splits if_splits)

section \<open>Mapping and unmapping\<close>

lemma map_page_in_cases:
  assumes inv: "as_inv s D" and d: "d \<in> D" "d \<noteq> kernel_page_directory_phys s" and va: "page_aligned va" "user_slot (page_directory_index va)"
    and pa: "page_aligned pa" and run: "paging_map_page_in d va pa flags s = (r, s')"
  shows "r = Inl EFAIL \<Longrightarrow> s' = s \<and> fst (alloc_page s) = 0"
    and "r \<noteq> Inr () \<Longrightarrow> r = Inl EFAIL"
    and "r = Inr () \<Longrightarrow> tables_grow s s' D"
    and "r = Inr () \<Longrightarrow> e \<in> D \<Longrightarrow> k < 1023 \<Longrightarrow> l < 1024 \<Longrightarrow> translate s' e k l =
      (if e = d \<and> k = page_directory_index va \<and> l = page_table_index va
       then pa OR (flags OR PAGE_PRESENT) else translate s e k l)"
proof -
  let ?i = "page_directory_index va" and ?j = "page_table_index va"
  obtain q s1 where en: "ensure_table d ?i flags s = (q, s1)" by force
  have go: "paging_map_page_in d va pa flags s = (case (q, s1) of
      (Inl e, s1) \<Rightarrow> (Inl e, s1)
    | (Inr _, s1) \<Rightarrow> (Inr (), store (entry_addr (table_of (pde s1 d ?i)) ?j) (pa OR (flags OR PAGE_PRESENT)) s1))"
    using va(1) pa as_dirD(1) [OF inv d(1)] en
    by (cases q) (simp_all add: paging_map_page_in_def page_aligned_def paging_entry_flags_def Let_def)
  have efail: "q = Inl EFAIL" if "q = Inl x" for x using en that
    by (auto simp: ensure_table_def Let_def split: if_splits prod.splits)
  show "r = Inl EFAIL \<Longrightarrow> s' = s \<and> fst (alloc_page s) = 0"
    using run go en ensure_table_fail [OF inv d va(2), of flags] by (cases q) auto
  show "r \<noteq> Inr () \<Longrightarrow> r = Inl EFAIL" using run go efail by (cases q) auto
  assume "r = Inr ()"
  then obtain u where q: "q = Inr u"
    and s': "s' = store (entry_addr (table_of (pde s1 d ?i)) ?j) (pa OR (flags OR PAGE_PRESENT)) s1"
    using run go by (cases q) auto
  note e1 = ensure_table_ok [OF inv d va(2) en [unfolded q]]
  have inv1: "as_inv s1 D" "d \<noteq> kernel_page_directory_phys s1" using e1(1) d by (simp_all add: tables_grow_def)
  note st = store_pte [OF inv1(1) d(1) inv1(2) va(2) index_bounds(2) [of va] e1(2),
      where v = "pa OR (flags OR PAGE_PRESENT)", folded s']
  have "load s' a = load s1 a" if "outside_tables s' D a" for a
    using that table_pagesI [OF d(1) user_slot_less(1) [OF va(2)] e1(2)] st(2)
      entry_addr_self [OF table_of_aligned index_bounds(2)] by (auto simp: s' outside_tables_def)
  then show "tables_grow s s' D"
    using e1(1) st(1,2) by (simp add: tables_grow_def s' outside_tables_def)
  show "e \<in> D \<Longrightarrow> k < 1023 \<Longrightarrow> l < 1024 \<Longrightarrow> translate s' e k l =
      (if e = d \<and> k = ?i \<and> l = ?j then pa OR (flags OR PAGE_PRESENT) else translate s e k l)"
    using e1(3) st(3) by simp
qed

lemma user_slot_va: "USER_VIRT_BASE \<le> va \<Longrightarrow> va < USER_VIRT_LIMIT \<Longrightarrow> user_slot (page_directory_index va)"
  by (simp add: user_slot_def index_unat word_le_nat_alt word_less_nat_alt less_mult_imp_div_less)

lemma unat_frame_mask: "unat (wa AND PAGE_FRAME_MASK) = 4096 * (unat wa div 4096)"
proof -
  have "(wa AND PAGE_FRAME_MASK) + (wa AND 0xFFF) = wa"
    using word_plus_and_or [of "wa AND PAGE_FRAME_MASK" "wa AND 0xFFF"]
    by (simp add: and.assoc and.left_commute flip: split_mask)
  then have "wa AND PAGE_FRAME_MASK = wa - (wa AND 0xFFF)" by (simp add: eq_diff_eq)
  moreover have "wa AND 0xFFF \<le> wa" by (simp add: word_le_nat_alt low_bits)
  ultimately have "unat (wa AND PAGE_FRAME_MASK) = unat wa - unat wa mod 4096"
    by (simp add: unat_sub low_bits)
  then show ?thesis by (simp add: minus_mod_eq_mult_div)
qed

lemma page_of_eq:
  assumes "page_aligned va"
  shows "wa AND PAGE_FRAME_MASK = va \<longleftrightarrow>
    page_directory_index wa = page_directory_index va \<and> page_table_index wa = page_table_index va"
proof -
  have al: "page_aligned (wa AND PAGE_FRAME_MASK)" using table_of_aligned [of wa] by (simp add: table_of_def)
  have big: "n div 4194304 = n div 4096 div 1024" for n :: nat
    using div_mult2_eq [of n 4096 1024] by simp
  have "page_directory_index wa = page_directory_index (wa AND PAGE_FRAME_MASK)"
    "page_table_index wa = page_table_index (wa AND PAGE_FRAME_MASK)"
    by (simp_all add: index_unat unat_frame_mask big)
  then show ?thesis using same_page [OF al assms] by auto
qed

text \<open>
  C7. Mapping a page of the user part of an address space either fails because no page is left for a
  table, and changes nothing, or makes exactly that page translate to the given frame with the
  given flags: no other page of this address space and no page of any other address space
  translates differently afterwards, and the ownership invariant of the page tables is kept.
\<close>

theorem paging_map_page_in_correct:
  assumes "as_inv s D" "d \<in> D" "d \<noteq> kernel_page_directory_phys s" "page_aligned va" "page_aligned pa"
    and "flags AND PAGE_FRAME_MASK = 0"
    and "USER_VIRT_BASE \<le> va" "va < USER_VIRT_LIMIT"
    and "paging_map_page_in d va pa flags s = (r, s')"
  shows "as_inv s' D \<and> (case r of
      Inl _ \<Rightarrow> s' = s \<and> fst (alloc_page s) = 0
    | Inr _ \<Rightarrow> \<forall>e\<in>D. \<forall>wa. page_directory_index wa \<noteq> RECURSIVE_DIRECTORY_INDEX \<longrightarrow>
        paging_lookup_page_in e wa s' =
          (if e = d \<and> wa AND PAGE_FRAME_MASK = va then Inr (pa, flags OR PAGE_PRESENT)
           else paging_lookup_page_in e wa s))"
proof -
  note us = user_slot_va [OF assms(7,8)]
  note map = map_page_in_cases [OF assms(1-4) us assms(5,9)]
  have f: "(flags OR PAGE_PRESENT) AND PAGE_FRAME_MASK = 0"
    using assms(6) by (simp add: bit.conj_disj_distrib2)
  have e: "present (pa OR (flags OR PAGE_PRESENT))" by (simp add: present_or)
  show ?thesis
  proof (cases "r = Inr ()")
    case True
    have "paging_lookup_page_in e wa s' =
          (if e = d \<and> wa AND PAGE_FRAME_MASK = va then Inr (pa, flags OR PAGE_PRESENT)
           else paging_lookup_page_in e wa s)"
      if "e \<in> D" "page_directory_index wa \<noteq> 1023" for e wa
    proof -
      have "page_directory_index wa < 1023" using that(2) index_bounds(1) [of wa] by linarith
      from map(4) [OF True that(1) this index_bounds(2)] show ?thesis
        using e by (simp add: lookup_translate as_dirD(1) [OF assms(1) that(1)] Let_def
            page_of_eq [OF assms(4)] frame_or_flags [OF assms(5) f])
    qed
    then show ?thesis using True map(3) by (simp add: tables_grow_def)
  next
    case False
    then show ?thesis using map(1,2) assms(1) by simp
  qed
qed

text \<open>
  C8. Unmapping a page of the user part of an address space removes the translation of exactly that
  page, in that address space only.
\<close>

theorem paging_unmap_page_in_correct:
  assumes "as_inv s D" "d \<in> D" "d \<noteq> kernel_page_directory_phys s" "page_aligned va"
    and "USER_VIRT_BASE \<le> va" "va < USER_VIRT_LIMIT"
  shows "as_inv (paging_unmap_page_in d va s) D \<and>
    (\<forall>e\<in>D. \<forall>wa. page_directory_index wa \<noteq> RECURSIVE_DIRECTORY_INDEX \<longrightarrow>
      paging_lookup_page_in e wa (paging_unmap_page_in d va s) =
        (if e = d \<and> wa AND PAGE_FRAME_MASK = va then Inl EFAIL else paging_lookup_page_in e wa s))"
proof -
  let ?i = "page_directory_index va" and ?j = "page_table_index va" and ?s = "paging_unmap_page_in d va s"
  note us = user_slot_va [OF assms(5,6)] and al = page_of_eq [OF assms(4)]
  show ?thesis
  proof (cases "present (pde s d ?i)")
    case True
    have s': "?s = store (entry_addr (table_of (pde s d ?i)) ?j) 0 s"
      using True assms(4) as_dirD(1) [OF assms(1,2)]
      by (simp add: paging_unmap_page_in_def page_aligned_def Let_def)
    note st = store_pte [OF assms(1-3) us index_bounds(2) [of va] True, where v = 0, folded s']
    have "page_directory_index wa < 1023" if "page_directory_index wa \<noteq> 1023" for wa
      using that index_bounds(1) [of wa] by linarith
    with st show ?thesis
      by (simp add: lookup_translate as_dirD(1) [OF assms(1)] al Let_def)
  next
    case False
    then have s': "?s = s" by (simp add: paging_unmap_page_in_def)
    have "paging_lookup_page_in d wa s = Inl EFAIL" if "wa AND PAGE_FRAME_MASK = va" for wa
      using False that as_dirD(1) [OF assms(1,2)] by (simp add: al lookup_translate translate_def)
    then show ?thesis using assms(1) by (simp add: s')
  qed
qed

section \<open>New address spaces\<close>

lemma set_slots [simp]: "set (slots a b) = {a..<b}"
  by (simp add: slots_def)

lemma fold_copy_entry:
  assumes "page_aligned d" "page_aligned k" "d \<noteq> k" "\<forall>i\<in>set xs. i < 1024" "i < 1024"
  shows "pde (fold (copy_entry d k) xs s) d i = (if i \<in> set xs then pde s k i else pde s d i)"
  using assms(4)
proof (induction xs arbitrary: s)
  case (Cons x xs)
  have "pde (copy_entry d k x s) k j = pde s k j" if "j < 1024" for j
    using Cons.prems assms(1-3) that by (simp add: copy_entry_def entry_addr_eq)
  moreover have "pde (copy_entry d k x s) d i = (if i = x then pde s k i else pde s d i)"
    using Cons.prems assms by (simp add: copy_entry_def entry_addr_eq)
  ultimately show ?case using Cons.IH [of "copy_entry d k x s"] Cons.prems assms(5) by auto
qed simp

lemma fold_copy_entry_frame:
  assumes "page_aligned d" "\<forall>i\<in>set xs. i < 1024" "\<not> a - d < 4096"
  shows "load (fold (copy_entry d k) xs s) a = load s a"
  using assms(2)
proof (induction xs arbitrary: s)
  case (Cons x xs)
  have "a \<noteq> entry_addr d x" using entry_addr_self [OF assms(1), of x] Cons.prems assms(3) by auto
  then show ?case using Cons by (simp add: copy_entry_def)
qed simp

lemma fold_copy_entry_sel [simp]:
  "pal (fold (copy_entry d k) xs s) = pal s"
  "kernel_page_directory_phys (fold (copy_entry d k) xs s) = kernel_page_directory_phys s"
  by (induction xs arbitrary: s) (simp_all add: copy_entry_def)

text \<open>The directory entries of a new address space, and that no other memory changes.\<close>

lemma create_address_space_entries:
  assumes inv: "as_inv s D" and run: "paging_create_address_space s = (d, s')" and d: "d \<noteq> 0"
  shows "page_refs (pal s) d = 0" "page_refs (pal s') = (page_refs (pal s))(d := 1)" "palloc_inv (pal s')"
    "page_aligned d" "d \<notin> D" "kernel_page_directory_phys s' = kernel_page_directory_phys s"
    "\<not> a - d < 4096 \<Longrightarrow> load s' a = load s a"
    "i < 1023 \<Longrightarrow> pde s' d i = (if user_slot i then 0 else pde s (kernel_page_directory_phys s) i)"
proof -
  let ?k = "kernel_page_directory_phys s"
  obtain s1 where al: "alloc_page s = (d, s1)"
    using run d by (auto simp: paging_create_address_space_def Let_def split: prod.splits if_splits)
  note ok = alloc_page_okD [OF al as_dirD(4) [OF inv] d]
  define s4 where "s4 = fold (copy_entry d ?k) (slots 768 1023) (fold (copy_entry d ?k) (slots 0 1) (zero_page d s1))"
  have s': "s' = store (entry_addr d 1023) (d OR PAGE_FLAGS) s4"
    using run al d ok(7) by (simp add: paging_create_address_space_def s4_def Let_def)
  show "page_refs (pal s) d = 0" "page_refs (pal s') = (page_refs (pal s))(d := 1)" "palloc_inv (pal s')"
    "page_aligned d" "kernel_page_directory_phys s' = ?k"
    using ok by (simp_all add: s' s4_def)
  show dD: "d \<notin> D" using ok(3) as_dirD(3) [OF inv] by fastforce
  then have dk: "d \<noteq> ?k" using as_dirD(5) [OF inv] by auto
  have ka: "page_aligned ?k" using as_dirD(2) [OF inv as_dirD(5) [OF inv]] .
  show "load s' a = load s a" if "\<not> a - d < 4096" for a
    using that entry_addr_self [OF ok(2), of 1023] ok(2,5)
    by (auto simp: s' s4_def fold_copy_entry_frame)
  show "pde s' d i = (if user_slot i then 0 else pde s ?k i)" if "i < 1023" for i
    using that dk ka ok(2,5)
    by (auto simp: s' s4_def fold_copy_entry fold_copy_entry_frame entry_addr_eq entry_addr_in_page user_slot_def)
qed

lemma create_address_space_effect:
  assumes inv: "as_inv s D" and run: "paging_create_address_space s = (d, s')" and d: "d \<noteq> 0"
  shows "as_inv s' (insert d D)" "table_pages s' (insert d D) \<subseteq> insert d (table_pages s D)"
    "e \<in> D \<Longrightarrow> page_directory_index va \<noteq> RECURSIVE_DIRECTORY_INDEX \<Longrightarrow>
       paging_lookup_page_in e va s' = paging_lookup_page_in e va s"
    "page_directory_index va \<noteq> RECURSIVE_DIRECTORY_INDEX \<Longrightarrow> paging_lookup_page_in d va s' =
       (if user_slot (page_directory_index va) then Inl EFAIL
        else paging_lookup_page_in (kernel_page_directory_phys s) va s)"
proof -
  note n = create_address_space_entries [OF inv run d]
  let ?k = "kernel_page_directory_phys s"
  note kD = as_dirD(5) [OF inv]
  have old: "pde s' e i = pde s e i" if "e \<in> D" "i < 1024" for e i
    using that n(5) by (intro n(7)) (auto simp: entry_addr_in_page as_dirD(2) [OF inv] n(4))
  have dT: "table_of (pde s e i) \<noteq> d" if "e \<in> D" "i < 1023" "present (pde s e i)" for e i
    using as_tableD(1) [OF inv that] n(1) by auto
  have tr: "load s' (entry_addr (table_of (pde s e i)) j) = load s (entry_addr (table_of (pde s e i)) j)"
    if "e \<in> D" "i < 1023" "present (pde s e i)" "j < 1024" for e i j
    using dT [OF that(1-3)] that(4) by (intro n(7)) (simp add: entry_addr_in_page n(4))
  have ltr: "translate s' e i j = translate s e i j" if "e \<in> D" "i < 1023" "j < 1024" for e i j
    using old [OF that(1), of i] tr [OF that(1,2) _ that(3)] that(2) by (simp add: translate_def)
  have new: "translate s' d i j = (if user_slot i then 0 else translate s ?k i j)"
    if "i < 1023" "j < 1024" for i j
    using n(8) [OF that(1)] tr [OF kD that(1) _ that(2)] by (simp add: translate_def)
  have src: "\<exists>y\<in>D. pde s' x i = pde s y i" if "x \<in> insert d D" "i < 1023" "present (pde s' x i)" for x i
    using that old [of x i] n(8) [OF that(2)] kD by (cases "x = d") (auto split: if_splits)
  have "table_of (pde s' x i) \<in> table_pages s D" if "x \<in> insert d D" "i < 1023" "present (pde s' x i)" for x i
    using src [OF that] that(2,3) table_pagesI [of _ D i s] by auto
  then show "table_pages s' (insert d D) \<subseteq> insert d (table_pages s D)"
    by (auto simp: table_pages_def [of s'] intro: table_pages_dir)
  show "as_inv s' (insert d D)"
    unfolding as_inv_def
  proof (intro conjI ballI allI impI)
    fix x y i j
    assume h: "x \<in> insert d D" "y \<in> insert d D" "x \<noteq> kernel_page_directory_phys s'" "user_slot i" "j < 1023"
      "present (pde s' x i)" "present (pde s' y j)" "table_of (pde s' x i) = table_of (pde s' y j)"
    note i = user_slot_less(1) [OF h(4)]
    have x: "x \<in> D" "x \<noteq> ?k" using h(1,3,4,6) n(6) n(8) [OF i] by auto
    note u = as_uniqueD [OF inv x]
    have px: "present (pde s x i)" "table_of (pde s x i) = table_of (pde s' y j)"
      using h(6,8) old [OF x(1)] i by simp_all
    have "x = y \<and> i = j"
    proof (cases "y = d")
      case True
      then have "present (pde s ?k j)" "table_of (pde s x i) = table_of (pde s ?k j)"
        using h(7) px(2) n(8) [OF h(5)] by (simp_all split: if_splits)
      then show ?thesis using u [OF kD h(4,5) px(1)] x(2) by simp
    next
      case False
      then have "y \<in> D" "pde s' y j = pde s y j" using h(2,5) old [of y j] by simp_all
      then show ?thesis using u [OF _ h(4,5) px(1), of y] h(7) px(2) by simp
    qed
    then show "x = y" "i = j" by simp_all
  next
    fix x i assume h: "x \<in> insert d D" "i < 1023" "present (pde s' x i)"
    from src [OF h] obtain y where y: "y \<in> D" "pde s' x i = pde s y i" by blast
    show "0 < page_refs (pal s') (table_of (pde s' x i))" "table_of (pde s' x i) \<notin> insert d D"
      using h(3) as_tableD [OF inv y(1) h(2)] dT [OF y(1) h(2)] by (simp_all add: y(2) n(2))
  next
    fix x assume "x \<in> insert d D"
    then show "x \<noteq> 0" "page_aligned x" "0 < page_refs (pal s') x"
      using as_dirD(1-3) [OF inv, of x] n(2,4) d by auto
  qed (use n(3,6) kD in simp_all)
  have ix: "page_directory_index va < 1023" if "page_directory_index va \<noteq> 1023" for va
    using that index_bounds(1) [of va] by linarith
  show "e \<in> D \<Longrightarrow> page_directory_index va \<noteq> RECURSIVE_DIRECTORY_INDEX \<Longrightarrow>
       paging_lookup_page_in e va s' = paging_lookup_page_in e va s"
    using ltr as_dirD(1) [OF inv] ix by (auto simp: lookup_translate Let_def)
  show "page_directory_index va \<noteq> RECURSIVE_DIRECTORY_INDEX \<Longrightarrow> paging_lookup_page_in d va s' =
       (if user_slot (page_directory_index va) then Inl EFAIL
        else paging_lookup_page_in (kernel_page_directory_phys s) va s)"
    using new d as_dirD(1) [OF inv kD] ix by (auto simp: lookup_translate Let_def)
qed

text \<open>
  C9. A new address space has a directory of its own, no user mapping at all, and the kernel's
  mappings in every shared slot; the translations of the existing address spaces do not change
  and the ownership invariant extends to the new one. When no page is left nothing changes.
\<close>

theorem paging_create_address_space_correct:
  assumes "as_inv s D" "paging_create_address_space s = (d, s')"
  shows "if d = 0 then s' = s
    else d \<notin> D \<and> as_inv s' (insert d D)
      \<and> (\<forall>e\<in>D. \<forall>va. page_directory_index va \<noteq> RECURSIVE_DIRECTORY_INDEX \<longrightarrow>
           paging_lookup_page_in e va s' = paging_lookup_page_in e va s)
      \<and> (\<forall>va. page_directory_index va \<noteq> RECURSIVE_DIRECTORY_INDEX \<longrightarrow>
           paging_lookup_page_in d va s' =
             (if user_slot (page_directory_index va) then Inl EFAIL
              else paging_lookup_page_in (kernel_page_directory_phys s) va s))"
proof (cases "d = 0")
  case True
  then have "alloc_page s = (0, s')" using assms(2)
    by (auto simp: paging_create_address_space_def Let_def split: prod.splits if_splits)
  then show ?thesis using alloc_page_failD [OF _ as_dirD(4) [OF assms(1)]] True by simp
next
  case False
  show ?thesis
    using False create_address_space_effect [OF assms False] create_address_space_entries(5) [OF assms False] by simp
qed

section \<open>Copy on write\<close>

lemma same_frame:
  assumes "page_aligned p" "page_aligned q" "a - p < 4096" "a - q < 4096"
  shows "p = q"
proof -
  have "unat a = 4096 * (unat a div 4096) + unat a mod 4096" by simp
  from in_page_unat [OF assms(1) this] in_page_unat [OF assms(2) this] assms(3,4)
  have "unat p = unat q" by simp
  then show ?thesis by (simp add: word_unat_eq_iff)
qed

lemma table_pages_aligned: "as_inv s D \<Longrightarrow> t \<in> table_pages s D \<Longrightarrow> page_aligned t"
  by (auto simp: table_pages_def as_dirD(2))

lemma table_pages_live: "as_inv s D \<Longrightarrow> t \<in> table_pages s D \<Longrightarrow> 0 < page_refs (pal s) t"
  by (auto simp: table_pages_def as_dirD(3) as_tableD(1))

lemma outside_tablesI:
  assumes "as_inv s D" "page_aligned p" "p \<notin> table_pages s D" "a - p < 4096"
  shows "outside_tables s D a"
  unfolding outside_tables_def using same_frame [OF assms(2) table_pages_aligned [OF assms(1)] assms(4)] assms(3)
  by blast

text \<open>Remapping a page whose slot has a table allocates nothing and cannot fail.\<close>

lemma map_page_in_present:
  assumes inv: "as_inv s D" and d: "d \<in> D" "d \<noteq> kernel_page_directory_phys s"
    and va: "page_aligned va" "user_slot (page_directory_index va)" and pa: "page_aligned pa"
    and p: "present (pde s d (page_directory_index va))"
    and run: "paging_map_page_in d va pa flags s = (r, s')"
  shows "r = Inr ()" "pal s' = pal s" "table_pages s' D \<subseteq> table_pages s D"
proof -
  note cases = map_page_in_cases [OF inv d va pa run]
  show r: "r = Inr ()"
    using run va(1) pa as_dirD(1) [OF inv d(1)] p va(2)
    by (auto simp: paging_map_page_in_def ensure_table_def page_aligned_def user_slot_def Let_def
        split: if_splits)
  show pal: "pal s' = pal s"
    using run va(1) pa as_dirD(1) [OF inv d(1)] p va(2)
    by (auto simp: paging_map_page_in_def ensure_table_def page_aligned_def user_slot_def Let_def
        split: if_splits)
  have g: "tables_grow s s' D" using cases(3) [OF r] .
  show "table_pages s' D \<subseteq> table_pages s D"
  proof
    fix t assume t: "t \<in> table_pages s' D"
    then have "0 < page_refs (pal s) t" using table_pages_live g pal by (metis tables_grow_def)
    then show "t \<in> table_pages s D" using t g by (auto simp: tables_grow_def)
  qed
qed

lemma load_copy_page [simp]:
  "load (copy_page_bytes q p s) a = (if a - q < 4096 then load s (a - q + p) else load s a)"
  "pal (copy_page_bytes q p s) = pal s"
  "kernel_page_directory_phys (copy_page_bytes q p s) = kernel_page_directory_phys s"
  by (simp_all add: copy_page_bytes_def load_def)

text \<open>Memory written in a page that holds no table leaves the address spaces as they are.\<close>

lemma data_page_write:
  assumes inv: "as_inv s D" and q: "page_aligned q" "q \<notin> table_pages s D"
    and same: "\<And>a. \<not> a - q < 4096 \<Longrightarrow> load s' a = load s a"
    and inv': "palloc_inv (pal s')" "\<And>p. 0 < page_refs (pal s) p \<Longrightarrow> 0 < page_refs (pal s') p"
    and kd: "kernel_page_directory_phys s' = kernel_page_directory_phys s"
  shows "as_inv s' D" "table_pages s' D = table_pages s D"
    and "e \<in> D \<Longrightarrow> k < 1023 \<Longrightarrow> l < 1024 \<Longrightarrow> translate s' e k l = translate s e k l"
    and "e \<in> D \<Longrightarrow> k < 1024 \<Longrightarrow> pde s' e k = pde s e k"
proof -
  have t: "load s' (entry_addr t i) = load s (entry_addr t i)" if "t \<in> table_pages s D" "i < 1024" for t i
    using that q table_pages_aligned [OF inv that(1)] by (intro same) (auto simp: entry_addr_in_page)
  show pde: "pde s' e k = pde s e k" if "e \<in> D" "k < 1024" for e k
    using t [OF table_pages_dir [OF that(1)] that(2)] .
  show "as_inv s' D" "table_pages s' D = table_pages s D"
    by (rule as_inv_cong [OF inv inv'(1) kd inv'(2)]; use pde in simp)+
  assume e: "e \<in> D" "k < 1023" "l < 1024"
  show "translate s' e k l = translate s e k l"
    using pde [OF e(1), of k] t [OF table_pagesI [OF e(1,2)] e(3)] e(2) by (simp add: translate_def)
qed

abbreviation cow_flags :: u32 where
  "cow_flags \<equiv> PAGE_PRESENT OR PAGE_USER OR PAGE_COPY_ON_WRITE"

text \<open>The flags of the page once it is writable.\<close>

definition promote :: "u32 \<Rightarrow> u32" where
  "promote f = ((f OR PAGE_WRITABLE) AND NOT PAGE_COPY_ON_WRITE)"

lemma promote_flags:
  assumes "f AND PAGE_FRAME_MASK = 0" "f AND cow_flags = cow_flags"
  shows "promote f AND PAGE_FRAME_MASK = 0" "promote f OR PAGE_PRESENT = promote f"
proof -
  have "promote f AND PAGE_FRAME_MASK = ((f OR PAGE_WRITABLE) AND PAGE_FRAME_MASK) AND NOT PAGE_COPY_ON_WRITE"
    by (simp only: promote_def ac_simps)
  also have "(f OR PAGE_WRITABLE) AND PAGE_FRAME_MASK = 0"
    using assms(1) by (simp add: bit.conj_disj_distrib2)
  finally show "promote f AND PAGE_FRAME_MASK = 0" by simp
  have "f AND PAGE_PRESENT = (f AND cow_flags) AND PAGE_PRESENT" by (simp add: and.assoc)
  then have "f AND PAGE_PRESENT = PAGE_PRESENT" using assms(2) by simp
  moreover have "promote f AND PAGE_PRESENT = ((f OR PAGE_WRITABLE) AND PAGE_PRESENT) AND NOT PAGE_COPY_ON_WRITE"
    by (simp only: promote_def ac_simps)
  ultimately have "promote f AND PAGE_PRESENT = PAGE_PRESENT" by (simp add: bit.conj_disj_distrib2)
  then show "promote f OR PAGE_PRESENT = promote f" by (metis or.commute word_ao_absorbs(8))
qed

lemma lookup_InrD:
  assumes "paging_lookup_page_in d va s = Inr (p, f)"
  shows "d \<noteq> 0" "present (pde s d (page_directory_index va))" "page_aligned p" "f AND PAGE_FRAME_MASK = 0"
    "translate s d (page_directory_index va) (page_table_index va) = p OR f"
proof -
  show d: "d \<noteq> 0" using assms by (auto simp: paging_lookup_page_in_def)
  let ?e = "translate s d (page_directory_index va) (page_table_index va)"
  have e: "present ?e" "p = ?e AND PAGE_FRAME_MASK" "f = ?e AND 0xFFF"
    using assms by (simp_all add: lookup_translate [OF d] Let_def split: if_splits)
  show "present (pde s d (page_directory_index va))" using e(1) by (auto simp: translate_def)
  show "page_aligned p" using table_of_aligned [of ?e] by (simp add: e(2) table_of_def)
  show "f AND PAGE_FRAME_MASK = 0" by (simp add: e(3) and.assoc)
  show "?e = p OR f" using split_mask [of ?e] by (simp add: e)
qed

text \<open>What copy-on-write resolution does to the state, by the reference count of the page.\<close>

lemma cow_resolve_eq:
  assumes inv: "as_inv s D" and d: "d \<in> D" "d \<noteq> kernel_page_directory_phys s"
    and va: "page_aligned va" "user_slot (page_directory_index va)"
    and look: "paging_lookup_page_in d va s = Inr (p, f)"
    and f: "f AND cow_flags = cow_flags" "f AND PAGE_WRITABLE = 0" and live: "0 < page_refs (pal s) p"
  shows "page_refs (pal s) p = 1 \<Longrightarrow>
      paging_resolve_copy_on_write_in d va s = paging_map_page_in d va p (promote f) s"
    and "page_refs (pal s) p \<noteq> 1 \<Longrightarrow> alloc_page s = (0, s1) \<Longrightarrow>
      paging_resolve_copy_on_write_in d va s = (Inl EFAIL, s)"
    and "page_refs (pal s) p \<noteq> 1 \<Longrightarrow> alloc_page s = (q, s1) \<Longrightarrow> q \<noteq> 0 \<Longrightarrow>
      paging_map_page_in d va q (promote f) (copy_page_bytes q p s1) = (Inr (), s2) \<Longrightarrow>
      paging_resolve_copy_on_write_in d va s = (Inr (), release_page p s2)"
proof -
  have va': "va AND NOT (PAGE_SIZE - 1) = va" unfolding page_base_mask using aligned_frame_mask [OF va(1)] .
  have rc: "palloc_page_refcount (pal s) p = 0 \<longleftrightarrow> page_refs (pal s) p = 0"
    "palloc_page_refcount (pal s) p = 1 \<longleftrightarrow> page_refs (pal s) p = 1"
    by (simp_all add: page_refs_def word_unat_eq_iff)
  note unf = paging_resolve_copy_on_write_in_def Let_def va' look promote_def [symmetric]
  note pr = lookup_InrD [OF look]
  have f': "f AND 517 = 517" "f AND PAGE_WRITABLE = 0" using f by simp_all
  obtain r s' where m: "paging_map_page_in d va p (promote f) s = (r, s')" by force
  note ok = map_page_in_present(1) [OF inv d va pr(3,2) m]
  show "paging_resolve_copy_on_write_in d va s = paging_map_page_in d va p (promote f) s"
    if "page_refs (pal s) p = 1" unfolding unf using that m ok by (simp add: rc f')
  show "paging_resolve_copy_on_write_in d va s = (Inl EFAIL, s)"
    if "page_refs (pal s) p \<noteq> 1" "alloc_page s = (0, s1)"
    unfolding unf using that live alloc_page_failD [OF that(2) as_dirD(4) [OF inv]] by (simp add: rc f')
  show "paging_resolve_copy_on_write_in d va s = (Inr (), release_page p s2)"
    if "page_refs (pal s) p \<noteq> 1" "alloc_page s = (q, s1)" "q \<noteq> 0"
      "paging_map_page_in d va q (promote f) (copy_page_bytes q p s1) = (Inr (), s2)"
    unfolding unf using that live by (simp add: rc f')
qed

text \<open>The shared case: the fresh page takes the contents and the mapping, the old one a release.\<close>

lemma cow_split:
  assumes inv: "as_inv s D" and d: "d \<in> D" "d \<noteq> kernel_page_directory_phys s"
    and va: "page_aligned va" "user_slot (page_directory_index va)"
      "present (pde s d (page_directory_index va))"
    and p: "1 < page_refs (pal s) p" "p \<notin> table_pages s D" "p \<noteq> 0" "page_aligned p"
    and al: "alloc_page s = (q, s1)" "q \<noteq> 0"
    and m: "paging_map_page_in d va q g (copy_page_bytes q p s1) = (r, s2)"
  shows "r = Inr ()" "as_inv (release_page p s2) D" "page_refs (pal s) q = 0"
    "page_refs (pal (release_page p s2)) = (page_refs (pal s))(q := 1, p := page_refs (pal s) p - 1)"
    "off < 4096 \<Longrightarrow> load (release_page p s2) (q + off) = load s (p + off)"
    "off < 4096 \<Longrightarrow> page_aligned x \<Longrightarrow> x \<notin> table_pages s D \<Longrightarrow> x \<noteq> q \<Longrightarrow> load (release_page p s2) (x + off) = load s (x + off)"
    "e \<in> D \<Longrightarrow> k < 1023 \<Longrightarrow> l < 1024 \<Longrightarrow> translate (release_page p s2) e k l =
      (if e = d \<and> k = page_directory_index va \<and> l = page_table_index va
       then q OR (g OR PAGE_PRESENT) else translate s e k l)"
    "table_pages (release_page p s2) D \<subseteq> table_pages s D" "q \<notin> table_pages s D"
    "kernel_page_directory_phys (release_page p s2) = kernel_page_directory_phys s"
proof -
  note ok = alloc_page_okD [OF al(1) as_dirD(4) [OF inv] al(2)]
  let ?s1 = "copy_page_bytes q p s1" and ?s' = "release_page p s2"
  have qT: "q \<notin> table_pages s D" "q \<noteq> p" using table_pages_live [OF inv] ok(3) p(1) by fastforce+
  have w: "as_inv ?s1 D" "table_pages ?s1 D = table_pages s D"
    "\<And>e k l. e \<in> D \<Longrightarrow> k < 1023 \<Longrightarrow> l < 1024 \<Longrightarrow> translate ?s1 e k l = translate s e k l"
    "\<And>e k. e \<in> D \<Longrightarrow> k < 1024 \<Longrightarrow> pde ?s1 e k = pde s e k"
    by (rule data_page_write [OF inv ok(2) qT(1)]; simp add: ok)+
  have dk: "d \<noteq> kernel_page_directory_phys ?s1" using d(2) ok(7) by simp
  have pr1: "present (pde ?s1 d (page_directory_index va))" using va(3) w(4) [OF d(1) index_bounds(1)] by simp
  note mp = map_page_in_present [OF w(1) d(1) dk va(1,2) ok(2) pr1 m]
  note mc = map_page_in_cases(3,4) [OF w(1) d(1) dk va(1,2) ok(2) m mp(1)]
  have inv2: "as_inv s2 D" using mc(1) by (simp add: tables_grow_def)
  have pal2: "pal s2 = pal s1" using mp(2) by simp
  have rel: "palloc_inv (pal ?s')" "page_refs (pal ?s') = (page_refs (pal s))(q := 1, p := page_refs (pal s) p - 1)"
    using pages.release_ok [OF ok(1) p(3)] qT(2) by (simp_all add: release_page_def pal2 ok(4))
  have load': "load ?s' a = load s2 a" for a by (rule release_page_sel)
  show "r = Inr ()" "page_refs (pal s) q = 0" using mp(1) ok(3) .
  show "page_refs (pal ?s') = (page_refs (pal s))(q := 1, p := page_refs (pal s) p - 1)" by (rule rel(2))
  show "as_inv ?s' D"
    by (rule as_inv_cong [OF inv2 rel(1)])
      (use p(1) in \<open>auto simp: rel(2) pal2 ok(4) load' release_page_sel split: if_splits\<close>)
  show "translate ?s' e k l = (if e = d \<and> k = page_directory_index va \<and> l = page_table_index va
       then q OR (g OR PAGE_PRESENT) else translate s e k l)" if "e \<in> D" "k < 1023" "l < 1024"
  proof -
    have "translate ?s' e k l = translate s2 e k l" by (simp add: translate_def load')
    then show ?thesis using mc(2) [OF that] w(3) [OF that] by simp
  qed
  have data: "load s2 (x + off) = load ?s1 (x + off)"
    if "off < 4096" "page_aligned x" "x \<notin> table_pages s D" for x off
  proof -
    have "x \<notin> table_pages s2 D" using mp(3) w(2) that(3) by blast
    then have "outside_tables s2 D (x + off)" using outside_tablesI [OF inv2 that(2)] that(1) by simp
    then show ?thesis using mc(1) unfolding tables_grow_def by blast
  qed
  show "load ?s' (q + off) = load s (p + off)" if "off < 4096"
    using data [OF that ok(2) qT(1)] that by (simp add: load' ok(5) add.commute)
  show "load ?s' (x + off) = load s (x + off)" if "off < 4096" "page_aligned x" "x \<notin> table_pages s D" "x \<noteq> q"
    using data [OF that(1-3)] that same_frame [OF that(2) ok(2), of "x + off"] by (auto simp: load' ok(5))
  have "table_pages ?s' D = table_pages s2 D" by (simp add: table_pages_def load')
  then show "table_pages ?s' D \<subseteq> table_pages s D" using mp(3) w(2) by simp
  show "q \<notin> table_pages s D" by (rule qT(1))
  show "kernel_page_directory_phys ?s' = kernel_page_directory_phys s"
    using mc(1) ok(7) by (simp add: tables_grow_def release_page_sel)
qed

text \<open>The effect of copy-on-write resolution on memory, reference counts and translations.\<close>

lemma cow_effect:
  assumes inv: "as_inv s D" and d: "d \<in> D" "d \<noteq> kernel_page_directory_phys s"
    and va: "page_aligned va" "USER_VIRT_BASE \<le> va" "va < USER_VIRT_LIMIT"
    and look: "paging_lookup_page_in d va s = Inr (p, f)"
    and f: "f AND cow_flags = cow_flags" "f AND PAGE_WRITABLE = 0"
    and p: "0 < page_refs (pal s) p" "p \<notin> table_pages s D" "p \<noteq> 0"
    and run: "paging_resolve_copy_on_write_in d va s = (r, s')"
  shows "case r of
      Inl _ \<Rightarrow> s' = s \<and> 1 < page_refs (pal s) p \<and> fst (alloc_page s) = 0
    | Inr _ \<Rightarrow> as_inv s' D \<and> table_pages s' D \<subseteq> table_pages s D
        \<and> kernel_page_directory_phys s' = kernel_page_directory_phys s \<and> (\<exists>q.
        (if page_refs (pal s) p = 1 then q = p \<and> pal s' = pal s
         else page_refs (pal s) q = 0
           \<and> page_refs (pal s') = (page_refs (pal s))(q := 1, p := page_refs (pal s) p - 1))
        \<and> page_aligned q \<and> q \<noteq> 0 \<and> q \<notin> table_pages s D
        \<and> (\<forall>off<4096. load s' (q + off) = load s (p + off))
        \<and> (\<forall>x off. off < 4096 \<longrightarrow> page_aligned x \<longrightarrow> x \<notin> table_pages s D \<longrightarrow> x \<noteq> q \<longrightarrow> load s' (x + off) = load s (x + off))
        \<and> (\<forall>e\<in>D. \<forall>wa. page_directory_index wa \<noteq> RECURSIVE_DIRECTORY_INDEX \<longrightarrow>
             paging_lookup_page_in e wa s' =
               (if e = d \<and> wa AND PAGE_FRAME_MASK = va then Inr (q, promote f)
                else paging_lookup_page_in e wa s)))"
proof -
  note us = user_slot_va [OF va(2,3)] and pr = lookup_InrD [OF look]
  note eq = cow_resolve_eq [OF inv d va(1) us look f p(1)]
  note fl = promote_flags [OF pr(4) f(1)]
  have look': "paging_lookup_page_in e wa t' =
      (if e = d \<and> wa AND PAGE_FRAME_MASK = va then Inr (q, promote f) else paging_lookup_page_in e wa s)"
    if e: "e \<in> D" "page_directory_index wa \<noteq> 1023" and q: "page_aligned q"
      and tr: "\<And>e k l. e \<in> D \<Longrightarrow> k < 1023 \<Longrightarrow> l < 1024 \<Longrightarrow> translate t' e k l =
        (if e = d \<and> k = page_directory_index va \<and> l = page_table_index va
         then q OR promote f else translate s e k l)" for e wa t' q
  proof -
    have "present (q OR promote f)" by (subst fl(2) [symmetric]) (simp add: present_or)
    moreover have "page_directory_index wa < 1023" using e(2) index_bounds(1) [of wa] by linarith
    ultimately show ?thesis using tr [OF e(1), of "page_directory_index wa" "page_table_index wa"]
      by (simp add: lookup_translate as_dirD(1) [OF inv e(1)] Let_def page_of_eq [OF va(1)]
          frame_or_flags [OF q fl(1)])
  qed
  show ?thesis
  proof (cases "page_refs (pal s) p = 1")
    case True
    have m: "paging_map_page_in d va p (promote f) s = (r, s')" using eq(1) [OF True] run by simp
    note mp = map_page_in_present [OF inv d va(1) us pr(3,2) m]
    note mc = map_page_in_cases(3,4) [OF inv d va(1) us pr(3) m mp(1)]
    have ld: "load s' (x + off) = load s (x + off)" if "off < 4096" "page_aligned x" "x \<notin> table_pages s D" for x off
      using mc(1) outside_tablesI [of s' D x "x + off"] mp(3) that
      by (auto simp: tables_grow_def)
    have g: "as_inv s' D" "kernel_page_directory_phys s' = kernel_page_directory_phys s"
      using mc(1) by (simp_all add: tables_grow_def)
    note lk = look' [OF _ _ pr(3) mc(2) [unfolded fl(2)]]
    show ?thesis unfolding mp(1) sum.case using True mp(2,3) ld [OF _ pr(3) p(2)] p pr(3)
      by (intro conjI exI [of _ p] allI impI ballI g ld lk) auto
  next
    case False
    then have p1: "1 < page_refs (pal s) p" using p(1) by simp
    obtain q s1 where al: "alloc_page s = (q, s1)" by force
    show ?thesis
    proof (cases "q = 0")
      case True
      then show ?thesis using eq(2) [OF False] al run p1 by simp
    next
      case q0: False
      obtain r2 s2 where m: "paging_map_page_in d va q (promote f) (copy_page_bytes q p s1) = (r2, s2)" by force
      note sp = cow_split [OF inv d va(1) us pr(2) p1 p(2,3) pr(3) al q0 m]
      have s': "r = Inr ()" "s' = release_page p s2" using eq(3) [OF False al q0] m sp(1) run by simp_all
      note qa = alloc_page_okD(2) [OF al as_dirD(4) [OF inv] q0]
      note lk = look' [OF _ _ qa sp(7) [unfolded fl(2)]]
      show ?thesis unfolding s' sum.case using False q0 sp(3,4)
        by (intro conjI exI [of _ q] allI impI ballI sp(2,5,6,8-10) qa lk) auto
    qed
  qed
qed

text \<open>
  C10. Resolving a write fault on a copy-on-write page of an address space: the faulting page becomes
  writable and maps a page with the same contents; the page is the old one when it has a single
  reference and otherwise a private copy, for which the old page loses one reference and keeps its
  contents. No other translation of any address space changes. It fails, changing nothing, only
  when the page is shared and no page is free.
\<close>

theorem paging_resolve_copy_on_write_correct:
  assumes inv: "as_inv s D" and d: "d \<in> D" "d \<noteq> kernel_page_directory_phys s"
    and va: "page_aligned va" "USER_VIRT_BASE \<le> va" "va < USER_VIRT_LIMIT"
    and look: "paging_lookup_page_in d va s = Inr (p, f)"
    and f: "f AND cow_flags = cow_flags" "f AND PAGE_WRITABLE = 0"
    and p: "0 < page_refs (pal s) p" "p \<notin> table_pages s D" "p \<noteq> 0"
    and run: "paging_resolve_copy_on_write_in d va s = (r, s')"
  shows "case r of
      Inl _ \<Rightarrow> s' = s \<and> 1 < page_refs (pal s) p \<and> fst (alloc_page s) = 0
    | Inr _ \<Rightarrow> as_inv s' D \<and> (\<exists>q.
        (if page_refs (pal s) p = 1 then q = p \<and> pal s' = pal s
         else page_refs (pal s) q = 0
           \<and> page_refs (pal s') = (page_refs (pal s))(q := 1, p := page_refs (pal s) p - 1))
        \<and> (\<forall>off<4096. load s' (q + off) = load s (p + off) \<and> load s' (p + off) = load s (p + off))
        \<and> (\<forall>e\<in>D. \<forall>wa. page_directory_index wa \<noteq> RECURSIVE_DIRECTORY_INDEX \<longrightarrow>
             paging_lookup_page_in e wa s' =
               (if e = d \<and> wa AND PAGE_FRAME_MASK = va then Inr (q, promote f)
                else paging_lookup_page_in e wa s)))"
proof (cases r)
  case (Inl e)
  then show ?thesis using cow_effect [OF assms] by simp
next
  case (Inr u)
  from cow_effect [OF assms, unfolded Inr sum.case] obtain q where i: "as_inv s' D"
    and q: "if page_refs (pal s) p = 1 then q = p \<and> pal s' = pal s
      else page_refs (pal s) q = 0 \<and> page_refs (pal s') = (page_refs (pal s))(q := 1, p := page_refs (pal s) p - 1)"
    and c: "\<forall>off<4096. load s' (q + off) = load s (p + off)"
    and x: "\<forall>x off. off < 4096 \<longrightarrow> page_aligned x \<longrightarrow> x \<notin> table_pages s D \<longrightarrow> x \<noteq> q \<longrightarrow> load s' (x + off) = load s (x + off)"
    and l: "\<forall>e\<in>D. \<forall>wa. page_directory_index wa \<noteq> RECURSIVE_DIRECTORY_INDEX \<longrightarrow>
       paging_lookup_page_in e wa s' =
         (if e = d \<and> wa AND PAGE_FRAME_MASK = va then Inr (q, promote f) else paging_lookup_page_in e wa s)"
    by blast
  have "load s' (p + off) = load s (p + off)" if "off < 4096" for off
    using c x that p(2) lookup_InrD(3) [OF look] by (cases "p = q") simp_all
  then show ?thesis unfolding Inr sum.case using i q c l by blast
qed

section \<open>User range checks\<close>

lemma user_page_loop_iff:
  "user_page_loop ok c e \<longleftrightarrow> (\<forall>i. c + 4096 * i < e \<longrightarrow> ok (of_nat (c + 4096 * i)))"
proof (induction ok c e rule: user_page_loop.induct)
  case (1 ok c e)
  define P where "P n = ok (of_nat n)" for n
  have step: "(\<forall>i. c + 4096 * i < e \<longrightarrow> P (c + 4096 * i)) \<longleftrightarrow>
      (c < e \<longrightarrow> P c) \<and> (\<forall>i. c + 4096 + 4096 * i < e \<longrightarrow> P (c + 4096 + 4096 * i))"
    (is "?L \<longleftrightarrow> ?R")
  proof
    assume L: ?L
    show ?R using spec [OF L, of 0] spec [OF L, of "Suc i" for i] by (simp add: add.assoc)
  next
    assume R: ?R
    show ?L
    proof (intro allI impI)
      fix i assume "c + 4096 * i < e"
      with R show "P (c + 4096 * i)" by (cases i) (simp_all add: add.assoc)
    qed
  qed
  show ?case
    using 1 step unfolding P_def [symmetric]
    by (cases "c < e"; cases "P c") (simp_all add: user_page_loop.simps [of ok c] flip: P_def)
qed

text \<open>The checks visit exactly the pages of the byte range, and refuse a range outside user space.\<close>

lemma user_range_pages:
  assumes page: "\<And>a. ok a = ok (a AND PAGE_FRAME_MASK)" and e: "e \<le> 4294967296" "unat va < e"
  shows "user_page_loop ok (unat (va AND PAGE_FRAME_MASK)) e \<longleftrightarrow>
    (\<forall>a. unat va \<le> unat a \<longrightarrow> unat a < e \<longrightarrow> ok a)"
  unfolding user_page_loop_iff unat_frame_mask
proof (intro iffI allI impI)
  fix a :: u32
  let ?c = "4096 * (unat va div 4096)" and ?i = "unat a div 4096 - unat va div 4096"
  assume L: "\<forall>i. ?c + 4096 * i < e \<longrightarrow> ok (of_nat (?c + 4096 * i))" and a: "unat va \<le> unat a" "unat a < e"
  have i: "?c + 4096 * ?i = unat (a AND PAGE_FRAME_MASK)"
    using div_le_mono [OF a(1), of 4096] unfolding unat_frame_mask add_mult_distrib2 [symmetric] by simp
  have "4096 * (unat a div 4096) < e" using a(2) times_div_less_eq_dividend order_le_less_trans by blast
  then have "ok (of_nat (unat (a AND PAGE_FRAME_MASK)))"
    using spec [OF L, of ?i] unfolding i by (simp add: unat_frame_mask)
  then show "ok a" using page [of a] by simp
next
  fix i
  let ?c = "4096 * (unat va div 4096)"
  assume R: "\<forall>a. unat va \<le> unat a \<longrightarrow> unat a < e \<longrightarrow> ok a" and i: "?c + 4096 * i < e"
  show "ok (of_nat (?c + 4096 * i))"
  proof (cases i)
    case 0
    have "of_nat ?c = va AND PAGE_FRAME_MASK"
      using i 0 e(1) unfolding word_unat_eq_iff unat_frame_mask by (intro unat_of_nat_u32) simp
    then show ?thesis using R e(2) page [of va] 0 by simp
  next
    case (Suc j)
    have "unat va < ?c + 4096" using mod_less_divisor [of 4096 "unat va"] mult_div_mod_eq [of 4096 "unat va"] by linarith
    then have "unat va \<le> ?c + 4096 * i" by (simp add: Suc)
    moreover have "unat (of_nat (?c + 4096 * i) :: u32) = ?c + 4096 * i" using i e(1) by (intro unat_of_nat_u32) simp
    ultimately show ?thesis using R i by presburger
  qed
qed

lemma user_range_check_iff:
  assumes page: "\<And>a. ok a = ok (a AND PAGE_FRAME_MASK)"
  shows "user_range_check ok d va n \<longleftrightarrow> d \<noteq> 0 \<and> (n = 0 \<or>
    USER_VIRT_BASE \<le> va \<and> unat va + unat n \<le> unat USER_VIRT_LIMIT \<and>
    (\<forall>a. unat va \<le> unat a \<longrightarrow> unat a < unat va + unat n \<longrightarrow> ok a))"
proof (cases "d = 0 \<or> n = 0")
  case False
  let ?e = "unat va + unat n"
  have n: "unat va < ?e" using False by (simp add: unat_gt_0)
  have g: "va + n < va \<longleftrightarrow> \<not> ?e < 4294967296"
    using unat_u32_lt [of va] unat_u32_lt [of n]
    unfolding word_less_nat_alt unat_plus_if' by (auto simp del: unat_u32_lt)
  have sum: "unat (va + n) = ?e" if "?e < 4294967296" using that by (rule unat_add_u32)
  show ?thesis
  proof (cases "?e \<le> unat USER_VIRT_LIMIT")
    case True
    then have e: "?e < 4294967296" by simp
    then have "\<not> USER_VIRT_LIMIT < va + n" using sum True by (simp add: word_less_nat_alt)
    then show ?thesis
      using False g e True user_range_pages [of ok ?e va, OF page _ n] sum [OF e]
      unfolding user_range_check_def page_base_mask Let_def by (auto simp: not_less)
  next
    case nl: False
    have "USER_VIRT_LIMIT < va + n" if "?e < 4294967296" using sum [OF that] nl by (simp add: word_less_nat_alt)
    then show ?thesis using False g nl unfolding user_range_check_def Let_def by auto
  qed
qed (auto simp: user_range_check_def)

lemma and_present_user: "(x :: u32) AND 5 = 5 \<longleftrightarrow> present x \<and> x AND PAGE_USER \<noteq> 0"
proof -
  have five: "(5 :: u32) = push_bit 0 1 OR push_bit 2 1" by simp
  have b5: "bit (5 :: u32) n \<longleftrightarrow> n = 0 \<or> n = 2" for n
    unfolding five bit_or_iff bit_push_bit_iff bit_1_iff by auto
  have "present x \<longleftrightarrow> bit x 0" "x AND PAGE_USER \<noteq> 0 \<longleftrightarrow> bit x 2"
    using mask_test [of x 0] mask_test [of x 2] by simp_all
  moreover have "x AND 5 = 5 \<longleftrightarrow> bit x 0 \<and> bit x 2"
    by (subst bit_eq_iff) (simp only: bit_and_iff b5, auto dest: spec [of _ 0] spec [of _ 2])
  ultimately show ?thesis by simp
qed

text \<open>
  C11. The check of a user buffer for reading accepts exactly the byte ranges inside user space every
  byte of which is translated with the user flag in the directory and in the table entry; a range
  that wraps or reaches kernel addresses is refused.
\<close>

theorem paging_user_range_mapped_iff:
  "paging_user_range_mapped_in d va n s \<longleftrightarrow> d \<noteq> 0 \<and> (n = 0 \<or>
     USER_VIRT_BASE \<le> va \<and> unat va + unat n \<le> unat USER_VIRT_LIMIT \<and>
     (\<forall>a. unat va \<le> unat a \<longrightarrow> unat a < unat va + unat n \<longrightarrow>
        pde s d (page_directory_index a) AND 5 = 5 \<and>
        (\<exists>p f. paging_lookup_page_in d a s = Inr (p, f) \<and> f AND PAGE_USER \<noteq> 0)))"
proof (cases "d = 0")
  case False
  define ok where "ok = (\<lambda>current_page.
         let pde = load s (entry_addr d (page_directory_index current_page)) in
         if pde AND (PAGE_PRESENT OR PAGE_USER) \<noteq> PAGE_PRESENT OR PAGE_USER then False
         else load s (entry_addr (table_of pde) (page_table_index current_page))
                AND (PAGE_PRESENT OR PAGE_USER) = PAGE_PRESENT OR PAGE_USER)"
  have pg: "ok a = ok (a AND PAGE_FRAME_MASK)" for a
    using page_of_eq [of "a AND PAGE_FRAME_MASK" a] table_of_aligned [of a]
    by (simp add: ok_def table_of_def)
  have "ok a \<longleftrightarrow> pde s d (page_directory_index a) AND 5 = 5 \<and>
        (\<exists>p f. paging_lookup_page_in d a s = Inr (p, f) \<and> f AND PAGE_USER \<noteq> 0)" for a
  proof -
    have "(x AND 0xFFF) AND PAGE_USER = x AND PAGE_USER" for x :: u32 by (simp add: and.assoc)
    then show ?thesis
      using False by (auto simp: ok_def Let_def lookup_translate translate_def and_present_user)
  qed
  then show ?thesis
    using user_range_check_iff [of ok, OF pg, of d va n]
    unfolding paging_user_range_mapped_in_def ok_def [symmetric] by simp
qed (simp add: paging_user_range_mapped_in_def user_range_check_def)

section \<open>A concrete address space\<close>

text \<open>
  A small machine: the kernel directory at 0x1000 is empty, a user directory at 0x2000 has one
  table at 0x3000, which maps the first user page copy-on-write onto the page at 0x4000; that page
  has two references.
\<close>

definition demo_mem :: mem_state where
  "demo_mem = \<lparr>pm = (\<lambda>_. 0)(entry_addr 0x2000 1 := 0x3007, entry_addr 0x3000 0 := 0x4205,
       entry_addr 0x4000 0 := 42),
     pal = gap_state\<lparr>frame_refcounts := (frame_refcounts gap_state)(4 := 2)\<rparr>,
     cr3 = 0x1000, kernel_page_directory_phys = 0x1000, direct_map_limit = 0x400000\<rparr>"

lemma demo_pal_inv: "palloc_inv (pal demo_mem)"
proof -
  have "frame_is_used (pal demo_mem) f = frame_is_used gap_state f" for f
    by (simp add: demo_mem_def)
  moreover from this have "free_set (pal demo_mem) = free_set gap_state" by (simp add: free_set_def)
  ultimately show ?thesis
    using gap_state_inv by (auto simp: palloc_inv_def palloc_core_def demo_mem_def gap_state_used)
qed

lemma demo_refs:
  "page_refs (pal demo_mem) 0x1000 = 1" "page_refs (pal demo_mem) 0x2000 = 1"
  "page_refs (pal demo_mem) 0x3000 = 1" "page_refs (pal demo_mem) 0x4000 = 2"
  by (simp_all add: page_refs_def palloc_page_refcount_def demo_mem_def gap_state_used gap_state_sel
      word_le_nat_alt)

lemma demo_aligned:
  "page_aligned 0x1000" "page_aligned 0x2000" "page_aligned 0x3000" "page_aligned 0x4000"
  by (simp_all add: page_aligned_def)

lemma demo_kernel: "kernel_page_directory_phys demo_mem = 0x1000"
  by (simp add: demo_mem_def)

lemma demo_pde: "i < 1024 \<Longrightarrow> d \<in> {0x1000, 0x2000} \<Longrightarrow>
    pde demo_mem d i = (if d = 0x2000 \<and> i = 1 then 0x3007 else 0)"
  by (auto simp: demo_mem_def load_def entry_addr_eq demo_aligned)

lemma demo_as_inv: "as_inv demo_mem {0x1000, 0x2000}"
  unfolding as_inv_def
  by (auto simp: demo_pal_inv demo_refs demo_pde user_slot_def page_aligned_def table_of_def demo_kernel)

lemma demo_index:
  "page_directory_index 0x401000 = 1" "page_table_index 0x401000 = 1"
  "page_directory_index 0x400000 = 1" "page_table_index 0x400000 = 0"
  by (simp_all add: index_unat)

lemma demo_lookup: "paging_lookup_page_in 0x2000 0x400000 demo_mem = Inr (0x4000, 0x205)"
proof -
  have "load demo_mem (entry_addr 0x3000 0) = 0x4205"
    using demo_aligned by (simp add: demo_mem_def load_def entry_addr_eq)
  then show ?thesis by (simp add: lookup_translate translate_def demo_index demo_pde table_of_def)
qed

lemma demo_map_ok: "fst (paging_map_page_in 0x2000 0x401000 0x4000 7 demo_mem) = Inr ()"
proof -
  obtain r s' where run: "paging_map_page_in 0x2000 0x401000 0x4000 7 demo_mem = (r, s')" by force
  have "r = Inr ()"
    by (rule map_page_in_present(1) [OF demo_as_inv _ _ _ _ _ _ run])
      (simp_all add: demo_kernel page_aligned_def demo_index demo_pde user_slot_def)
  then show ?thesis by (simp add: run)
qed

theorem paging_map_page_in_correct_witness:
  "paging_lookup_page_in 0x2000 0x401234 (snd (paging_map_page_in 0x2000 0x401000 0x4000 7 demo_mem))
     = Inr (0x4000, 7)
   \<and> paging_lookup_page_in 0x2000 0x400000 (snd (paging_map_page_in 0x2000 0x401000 0x4000 7 demo_mem))
     = Inr (0x4000, 0x205)"
proof -
  obtain r s' where run: "paging_map_page_in 0x2000 0x401000 0x4000 7 demo_mem = (r, s')" by force
  have r: "r = Inr ()" using demo_map_ok run by simp
  have ix: "page_directory_index 0x401234 = 1" by (simp add: index_unat)
  have "as_inv s' {0x1000, 0x2000} \<and> (case r of
      Inl _ \<Rightarrow> s' = demo_mem \<and> fst (alloc_page demo_mem) = 0
    | Inr _ \<Rightarrow> \<forall>e\<in>{0x1000, 0x2000}. \<forall>wa. page_directory_index wa \<noteq> RECURSIVE_DIRECTORY_INDEX \<longrightarrow>
        paging_lookup_page_in e wa s' =
          (if e = 0x2000 \<and> wa AND PAGE_FRAME_MASK = 0x401000 then Inr (0x4000, 7 OR PAGE_PRESENT)
           else paging_lookup_page_in e wa demo_mem))"
    by (rule paging_map_page_in_correct [OF demo_as_inv _ _ _ _ _ _ _ run])
      (simp_all add: demo_kernel page_aligned_def)
  then show ?thesis using demo_index demo_lookup ix by (simp add: r run)
qed

theorem paging_unmap_page_in_correct_witness:
  "paging_lookup_page_in 0x2000 0x400000 (paging_unmap_page_in 0x2000 0x400000 demo_mem) = Inl EFAIL"
  using paging_unmap_page_in_correct [OF demo_as_inv, of "0x2000" "0x400000"] demo_index
  by (simp add: demo_kernel page_aligned_def)

lemma demo_alloc: "fst (alloc_page demo_mem) \<noteq> 0"
proof
  assume "fst (alloc_page demo_mem) = 0"
  then obtain x where "palloc_alloc_page (pal demo_mem) = (0, x)"
    by (auto simp: alloc_page_def split: prod.splits)
  then have "free_set (pal demo_mem) = {}" using palloc_alloc_page_fail(2) [OF demo_pal_inv] by blast
  moreover have "258 \<in> free_set (pal demo_mem)"
    by (simp add: free_set_def demo_mem_def gap_state_used MAX_PAGE_FRAMES_def)
  ultimately show False by simp
qed

theorem paging_create_address_space_correct_witness:
  "paging_lookup_page_in (fst (paging_create_address_space demo_mem)) 0x400000
     (snd (paging_create_address_space demo_mem)) = Inl EFAIL
   \<and> fst (paging_create_address_space demo_mem) \<noteq> 0"
proof -
  have "fst (paging_create_address_space demo_mem) \<noteq> 0"
    using demo_alloc by (auto simp: paging_create_address_space_def Let_def split: prod.splits)
  then show ?thesis
    using paging_create_address_space_correct [OF demo_as_inv prod.collapse [symmetric]] demo_index
    by (auto simp: user_slot_def)
qed

theorem paging_resolve_copy_on_write_correct_witness:
  "\<exists>q s'. paging_resolve_copy_on_write_in 0x2000 0x400000 demo_mem = (Inr (), s')
     \<and> paging_lookup_page_in 0x2000 0x400000 s' = Inr (q, 7) \<and> q \<noteq> 0x4000
     \<and> load s' q = 42 \<and> page_refs (pal s') 0x4000 = 1"
proof -
  obtain r s' where run: "paging_resolve_copy_on_write_in 0x2000 0x400000 demo_mem = (r, s')" by force
  have tp: "0x4000 \<notin> table_pages demo_mem {0x1000, 0x2000}"
    by (auto simp: table_pages_def demo_pde table_of_def split: if_splits)
  have w: "load demo_mem 0x4000 = 42" by (simp add: load_def demo_mem_def entry_addr_def)
  have pr: "promote 0x205 = 7" by (simp add: promote_def)
  note cow = paging_resolve_copy_on_write_correct [OF demo_as_inv _ _ _ _ _ demo_lookup _ _ _ tp _ run]
  show ?thesis
  proof (cases r)
    case (Inl e)
    then show ?thesis using cow demo_alloc by (simp add: demo_kernel page_aligned_def demo_refs)
  next
    case (Inr u)
    then obtain q where q: "page_refs (pal demo_mem) q = 0"
        "page_refs (pal s') = (page_refs (pal demo_mem))(q := 1, 0x4000 := 1)"
        "\<forall>off<4096. load s' (q + off) = load demo_mem (0x4000 + off)"
        "paging_lookup_page_in 0x2000 0x400000 s' = Inr (q, 7)"
      using cow demo_index by (auto simp: demo_kernel page_aligned_def demo_refs pr)
    have "q \<noteq> 0x4000" using q(1) demo_refs by auto
    then show ?thesis using Inr run q w spec [OF q(3), of 0] by auto
  qed
qed

theorem paging_user_range_mapped_iff_witness:
  "paging_user_range_mapped_in 0x2000 0x400010 16 demo_mem
   \<and> \<not> paging_user_range_mapped_in 0x2000 0xBFFFFFF0 32 demo_mem"
proof -
  have "pde demo_mem 0x2000 (page_directory_index a) AND 5 = 5 \<and>
      (\<exists>p f. paging_lookup_page_in 0x2000 a demo_mem = Inr (p, f) \<and> f AND PAGE_USER \<noteq> 0)"
    if "unat (0x400010 :: u32) \<le> unat a" "unat a < unat (0x400010 :: u32) + unat (16 :: u32)" for a
  proof -
    have "unat a div 4096 = 1024" using that by simp
    then have ix: "page_directory_index a = 1" "page_table_index a = 0" using that by (simp_all add: index_unat)
    from this show ?thesis
      using demo_lookup by (simp add: lookup_translate translate_def demo_index demo_pde)
  qed
  then show ?thesis
    unfolding paging_user_range_mapped_iff by (simp add: word_le_nat_alt)
qed

end
