(* ===== verification/Word_Mem.thy ===== *)
theory Word_Mem
  imports Prelude
begin

text \<open>
  Byte access to a memory of 32-bit words. A memory maps the address of an aligned word to its value; the
  byte at an address is the one the little-endian machine stores there.
\<close>

definition word_addr :: "u32 \<Rightarrow> u32" where
  "word_addr a = a AND NOT 3"

definition byte_pos :: "u32 \<Rightarrow> nat" where
  "byte_pos a = 8 * unat (a AND 3)"

definition load_byte :: "(u32 \<Rightarrow> u32) \<Rightarrow> u32 \<Rightarrow> u8" where
  "load_byte m a = ucast (drop_bit (byte_pos a) (m (word_addr a)))"

definition store_byte :: "u32 \<Rightarrow> u8 \<Rightarrow> (u32 \<Rightarrow> u32) \<Rightarrow> u32 \<Rightarrow> u32" where
  "store_byte a b m =
     m(word_addr a := (m (word_addr a) AND NOT (push_bit (byte_pos a) (mask 8))) OR push_bit (byte_pos a) (ucast b))"

definition load_bytes :: "(u32 \<Rightarrow> u32) \<Rightarrow> u32 \<Rightarrow> nat \<Rightarrow> u8 list" where
  "load_bytes m a n = map (\<lambda>i. load_byte m (a + of_nat i)) [0..<n]"

fun store_bytes :: "u32 \<Rightarrow> u8 list \<Rightarrow> (u32 \<Rightarrow> u32) \<Rightarrow> u32 \<Rightarrow> u32" where
  "store_bytes a [] m = m"
| "store_bytes a (b # bs) m = store_bytes (a + 1) bs (store_byte a b m)"

lemma and3_lt: "unat (a AND 3 :: u32) < 4"
proof -
  have "a AND 3 = take_bit 2 a" by (simp add: take_bit_eq_mask mask_eq_exp_minus_1)
  then show ?thesis by (simp add: take_bit_eq_mod unat_mod)
qed

lemma byte_pos_cases: "byte_pos a \<in> {0, 8, 16, 24}"
proof -
  consider "unat (a AND 3) = 0" | "unat (a AND 3) = 1" | "unat (a AND 3) = 2" | "unat (a AND 3) = 3"
    using and3_lt [of a] by linarith
  then show ?thesis by cases (simp_all add: byte_pos_def)
qed

lemma addr_split: "a = b \<longleftrightarrow> word_addr a = word_addr b \<and> byte_pos a = byte_pos (b :: u32)"
proof -
  have "a = (a AND NOT 3) OR (a AND 3)" for a :: u32 by (rule bit_eqI) (auto simp: bit_simps)
  then show ?thesis by (metis byte_pos_def word_addr_def word_unat_eq_iff mult_cancel1 zero_neq_numeral)
qed

lemma bit_load_byte: "n < 8 \<Longrightarrow> bit (load_byte m a) n = bit (m (word_addr a)) (byte_pos a + n)"
  by (simp add: load_byte_def bit_simps)

lemma load_store_byte: "load_byte (store_byte a b m) a' = (if a = a' then b else load_byte m a')"
proof (rule bit_eqI)
  fix n assume "possible_bit TYPE(u8) n"
  then have n: "n < 8" by simp
  have p: "byte_pos a \<in> {0, 8, 16, 24}" "byte_pos a' \<in> {0, 8, 16, 24}" by (rule byte_pos_cases)+
  show "bit (load_byte (store_byte a b m) a') n = bit (if a = a' then b else load_byte m a') n"
  proof (cases "word_addr a = word_addr a'")
    case False
    then show ?thesis using n by (auto simp: bit_load_byte store_byte_def)
  next
    case True
    then have w: "store_byte a b m (word_addr a') = (m (word_addr a') AND NOT (push_bit (byte_pos a) (mask 8))) OR push_bit (byte_pos a) (ucast b)"
      by (simp add: store_byte_def)
    show ?thesis
      unfolding bit_load_byte [OF n] w addr_split [of a a'] using p n True
      by (auto simp: bit_simps bit_load_byte dest: bit_imp_le_length)
  qed
qed

lemma load_store_bytes:
  assumes "length bs \<le> 4294967295"
  shows "load_byte (store_bytes a bs m) x = (if unat (x - a) < length bs then bs ! unat (x - a) else load_byte m x)"
  using assms
proof (induction bs arbitrary: a m)
  case (Cons b bs)
  have "unat (x - (a + 1)) = (if x = a then 4294967295 else unat (x - a) - 1)"
  proof (cases "x = a")
    case False
    then have "x - a \<noteq> 0" by simp
    then have "unat (x - a - 1) = unat (x - a) - 1" by (simp add: unat_sub unat_gt_0 word_le_nat_alt Suc_leI)
    then show ?thesis using False by (simp add: diff_diff_eq [symmetric])
  next
    case True
    then show ?thesis by (simp add: unsigned_minus_1_eq_mask mask_eq_exp_minus_1)
  qed
  then show ?case using Cons by (auto simp: load_store_byte nth_Cons' unat_eq_zero)
qed simp

lemma load_bytes_nth: "i < n \<Longrightarrow> load_bytes m a n ! i = load_byte m (a + of_nat i)"
  by (simp add: load_bytes_def)

lemma length_load_bytes [simp]: "length (load_bytes m a n) = n"
  by (simp add: load_bytes_def)

lemma load_bytes_store:
  assumes "length bs \<le> 4294967295"
  shows "load_bytes (store_bytes a bs m) a (length bs) = bs"
proof (rule nth_equalityI)
  fix i assume "i < length (load_bytes (store_bytes a bs m) a (length bs))"
  then have i: "i < length bs" by simp
  then have "unat (of_nat i :: u32) = i" using assms by (intro unat_of_nat_u32) linarith
  then show "load_bytes (store_bytes a bs m) a (length bs) ! i = bs ! i"
    using i assms by (simp add: load_bytes_nth load_store_bytes)
qed simp

lemma store_bytes_append: "store_bytes a (xs @ ys) m = store_bytes (a + of_nat (length xs)) ys (store_bytes a xs m)"
  by (induction xs arbitrary: a m) (simp_all add: add.assoc add.commute add.left_commute)

lemma load_bytes_add: "load_bytes m a (n + k) = load_bytes m a n @ load_bytes m (a + of_nat n) k"
  by (rule nth_equalityI) (auto simp: load_bytes_def nth_append add.assoc simp flip: of_nat_add)

end
