(* ===== verification/Kheap.thy ===== *)
theory Kheap
  imports Paging Word_Mem
begin

text \<open>
  The kernel heap, \<^verbatim>\<open>src/kernel/kheap.c\<close>: a doubly linked list of blocks that tile the heap's address
  range, first-fit allocation with splitting, and coalescing on release. The words of the heap, block headers
  and payload alike, are the store \<open>hw\<close> by virtual address; the frames behind them come from the page
  allocator and the page tables of \<open>km\<close>. A null pointer is the address 0. A walk along the list that never
  ends is the value \<open>None\<close>.
\<close>

section \<open>State\<close>

abbreviation KERNEL_HEAP_BASE :: u32 where "KERNEL_HEAP_BASE \<equiv> 0xF8000000"
abbreviation KERNEL_HEAP_LIMIT :: u32 where "KERNEL_HEAP_LIMIT \<equiv> 0xFC000000"
abbreviation KHEAP_ALIGN :: u32 where "KHEAP_ALIGN \<equiv> 16"
abbreviation KHEAP_INITIAL_PAGES :: u32 where "KHEAP_INITIAL_PAGES \<equiv> 4"
abbreviation KHEAP_MIN_SPLIT :: u32 where "KHEAP_MIN_SPLIT \<equiv> 32"

record kheap_state =
  km :: mem_state
  hw :: "u32 \<Rightarrow> u32"
  heap_head :: u32
  heap_end :: u32
  committed_pages :: u32
  kheap_ready :: bool

text \<open>The four words of a block header and the update of one word.\<close>

definition blk_size :: "kheap_state \<Rightarrow> u32 \<Rightarrow> u32" where "blk_size s b = hw s b"
definition blk_free :: "kheap_state \<Rightarrow> u32 \<Rightarrow> u32" where "blk_free s b = hw s (b + 4)"
definition blk_next :: "kheap_state \<Rightarrow> u32 \<Rightarrow> u32" where "blk_next s b = hw s (b + 8)"
definition blk_prev :: "kheap_state \<Rightarrow> u32 \<Rightarrow> u32" where "blk_prev s b = hw s (b + 12)"

definition poke :: "u32 \<Rightarrow> u32 \<Rightarrow> kheap_state \<Rightarrow> kheap_state" where
  "poke a v s = s\<lparr>hw := (hw s)(a := v)\<rparr>"

section \<open>Operations\<close>

definition align_up_size :: "u32 \<Rightarrow> u32 \<Rightarrow> u32" where
  "align_up_size value alignment = (value + alignment - 1) AND NOT (alignment - 1)"

partial_function (option) last_from :: "kheap_state \<Rightarrow> u32 \<Rightarrow> u32 option" where
  "last_from s block = (if blk_next s block = 0 then Some block else last_from s (blk_next s block))"

definition kheap_last_block :: "kheap_state \<Rightarrow> u32 option" where
  "kheap_last_block s = (if heap_head s = 0 then Some 0 else last_from s (heap_head s))"

definition kheap_split_block :: "u32 \<Rightarrow> u32 \<Rightarrow> kheap_state \<Rightarrow> kheap_state" where
  "kheap_split_block block len s =
     (if block = 0 \<or> blk_size s block < len + KHEAP_MIN_SPLIT then s
      else
        let tail = block + 16 + len;
            s1 = poke tail (blk_size s block - len - 16) s;
            s2 = poke (tail + 4) 1 s1;
            s3 = poke (tail + 8) (blk_next s2 block) s2;
            s4 = poke (tail + 12) block s3;
            s5 = (if blk_next s4 tail \<noteq> 0 then poke (blk_next s4 tail + 12) tail s4 else s4)
        in poke (block + 8) tail (poke block len s5))"

definition kheap_coalesce_forward :: "u32 \<Rightarrow> kheap_state \<Rightarrow> kheap_state" where
  "kheap_coalesce_forward block s =
     (if block = 0 \<or> blk_free s block = 0 then s
      else
        let nxt = blk_next s block in
        if nxt = 0 \<or> blk_free s nxt = 0 then s
        else
          let s1 = poke block (blk_size s block + (16 + blk_size s nxt)) s;
              s2 = poke (block + 8) (blk_next s1 nxt) s1
          in if blk_next s2 block \<noteq> 0 then poke (blk_next s2 block + 12) block s2 else s2)"

definition kheap_coalesce :: "u32 \<Rightarrow> kheap_state \<Rightarrow> kheap_state" where
  "kheap_coalesce block s =
     (if block = 0 then s
      else if blk_prev s block \<noteq> 0 \<and> blk_free s (blk_prev s block) \<noteq> 0
      then kheap_coalesce_forward (blk_prev s block) (kheap_coalesce_forward (blk_prev s block) s)
      else kheap_coalesce_forward block s)"

text \<open>Growing the heap page by page; a failure takes back the pages mapped so far.\<close>

fun unmap_heap_pages :: "nat \<Rightarrow> kheap_state \<Rightarrow> kheap_state" where
  "unmap_heap_pages 0 s = s"
| "unmap_heap_pages (Suc mapped) s =
     (let va = heap_end s - PAGE_SIZE;
          phys = paging_resolve_physical_in (paging_current_directory_phys (km s)) va (km s);
          m = (if phys \<noteq> 0 then release_page phys (paging_unmap_page va (km s)) else km s)
      in unmap_heap_pages mapped (s\<lparr>heap_end := va, km := m\<rparr>))"

fun map_heap_pages :: "nat \<Rightarrow> nat \<Rightarrow> kheap_state \<Rightarrow> unit result \<times> kheap_state" where
  "map_heap_pages 0 mapped s = (Inr (), s)"
| "map_heap_pages (Suc n) mapped s =
     (let (phys, m1) = alloc_page (km s) in
      if phys = 0 then (Inl EFAIL, unmap_heap_pages mapped (s\<lparr>km := m1\<rparr>))
      else
        case paging_map_page (heap_end s) phys PAGE_WRITABLE m1 of
          (Inl e, m2) \<Rightarrow> (Inl EFAIL, unmap_heap_pages mapped (s\<lparr>km := m2\<rparr>))
        | (Inr _, m2) \<Rightarrow>
            map_heap_pages n (Suc mapped)
              (s\<lparr>km := m2, hw := (\<lambda>a. if a - heap_end s < PAGE_SIZE then 0 else hw s a),
                 heap_end := heap_end s + PAGE_SIZE, committed_pages := committed_pages s + 1\<rparr>))"

definition kheap_expand :: "u32 \<Rightarrow> kheap_state \<Rightarrow> (unit result \<times> kheap_state) option" where
  "kheap_expand minimum_payload s =
     (let minimum_bytes = align_up_size (minimum_payload + 16) PAGE_SIZE;
          pages0 = minimum_bytes div PAGE_SIZE;
          expansion_base = heap_end s;
          pages = (if pages0 < KHEAP_INITIAL_PAGES then KHEAP_INITIAL_PAGES else pages0) in
      if heap_end s + pages * PAGE_SIZE > KERNEL_HEAP_LIMIT then Some (Inl EFAIL, s)
      else
        case map_heap_pages (unat pages) 0 s of
          (Inl e, s1) \<Rightarrow> Some (Inl EFAIL, s1\<lparr>heap_end := expansion_base\<rparr>)
        | (Inr _, s1) \<Rightarrow>
            let block = expansion_base;
                s2 = poke (block + 12) 0 (poke (block + 8) 0 (poke (block + 4) 1 (poke block (pages * PAGE_SIZE - 16) s1)))
            in case kheap_last_block s2 of
                 None \<Rightarrow> None
               | Some tail \<Rightarrow>
                   if tail = 0 then Some (Inr (), s2\<lparr>heap_head := block\<rparr>)
                   else Some (Inr (), kheap_coalesce block (poke (block + 12) tail (poke (tail + 8) block s2))))"

definition kheap_init :: "kheap_state \<Rightarrow> kheap_state option" where
  "kheap_init s =
     (let s1 = s\<lparr>heap_head := 0, heap_end := KERNEL_HEAP_BASE, committed_pages := 0, kheap_ready := False\<rparr> in
      case kheap_expand PAGE_SIZE s1 of
        None \<Rightarrow> None
      | Some (Inl e, s2) \<Rightarrow> Some s2
      | Some (Inr _, s2) \<Rightarrow> Some (s2\<lparr>kheap_ready := True\<rparr>))"

text \<open>The first free block that is large enough, or 0.\<close>

partial_function (option) find_from :: "kheap_state \<Rightarrow> u32 \<Rightarrow> u32 \<Rightarrow> u32 option" where
  "find_from s block len =
     (if block = 0 then Some 0
      else if blk_free s block = 0 \<or> blk_size s block < len then find_from s (blk_next s block) len
      else Some block)"

partial_function (option) kmalloc_loop :: "u32 \<Rightarrow> kheap_state \<Rightarrow> (u32 \<times> kheap_state) option" where
  "kmalloc_loop aligned_size s =
     (case find_from s (heap_head s) aligned_size of
        None \<Rightarrow> None
      | Some block \<Rightarrow>
          if block \<noteq> 0 then Some (block + 16, poke (block + 4) 0 (kheap_split_block block aligned_size s))
          else
            case kheap_expand aligned_size s of
              None \<Rightarrow> None
            | Some (Inl e, s1) \<Rightarrow> Some (0, s1)
            | Some (Inr u, s1) \<Rightarrow> kmalloc_loop aligned_size s1)"

definition kmalloc :: "u32 \<Rightarrow> kheap_state \<Rightarrow> (u32 \<times> kheap_state) option" where
  "kmalloc len s = (if \<not> kheap_ready s \<or> len = 0 then Some (0, s) else kmalloc_loop (align_up_size len KHEAP_ALIGN) s)"

definition kzalloc :: "u32 \<Rightarrow> kheap_state \<Rightarrow> (u32 \<times> kheap_state) option" where
  "kzalloc len s =
     (case kmalloc len s of
        None \<Rightarrow> None
      | Some (buffer, s1) \<Rightarrow>
          if buffer \<noteq> 0 then Some (buffer, s1\<lparr>hw := store_bytes buffer (replicate (unat len) 0) (hw s1)\<rparr>)
          else Some (buffer, s1))"

definition kfree :: "u32 \<Rightarrow> kheap_state \<Rightarrow> kheap_state" where
  "kfree pointer s =
     (if pointer = 0 then s
      else let block = pointer - 16 in kheap_coalesce block (poke (block + 4) 1 s))"

definition kheap_selftest :: "kheap_state \<Rightarrow> (unit result \<times> kheap_state) option" where
  "kheap_selftest s =
     (case kmalloc 24 s of
        None \<Rightarrow> None
      | Some (first, s1) \<Rightarrow>
         (case kzalloc 64 s1 of
            None \<Rightarrow> None
          | Some (second, s2) \<Rightarrow>
              if first = 0 \<or> second = 0 then Some (Inl EFAIL, kfree second (kfree first s2))
              else
                let s3 = s2\<lparr>hw := store_bytes first (map (\<lambda>index. of_nat (index + 1)) [0..<24]) (hw s2)\<rparr> in
                if load_bytes (hw s3) second 64 \<noteq> replicate 64 0 then Some (Inl EFAIL, kfree second (kfree first s3))
                else
                  case kmalloc 16 (kfree first s3) of
                    None \<Rightarrow> None
                  | Some (third, s4) \<Rightarrow>
                      if third = 0 then Some (Inl EFAIL, kfree second s4)
                      else Some (Inr (), kfree second (kfree third s4))))"

definition kheap_committed_pages :: "kheap_state \<Rightarrow> u32" where
  "kheap_committed_pages s = committed_pages s"

section \<open>The list of blocks\<close>

text \<open>
  A heap is described by its cells from the base upwards: the payload size of each block and whether it is free.
  \<open>seg w p a cells q\<close> says that the cells lie at \<open>a\<close> in the memory \<open>w\<close>, that the first block's back pointer is
  \<open>p\<close> and the last block's forward pointer is \<open>q\<close>.
\<close>

type_synonym cell = "nat \<times> bool"

fun seg :: "(u32 \<Rightarrow> u32) \<Rightarrow> u32 \<Rightarrow> u32 \<Rightarrow> cell list \<Rightarrow> u32 \<Rightarrow> bool" where
  "seg w p a [] q = True"
| "seg w p a ((n, f) # cs) q =
     (w a = of_nat n \<and> (w (a + 4) \<noteq> 0) = f \<and> w (a + 12) = p \<and>
      w (a + 8) = (if cs = [] then q else a + 16 + of_nat n) \<and> seg w a (a + 16 + of_nat n) cs q)"

definition extent :: "cell list \<Rightarrow> nat" where
  "extent cs = (\<Sum>(n, f)\<leftarrow>cs. 16 + n)"

lemma extent_simps [simp]: "extent [] = 0" "extent (c # cs) = 16 + fst c + extent cs" "extent (xs @ ys) = extent xs + extent ys"
  by (simp_all add: extent_def case_prod_beta)

lemma extent_ge: "cs \<noteq> [] \<Longrightarrow> 16 \<le> extent cs"
  by (cases cs) auto

text \<open>The address of the last block of a segment, or the block before it.\<close>

fun last_blk :: "u32 \<Rightarrow> u32 \<Rightarrow> cell list \<Rightarrow> u32" where
  "last_blk p a [] = p"
| "last_blk p a ((n, f) # cs) = last_blk a (a + 16 + of_nat n) cs"

lemma seg_append:
  "seg w p a (xs @ ys) q \<longleftrightarrow>
     seg w p a xs (if ys = [] then q else a + of_nat (extent xs)) \<and> seg w (last_blk p a xs) (a + of_nat (extent xs)) ys q"
  by (induction xs arbitrary: p a) (auto simp: algebra_simps)

lemma last_blk_append: "last_blk p a (xs @ ys) = last_blk (last_blk p a xs) (a + of_nat (extent xs)) ys"
  by (induction xs arbitrary: p a) (auto simp: algebra_simps)

text \<open>A word outside the segment's range does not matter to it.\<close>

definition within :: "u32 \<Rightarrow> nat \<Rightarrow> u32 \<Rightarrow> bool" where
  "within a n x \<longleftrightarrow> unat a \<le> unat x \<and> unat x < unat a + n"

lemma seg_cong:
  assumes "unat a + extent cs < 4294967296" "\<And>x. within a (extent cs) x \<Longrightarrow> w x = w' x"
  shows "seg w p a cs q = seg w' p a cs q"
  using assms
proof (induction cs arbitrary: p a)
  case (Cons c cs)
  obtain n f where c: "c = (n, f)" by (cases c)
  have b: "unat a + 16 + n + extent cs < 4294967296" using Cons.prems c by simp
  have u: "unat (a + 16 + of_nat n) = unat a + 16 + n" using b by (simp add: unat_add_u32 unat_of_nat_u32)
  have d: "unat (a + 4) = unat a + 4" "unat (a + 8) = unat a + 8" "unat (a + 12) = unat a + 12"
    using b by (simp_all add: unat_add_u32)
  have "w a = w' a" "w (a + 4) = w' (a + 4)" "w (a + 8) = w' (a + 8)" "w (a + 12) = w' (a + 12)"
    by (rule Cons.prems(2), simp add: within_def d c)+
  moreover have "w x = w' x" if "within (a + 16 + of_nat n) (extent cs) x" for x
    using that u by (intro Cons.prems(2)) (simp add: within_def c)
  then have "seg w a (a + 16 + of_nat n) cs q = seg w' a (a + 16 + of_nat n) cs q"
    using b u by (intro Cons.IH) simp_all
  ultimately show ?case by (simp add: c)
qed simp

lemma seg_upd:
  assumes "unat a + extent cs < 4294967296" "\<not> within a (extent cs) x"
  shows "seg (w(x := v)) p a cs q = seg w p a cs q"
  using assms by (intro seg_cong) auto

text \<open>Changing where the neighbours of a segment are.\<close>

lemma seg_prev:
  assumes "seg w p a cs q" "cs \<noteq> []" "unat a + extent cs < 4294967296"
  shows "seg (w(a + 12 := p')) p' a cs q"
proof -
  obtain n f cs' where c: "cs = (n, f) # cs'" using assms(2) by (metis list.exhaust surj_pair)
  have b: "unat a + 16 + n + extent cs' < 4294967296" using assms(3) c by simp
  have "unat (a + 16 + of_nat n) = unat a + 16 + n" "unat (a + 12) = unat a + 12" "unat (a + 4) = unat a + 4" "unat (a + 8) = unat a + 8"
    using b by (simp_all add: unat_add_u32 unat_of_nat_u32)
  then have "\<not> within (a + 16 + of_nat n) (extent cs') (a + 12)" "unat (a + 16 + of_nat n) + extent cs' < 4294967296"
    using b by (auto simp: within_def)
  then show ?thesis using assms(1) seg_upd unfolding c by simp
qed

text \<open>Headers of different blocks do not overlap, nor do the words of one header.\<close>

lemma hdr_words [simp]:
  "(b :: u32) \<noteq> b + 4" "b \<noteq> b + 8" "b \<noteq> b + 12" "b + 4 \<noteq> b" "b + 8 \<noteq> b" "b + 12 \<noteq> b"
  "b + 4 \<noteq> b + 8" "b + 4 \<noteq> b + 12" "b + 8 \<noteq> b + 12" "b + 8 \<noteq> b + 4" "b + 12 \<noteq> b + 4" "b + 12 \<noteq> b + 8"
  by simp_all

lemma hdr_apart:
  fixes b t :: u32
  assumes "unat b + 16 \<le> unat t" "unat t + 16 \<le> 4294967296"
  shows "b \<noteq> t" "b \<noteq> t + 4" "b \<noteq> t + 8" "b \<noteq> t + 12"
    "b + 4 \<noteq> t" "b + 4 \<noteq> t + 4" "b + 4 \<noteq> t + 8" "b + 4 \<noteq> t + 12"
    "b + 8 \<noteq> t" "b + 8 \<noteq> t + 4" "b + 8 \<noteq> t + 8" "b + 8 \<noteq> t + 12"
    "b + 12 \<noteq> t" "b + 12 \<noteq> t + 4" "b + 12 \<noteq> t + 8" "b + 12 \<noteq> t + 12"
proof -
  have "unat (b + 4) = unat b + 4" "unat (b + 8) = unat b + 8" "unat (b + 12) = unat b + 12"
    "unat (t + 4) = unat t + 4" "unat (t + 8) = unat t + 8" "unat (t + 12) = unat t + 12"
    using assms by (simp_all add: unat_add_u32)
  then show "b \<noteq> t" "b \<noteq> t + 4" "b \<noteq> t + 8" "b \<noteq> t + 12"
    "b + 4 \<noteq> t" "b + 4 \<noteq> t + 4" "b + 4 \<noteq> t + 8" "b + 4 \<noteq> t + 12"
    "b + 8 \<noteq> t" "b + 8 \<noteq> t + 4" "b + 8 \<noteq> t + 8" "b + 8 \<noteq> t + 12"
    "b + 12 \<noteq> t" "b + 12 \<noteq> t + 4" "b + 12 \<noteq> t + 8" "b + 12 \<noteq> t + 12"
    using assms by (auto simp: word_unat_eq_iff)
qed

section \<open>Searching\<close>

text \<open>The first cell that is free and large enough, with the cells before and after it.\<close>

fun first_fit :: "nat \<Rightarrow> cell list \<Rightarrow> (cell list \<times> nat \<times> cell list) option" where
  "first_fit k [] = None"
| "first_fit k ((n, f) # cs) =
     (if f \<and> k \<le> n then Some ([], n, cs) else map_option (\<lambda>(xs, m, ys). ((n, f) # xs, m, ys)) (first_fit k cs))"

lemma first_fit_Some: "first_fit k cs = Some (xs, n, ys) \<Longrightarrow> cs = xs @ (n, True) # ys \<and> k \<le> n"
  by (induction cs arbitrary: xs) (auto split: if_splits)

lemma first_fit_None: "first_fit k cs = None \<Longrightarrow> (n, True) \<in> set cs \<Longrightarrow> n < k"
  by (induction cs) (auto split: if_splits)

lemma find_from_seg:
  assumes "seg (hw s) p a cs 0" "unat a + extent cs < 4294967296" "a \<noteq> 0"
  shows "find_from s (if cs = [] then 0 else a) k =
    Some (case first_fit (unat k) cs of None \<Rightarrow> 0 | Some (xs, n, ys) \<Rightarrow> a + of_nat (extent xs))"
  using assms
proof (induction cs arbitrary: p a)
  case Nil
  then show ?case by (simp add: find_from.simps)
next
  case (Cons c cs)
  obtain n f where c: "c = (n, f)" by (cases c)
  have b: "unat a + 16 + n + extent cs < 4294967296" using Cons.prems c by simp
  have u: "unat (a + 16 + of_nat n) = unat a + 16 + n" "unat (of_nat n :: u32) = n"
    using b by (simp_all add: unat_add_u32 unat_of_nat_u32)
  then have nz: "a + 16 + of_nat n \<noteq> 0" by (metis add_is_0 numeral_neq_zero unat_0)
  have h: "blk_size s a = of_nat n" "(blk_free s a = 0) = (\<not> f)" "blk_next s a = (if cs = [] then 0 else a + 16 + of_nat n)"
    "seg (hw s) a (a + 16 + of_nat n) cs 0"
    using Cons.prems(1) by (auto simp: c blk_size_def blk_free_def blk_next_def)
  have small: "blk_size s a < k \<longleftrightarrow> n < unat k" using h(1) u(2) by (simp add: word_less_nat_alt)
  show ?case
  proof (cases "f \<and> unat k \<le> n")
    case True
    then show ?thesis using Cons.prems(3) h small by (simp add: c find_from.simps)
  next
    case False
    then have "find_from s a k = find_from s (if cs = [] then 0 else a + 16 + of_nat n) k"
      using Cons.prems(3) h(2,3) small by (subst find_from.simps) auto
    then show ?thesis
      using Cons.IH [OF h(4) _ nz] b u False by (auto simp: c algebra_simps split: option.splits)
  qed
qed

section \<open>Splitting and marking\<close>

lemma poke_sel [simp]:
  "hw (poke a v s) = (hw s)(a := v)" "heap_head (poke a v s) = heap_head s" "heap_end (poke a v s) = heap_end s"
  "kheap_ready (poke a v s) = kheap_ready s" "km (poke a v s) = km s" "committed_pages (poke a v s) = committed_pages s"
  by (simp_all add: poke_def)

lemma split_sel [simp]:
  "heap_head (kheap_split_block b k s) = heap_head s" "heap_end (kheap_split_block b k s) = heap_end s"
  "kheap_ready (kheap_split_block b k s) = kheap_ready s"
  by (simp_all add: kheap_split_block_def Let_def)

lemma coalesce_forward_sel [simp]:
  "heap_head (kheap_coalesce_forward b s) = heap_head s" "heap_end (kheap_coalesce_forward b s) = heap_end s"
  "kheap_ready (kheap_coalesce_forward b s) = kheap_ready s"
  by (simp_all add: kheap_coalesce_forward_def Let_def)

lemma coalesce_sel [simp]:
  "heap_head (kheap_coalesce b s) = heap_head s" "heap_end (kheap_coalesce b s) = heap_end s"
  "kheap_ready (kheap_coalesce b s) = kheap_ready s"
  by (simp_all add: kheap_coalesce_def)

text \<open>The block of a cell inside a segment, and what is around it.\<close>

lemma seg_block:
  assumes "seg w p a (xs @ (n, f) # ys) q" "unat a + extent (xs @ (n, f) # ys) < 4294967296"
  obtains b where "b = a + of_nat (extent xs)" "unat b = unat a + extent xs" "unat (b + 16 + of_nat n) = unat b + 16 + n"
    "seg w p a xs b" "w b = of_nat n" "(w (b + 4) \<noteq> 0) = f" "w (b + 12) = last_blk p a xs"
    "w (b + 8) = (if ys = [] then q else b + 16 + of_nat n)" "seg w b (b + 16 + of_nat n) ys q"
    "unat b + 16 + n + extent ys < 4294967296"
proof
  let ?b = "a + of_nat (extent xs)"
  show u: "unat ?b = unat a + extent xs" using assms(2) by (simp add: unat_add_u32 unat_of_nat_u32)
  show "unat (?b + 16 + of_nat n) = unat ?b + 16 + n" using assms(2) u by (simp add: unat_add_u32 unat_of_nat_u32)
  show "unat ?b + 16 + n + extent ys < 4294967296" using assms(2) u by simp
qed (use assms(1) in \<open>auto simp: seg_append\<close>)

lemma seg_mark:
  assumes "seg w p a (xs @ (n, f) # ys) q" "unat a + extent (xs @ (n, f) # ys) < 4294967296" "(v \<noteq> 0) = g"
  shows "seg (w(a + of_nat (extent xs) + 4 := v)) p a (xs @ (n, g) # ys) q"
proof -
  from assms(1,2) obtain b where b: "b = a + of_nat (extent xs)" "unat b = unat a + extent xs" "unat (b + 16 + of_nat n) = unat b + 16 + n"
    and s: "seg w p a xs b" "w b = of_nat n" "w (b + 12) = last_blk p a xs"
      "w (b + 8) = (if ys = [] then q else b + 16 + of_nat n)" "seg w b (b + 16 + of_nat n) ys q"
    and l: "unat b + 16 + n + extent ys < 4294967296"
    by (rule seg_block)
  have "unat (b + 4) = unat b + 4" using l by (simp add: unat_add_u32)
  then have "\<not> within a (extent xs) (b + 4)" "\<not> within (b + 16 + of_nat n) (extent ys) (b + 4)"
    using b by (auto simp: within_def)
  then show ?thesis using s b(2,3) l assms(3) unfolding b(1) [symmetric] seg_append by (simp add: seg_upd flip: b(1))
qed

lemma split_seg:
  assumes "seg (hw s) p a (xs @ (n, f) # ys) 0" "unat a + extent (xs @ (n, f) # ys) < 4294967296" "a \<noteq> 0"
    and k: "k + 32 \<le> n"
  shows "seg (hw (kheap_split_block (a + of_nat (extent xs)) (of_nat k) s)) p a (xs @ (k, f) # (n - k - 16, True) # ys) 0"
proof -
  from assms(1,2) obtain b where b: "b = a + of_nat (extent xs)" "unat b = unat a + extent xs" "unat (b + 16 + of_nat n) = unat b + 16 + n"
    and s: "seg (hw s) p a xs b" "hw s b = of_nat n" "(hw s (b + 4) \<noteq> 0) = f" "hw s (b + 12) = last_blk p a xs"
      "hw s (b + 8) = (if ys = [] then 0 else b + 16 + of_nat n)" "seg (hw s) b (b + 16 + of_nat n) ys 0"
    and l: "unat b + 16 + n + extent ys < 4294967296"
    by (rule seg_block)
  define t where "t = b + 16 + of_nat k"
  define c where "c = b + 16 + of_nat n"
  have ut: "unat t = unat b + 16 + k" using l k by (simp add: t_def unat_add_u32 unat_of_nat_u32)
  have uc: "unat c = unat b + 16 + n" using b(3) by (simp add: c_def)
  have bt: "unat b + 16 \<le> unat t" "unat t + 16 \<le> 4294967296" "unat t + 16 \<le> unat c" using ut uc l k by simp_all
  have ne: "b \<noteq> 0" "c \<noteq> 0" using assms(3) b(2) uc by (auto simp: word_unat_eq_iff)
  have cut: "hw s b \<ge> of_nat k + KHEAP_MIN_SPLIT" "of_nat n - of_nat k - (16 :: u32) = of_nat (n - k - 16)"
    using s(2) l k by (simp_all add: word_le_nat_alt unat_add_u32 unat_of_nat_u32 of_nat_diff)
  note apart = hdr_apart [OF bt(1,2)] hdr_apart [OF bt(1,2), symmetric]
  have ys: "\<not> within c (extent ys) x" if "unat x < unat c" for x using that by (auto simp: within_def)
  have ux: "unat (b + 4) = unat b + 4" "unat (b + 8) = unat b + 8" "unat (t + 4) = unat t + 4" "unat (t + 8) = unat t + 8" "unat (t + 12) = unat t + 12"
    using bt l ut k by (simp_all add: unat_add_u32)
  define w0 where "w0 = (hw s)(t := of_nat (n - k - 16), t + 4 := 1, t + 8 := (if ys = [] then 0 else c), t + 12 := b)"
  define w1 where "w1 = (if ys = [] then w0 else w0(c + 12 := t))"
  have tail: "seg w1 t c ys 0"
  proof (cases "ys = []")
    case False
    have "seg w0 b c ys 0" using s(6) seg_upd ys ux ut bt l uc by (simp add: w0_def flip: c_def)
    then show ?thesis using False seg_prev [of w0 b c ys 0 t] l uc by (simp add: w1_def)
  qed simp
  have "\<not> hw s b < of_nat k + KHEAP_MIN_SPLIT" using cut(1) by simp
  then have hw: "hw (kheap_split_block b (of_nat k) s) = w1(b := of_nat k, b + 8 := t)"
    using ne s(2,5) apart cut(2)
    by (simp add: kheap_split_block_def Let_def blk_size_def blk_next_def w0_def w1_def flip: t_def c_def)
  have c16: "unat c + 16 \<le> 4294967296" if "ys \<noteq> []" using extent_ge [OF that] l uc by simp
  have w1: "w1 x = hw s x" if xt: "unat x < unat t" for x
  proof -
    have "x \<noteq> t" "x \<noteq> t + 4" "x \<noteq> t + 8" "x \<noteq> t + 12" using xt ux(3-5) by auto
    moreover have "x \<noteq> c + 12" if "ys \<noteq> []" using c16 [OF that] xt bt(3) by (auto simp: unat_add_u32)
    ultimately show ?thesis by (simp add: w1_def w0_def)
  qed
  have "seg (w1(b := of_nat k, b + 8 := t)) p a xs b"
  proof -
    have "(w1(b := of_nat k, b + 8 := t)) x = hw s x" if "within a (extent xs) x" for x
      using that w1 [of x] b(2) ux(2) bt(1) by (auto simp: within_def)
    then show ?thesis using s(1) seg_cong [of a xs "w1(b := of_nat k, b + 8 := t)" "hw s"] b(2) l by auto
  qed
  moreover have "w1 (b + 4) = hw s (b + 4)" "w1 (b + 12) = hw s (b + 12)" using w1 ux(1) bt(1,2) l by (simp_all add: unat_add_u32)
  moreover have "w1 t = of_nat (n - k - 16)" "w1 (t + 4) = 1" "w1 (t + 12) = b" "w1 (t + 8) = (if ys = [] then 0 else c)"
    using hdr_apart [OF bt(3)] c16 by (auto simp: w1_def w0_def)
  moreover have "seg (w1(b := of_nat k, b + 8 := t)) t c ys 0"
    using tail seg_upd [of c ys] ys ux(2) uc l by simp
  moreover have "t + 16 + of_nat (n - k - 16) = c" unfolding cut(2) [symmetric] by (simp add: t_def c_def)
  ultimately show ?thesis
    using s(3,4) apart unfolding b(1) [symmetric] hw seg_append by (simp flip: b(1) t_def c_def)
qed

section \<open>Coalescing\<close>

text \<open>A free first cell absorbs a free second one.\<close>

fun merge :: "cell list \<Rightarrow> cell list" where
  "merge ((n, True) # (m, True) # cs) = (n + 16 + m, True) # cs"
| "merge cs = cs"

lemma extent_merge [simp]: "extent (merge cs) = extent cs"
  by (induction cs rule: merge.induct) auto

lemma coalesce_forward_seg:
  assumes sg: "seg (hw s) p a (xs @ (n, f) # rest) 0" and len: "unat a + extent (xs @ (n, f) # rest) < 4294967296" and a: "a \<noteq> 0"
  shows "seg (hw (kheap_coalesce_forward (a + of_nat (extent xs)) s)) p a (xs @ merge ((n, f) # rest)) 0"
proof -
  from sg len obtain b where b: "b = a + of_nat (extent xs)" "unat b = unat a + extent xs" "unat (b + 16 + of_nat n) = unat b + 16 + n"
    and s: "seg (hw s) p a xs b" "hw s b = of_nat n" "(hw s (b + 4) \<noteq> 0) = f" "hw s (b + 12) = last_blk p a xs"
      "hw s (b + 8) = (if rest = [] then 0 else b + 16 + of_nat n)" "seg (hw s) b (b + 16 + of_nat n) rest 0"
    and l: "unat b + 16 + n + extent rest < 4294967296"
    by (rule seg_block)
  define c where "c = b + 16 + of_nat n"
  have uc: "unat c = unat b + 16 + n" using b(3) by (simp add: c_def)
  have ne: "b \<noteq> 0" "c \<noteq> 0" using a b(2) uc by (auto simp: word_unat_eq_iff)
  show ?thesis
  proof (cases "f \<and> (\<exists>m ys. rest = (m, True) # ys)")
    case False
    then have "merge ((n, f) # rest) = (n, f) # rest" by (cases f; cases rest) (auto split: bool.splits)
    moreover have "kheap_coalesce_forward b s = s"
      using False s(3,5,6) ne by (cases rest) (auto simp: kheap_coalesce_forward_def blk_free_def blk_next_def Let_def)
    ultimately show ?thesis using sg by (simp flip: b(1))
  next
    case True
    then obtain m ys where r: "rest = (m, True) # ys" and f: "f" by blast
    define d where "d = c + 16 + of_nat m"
    have l': "unat c + 16 + m + extent ys < 4294967296" using l uc r by simp
    have ud: "unat d = unat c + 16 + m" using l' by (simp add: d_def unat_add_u32 unat_of_nat_u32)
    have nd: "d \<noteq> 0" using ne ud by (auto simp: word_unat_eq_iff)
    have t: "hw s c = of_nat m" "hw s (c + 4) \<noteq> 0" "hw s (c + 8) = (if ys = [] then 0 else d)" "seg (hw s) c d ys 0"
      using s(6) by (simp_all add: r flip: c_def d_def)
    define w1 where "w1 = (hw s)(b := of_nat (n + 16 + m), b + 8 := (if ys = [] then 0 else d))"
    define w2 where "w2 = (if ys = [] then w1 else w1(d + 12 := b))"
    have bc: "unat b + 16 \<le> unat c" "unat c + 16 \<le> 4294967296" using uc l' by simp_all
    have ux: "unat (b + 8) = unat b + 8" using bc by (simp add: unat_add_u32)
    have d16: "unat d + 16 \<le> 4294967296" if "ys \<noteq> []" using extent_ge [OF that] l' ud by simp
    have hw: "hw (kheap_coalesce_forward b s) = w2"
    proof -
      have "hw s (b + 8) = c" using s(5) r by (simp add: c_def)
      then show ?thesis
        using ne f s(2,3) t(1-3) hdr_apart [OF bc] hdr_apart [OF bc, symmetric] nd
        by (simp add: kheap_coalesce_forward_def blk_free_def blk_next_def blk_size_def Let_def w1_def w2_def add.assoc)
    qed
    have w2: "w2 x = hw s x" if x: "unat x < unat c" "x \<noteq> b" "x \<noteq> b + 8" for x
    proof -
      have "x \<noteq> d + 12" if "ys \<noteq> []" using d16 [OF that] x(1) ud by (auto simp: unat_add_u32)
      then show ?thesis using x by (simp add: w2_def w1_def)
    qed
    have "seg w2 p a xs b"
    proof -
      have "w2 x = hw s x" if "within a (extent xs) x" for x using that b(2) bc ux by (intro w2) (auto simp: within_def)
      then show ?thesis using s(1) seg_cong [of a xs w2 "hw s"] b(2) l by auto
    qed
    moreover have "seg w2 b d ys 0"
    proof (cases "ys = []")
      case False
      have "seg w1 c d ys 0" using t(4) seg_upd [of d ys] ud l' bc ux by (simp add: w1_def within_def)
      then show ?thesis using False seg_prev [of w1 c d ys 0 b] ud l' by (simp add: w2_def)
    qed simp
    moreover have "w2 (b + 4) = hw s (b + 4)" "w2 (b + 12) = hw s (b + 12)" using bc by (auto intro!: w2 simp: unat_add_u32)
    moreover have "w2 b = of_nat (n + 16 + m)" "w2 (b + 8) = (if ys = [] then 0 else d)"
      using hdr_apart [of b d] d16 bc ud by (auto simp: w2_def w1_def)
    moreover have "b + 16 + of_nat (n + 16 + m) = d" by (simp add: d_def c_def)
    ultimately show ?thesis using s(3,4) f r unfolding b(1) [symmetric] hw seg_append by (simp flip: b(1))
  qed
qed

text \<open>Joining the cells \<open>rest\<close>, the first of which has just become free, to the cells before it.\<close>

definition joined :: "cell list \<Rightarrow> cell list \<Rightarrow> cell list" where
  "joined xs rest =
     (if xs \<noteq> [] \<and> snd (last xs) then butlast xs @ merge (merge (last xs # rest)) else xs @ merge rest)"

lemma coalesce_seg:
  assumes sg: "seg (hw s) 0 a (xs @ (n, True) # ys) 0" and len: "unat a + extent (xs @ (n, True) # ys) < 4294967296" and a: "a \<noteq> 0"
  shows "seg (hw (kheap_coalesce (a + of_nat (extent xs)) s)) 0 a (joined xs ((n, True) # ys)) 0"
proof -
  from sg len obtain b where b: "b = a + of_nat (extent xs)" "unat b = unat a + extent xs"
    and s: "hw s (b + 12) = last_blk 0 a xs"
    by (rule seg_block)
  have nb: "b \<noteq> 0" using a b(2) by (auto simp: word_unat_eq_iff)
  have "seg (hw (kheap_coalesce b s)) 0 a (joined xs ((n, True) # ys)) 0"
  proof (cases "xs = []")
    case True
    then have "kheap_coalesce b s = kheap_coalesce_forward b s" using s nb by (simp add: kheap_coalesce_def blk_prev_def)
    then show ?thesis using True coalesce_forward_seg [OF sg len a, folded b(1)] by (simp add: joined_def)
  next
    case False
    then obtain zs m g where x: "xs = zs @ [(m, g)]" by (metis append_butlast_last_id surj_pair)
    from sg len obtain c where c: "c = a + of_nat (extent zs)" "unat c = unat a + extent zs"
      and t: "(hw s (c + 4) \<noteq> 0) = g"
      unfolding x append.assoc append_Cons append_Nil by (rule seg_block)
    have nc: "c \<noteq> 0" using a c(2) by (auto simp: word_unat_eq_iff)
    have l: "last_blk 0 a xs = c" by (simp add: x last_blk_append c(1))
    have sg': "seg (hw s) 0 a (zs @ (m, g) # (n, True) # ys) 0" "unat a + extent (zs @ (m, g) # (n, True) # ys) < 4294967296"
      using sg len by (simp_all add: x)
    show ?thesis
    proof (cases g)
      case True
      note m1 = coalesce_forward_seg [OF sg' a]
      obtain k zs' where k: "merge ((m, g) # (n, True) # ys) = (k, True) # zs'" using True by simp
      have "unat a + extent (zs @ (k, True) # zs') < 4294967296" using sg'(2) k extent_merge [of "(m, g) # (n, True) # ys"] by simp
      from coalesce_forward_seg [OF m1 [unfolded k] this a]
      have "seg (hw (kheap_coalesce_forward c (kheap_coalesce_forward c s))) 0 a (zs @ merge ((k, True) # zs')) 0"
        by (simp flip: c(1))
      moreover have "kheap_coalesce b s = kheap_coalesce_forward c (kheap_coalesce_forward c s)"
        using nb nc s l t True by (simp add: kheap_coalesce_def blk_prev_def blk_free_def)
      ultimately show ?thesis using True k by (simp add: joined_def x)
    next
      case False
      then have "kheap_coalesce b s = kheap_coalesce_forward b s"
        using nb nc s l t by (simp add: kheap_coalesce_def blk_prev_def blk_free_def)
      then show ?thesis using False coalesce_forward_seg [OF sg len a, folded b(1)] by (simp add: joined_def x)
    qed
  qed
  then show ?thesis by (simp add: b(1))
qed

section \<open>Allocated regions and the invariant\<close>

text \<open>The payload ranges of the blocks in use, as pairs of address and size.\<close>

fun regions :: "nat \<Rightarrow> cell list \<Rightarrow> (nat \<times> nat) set" where
  "regions a [] = {}"
| "regions a ((n, f) # cs) = (if f then {} else {(a + 16, n)}) \<union> regions (a + 16 + n) cs"

lemma regions_append [simp]: "regions a (xs @ ys) = regions a xs \<union> regions (a + extent xs) ys"
  by (induction xs arbitrary: a) (auto simp: add.assoc)

lemma regions_merge [simp]: "regions a (merge cs) = regions a cs"
  by (induction cs rule: merge.induct) (simp_all add: add.assoc)

lemma regions_joined: "regions a (joined xs rest) = regions a (xs @ rest)"
proof (cases "xs \<noteq> [] \<and> snd (last xs)")
  case True
  have "regions a (butlast xs @ last xs # rest) = regions a (xs @ rest)"
    by (subst append_butlast_last_id [of xs, symmetric]) (use True in \<open>simp_all del: append_butlast_last_id\<close>)
  then show ?thesis using True by (simp add: joined_def)
qed (auto simp: joined_def)

lemma regions_bounds: "(x, n) \<in> regions a cs \<Longrightarrow> a + 16 \<le> x \<and> x + n \<le> a + extent cs"
  by (induction cs arbitrary: a) (force split: if_splits)+

lemma regions_apart:
  "(x, n) \<in> regions a cs \<Longrightarrow> (y, m) \<in> regions a cs \<Longrightarrow> (x, n) \<noteq> (y, m) \<Longrightarrow> x + n + 16 \<le> y \<or> y + m + 16 \<le> x"
proof (induction cs arbitrary: a)
  case (Cons c cs)
  obtain k f where "c = (k, f)" by (cases c)
  with Cons show ?case using regions_bounds [of _ _ "a + 16 + k" cs] by (fastforce split: if_splits)
qed simp

fun separated :: "cell list \<Rightarrow> bool" where
  "separated [] = True"
| "separated [c] = True"
| "separated (c # d # cs) = (\<not> (snd c \<and> snd d) \<and> separated (d # cs))"

definition cell_ok :: "cell \<Rightarrow> bool" where
  "cell_ok c \<longleftrightarrow> 16 dvd fst c \<and> 16 \<le> fst c"

lemma separated_append:
  "separated (xs @ ys) \<longleftrightarrow> separated xs \<and> separated ys \<and> \<not> (xs \<noteq> [] \<and> ys \<noteq> [] \<and> snd (last xs) \<and> snd (hd ys))"
proof (induction xs rule: separated.induct)
  case (2 c)
  then show ?case by (cases ys) auto
qed auto

lemma separated_Cons: "separated (c # cs) \<longleftrightarrow> separated cs \<and> \<not> (cs \<noteq> [] \<and> snd c \<and> snd (hd cs))"
  using separated_append [of "[c]" cs] by simp

definition cells_ok :: "cell list \<Rightarrow> bool" where
  "cells_ok cs \<longleftrightarrow> list_all cell_ok cs \<and> separated cs"

text \<open>
  The heap invariant: the cells tile the range from the base to \<open>heap_end\<close>, their sizes are multiples of 16,
  the list pointers agree with them, and no two neighbours are free.
\<close>

definition heap_inv :: "kheap_state \<Rightarrow> cell list \<Rightarrow> bool" where
  "heap_inv s cs \<longleftrightarrow> cs \<noteq> [] \<and> heap_head s = KERNEL_HEAP_BASE \<and> seg (hw s) 0 KERNEL_HEAP_BASE cs 0 \<and>
     0xF8000000 + extent cs = unat (heap_end s) \<and> unat (heap_end s) \<le> 0xFC000000 \<and> cells_ok cs"

lemma joined_cells:
  assumes "cells_ok (xs @ (n, False) # ys)"
  shows "cells_ok (joined xs ((n, True) # ys)) \<and> extent (joined xs ((n, True) # ys)) = extent (xs @ (n, f) # ys)"
proof (cases "xs \<noteq> [] \<and> snd (last xs)")
  case True
  then obtain zs m where x: "xs = zs @ [(m, True)]" by (metis append_butlast_last_id surjective_pairing)
  show ?thesis
  proof (cases "ys \<noteq> [] \<and> snd (hd ys)")
    case True
    then obtain k vs where "ys = (k, True) # vs" by (metis list.collapse surjective_pairing)
    then show ?thesis using assms x by (simp add: cells_ok_def joined_def separated_append separated_Cons cell_ok_def)
  next
    case False
    then have "merge ((m + 16 + n, True) # ys) = (m + 16 + n, True) # ys" by (cases ys) auto
    then show ?thesis using assms x False by (simp add: cells_ok_def joined_def separated_append separated_Cons cell_ok_def)
  qed
next
  case xs: False
  show ?thesis
  proof (cases "ys \<noteq> [] \<and> snd (hd ys)")
    case True
    then obtain k vs where "ys = (k, True) # vs" by (metis list.collapse surjective_pairing)
    then show ?thesis using assms xs by (auto simp: cells_ok_def joined_def separated_append separated_Cons cell_ok_def)
  next
    case False
    then have "merge ((n, True) # ys) = (n, True) # ys" by (cases ys) auto
    then show ?thesis using assms xs False by (auto simp: cells_ok_def joined_def separated_append separated_Cons cell_ok_def)
  qed
qed

lemma regions_mem:
  "(x, n) \<in> regions a cs \<Longrightarrow> \<exists>xs ys. cs = xs @ (n, False) # ys \<and> x = a + extent xs + 16"
proof (induction cs arbitrary: a)
  case (Cons c cs)
  obtain m f where c: "c = (m, f)" by (cases c)
  consider "\<not> f" "x = a + 16" "n = m" | "(x, n) \<in> regions (a + 16 + m) cs" using Cons.prems c by (auto split: if_splits)
  then show ?case
  proof cases
    case 1
    then have "c # cs = [] @ (n, False) # cs \<and> x = a + extent [] + 16" using c by simp
    then show ?thesis by blast
  next
    case 2
    from Cons.IH [OF this] obtain xs ys where "cs = xs @ (n, False) # ys" "x = a + 16 + m + extent xs + 16" by blast
    then have "c # cs = (c # xs) @ (n, False) # ys \<and> x = a + extent (c # xs) + 16" using c by simp
    then show ?thesis by blast
  qed
qed simp

text \<open>A word of the payload of a block in use; it is in no header.\<close>

definition payload :: "u32 \<Rightarrow> cell list \<Rightarrow> u32 \<Rightarrow> bool" where
  "payload a cs x \<longleftrightarrow> (\<exists>(y, m) \<in> regions (unat a) cs. y \<le> unat x \<and> unat x < y + m)"

lemma header_no_payload:
  "payload a (xs @ (n, f) # ys) x \<Longrightarrow> unat x < unat a + extent xs \<or> unat a + extent xs + 16 \<le> unat x"
  by (fastforce simp: payload_def dest!: regions_bounds split: if_splits)

lemma free_no_payload:
  "payload a (xs @ (n, True) # ys) x \<Longrightarrow> unat x < unat a + extent xs \<or> unat a + extent xs + 16 + n \<le> unat x"
  by (fastforce simp: payload_def dest!: regions_bounds split: if_splits)

lemma payload_header:
  assumes "payload a (xs @ (n, f) # ys) x" "unat b = unat a + extent xs" "unat b + 16 \<le> 4294967296"
  shows "x \<noteq> b" "x \<noteq> b + 4" "x \<noteq> b + 8" "x \<noteq> b + 12"
proof -
  have "unat (b + 4) = unat b + 4" "unat (b + 8) = unat b + 8" "unat (b + 12) = unat b + 12"
    using assms(3) by (simp_all add: unat_add_u32)
  then show "x \<noteq> b" "x \<noteq> b + 4" "x \<noteq> b + 8" "x \<noteq> b + 12"
    using header_no_payload [OF assms(1)] assms(2) by auto
qed

lemma payload_eq: "regions (unat a) cs = regions (unat a) ds \<Longrightarrow> payload a cs = payload a ds"
  by (simp add: payload_def fun_eq_iff)

lemma coalesce_forward_frame:
  assumes sg: "seg (hw s) p a (xs @ (n, f) # rest) 0" and len: "unat a + extent (xs @ (n, f) # rest) < 4294967296"
    and x: "payload a (xs @ (n, f) # rest) x"
  shows "hw (kheap_coalesce_forward (a + of_nat (extent xs)) s) x = hw s x"
proof -
  from sg len obtain b where b: "b = a + of_nat (extent xs)" "unat b = unat a + extent xs" "unat (b + 16 + of_nat n) = unat b + 16 + n"
    and s: "hw s (b + 8) = (if rest = [] then 0 else b + 16 + of_nat n)" "seg (hw s) b (b + 16 + of_nat n) rest 0"
    and l: "unat b + 16 + n + extent rest < 4294967296"
    by (rule seg_block)
  have xb: "x \<noteq> b" "x \<noteq> b + 8" using payload_header [OF x b(2)] l by simp_all
  have "hw (kheap_coalesce_forward b s) x = hw s x"
  proof (cases rest)
    case Nil
    then show ?thesis using s(1) by (simp add: kheap_coalesce_forward_def blk_next_def Let_def)
  next
    case (Cons q ys)
    obtain m g where q: "q = (m, g)" by (cases q)
    define c where "c = b + 16 + of_nat n"
    define d where "d = c + 16 + of_nat m"
    have c: "unat c = unat b + 16 + n" using b(3) by (simp add: c_def)
    have d: "unat d = unat c + 16 + m" using l c Cons q by (simp add: d_def unat_add_u32 unat_of_nat_u32)
    have bc: "unat b + 16 \<le> unat c" "unat c + 16 \<le> 4294967296" using c l Cons by simp_all
    have t: "hw s (b + 8) = c" "hw s (c + 8) = (if ys = [] then 0 else d)" using s Cons q by (simp_all flip: c_def d_def)
    have "x \<noteq> d + 12" if ne: "ys \<noteq> []"
    proof -
      obtain k h zs where y: "ys = (k, h) # zs" using ne by (cases ys) auto
      have "payload a ((xs @ [(n, f), (m, g)]) @ (k, h) # zs) x" using x Cons q y by simp
      then show ?thesis by (rule payload_header(4)) (use d c b(2) l Cons q y in simp_all)
    qed
    then show ?thesis
      using xb t hdr_apart [OF bc] hdr_apart [OF bc, symmetric]
      by (simp add: kheap_coalesce_forward_def blk_next_def blk_size_def blk_free_def Let_def)
  qed
  then show ?thesis by (simp add: b(1))
qed

lemma coalesce_frame:
  assumes sg: "seg (hw s) 0 a (xs @ (n, True) # ys) 0" and len: "unat a + extent (xs @ (n, True) # ys) < 4294967296" and a: "a \<noteq> 0"
    and x: "payload a (xs @ (n, True) # ys) x"
  shows "hw (kheap_coalesce (a + of_nat (extent xs)) s) x = hw s x"
proof -
  from sg len obtain b where b: "b = a + of_nat (extent xs)" "unat b = unat a + extent xs"
    and s: "hw s (b + 12) = last_blk 0 a xs"
    by (rule seg_block)
  have "hw (kheap_coalesce b s) x = hw s x"
  proof (cases "kheap_coalesce b s = s \<or> kheap_coalesce b s = kheap_coalesce_forward b s")
    case True
    then show ?thesis using coalesce_forward_frame [OF sg len x] b(1) by auto
  next
    case False
    let ?c = "blk_prev s b"
    have w: "?c \<noteq> 0" "kheap_coalesce b s = kheap_coalesce_forward ?c (kheap_coalesce_forward ?c s)"
      using False by (auto simp: kheap_coalesce_def split: if_splits)
    then have "xs \<noteq> []" using s by (auto simp: blk_prev_def)
    then obtain zs m g where z: "xs = zs @ [(m, g)]" by (metis append_butlast_last_id surj_pair)
    have c: "?c = a + of_nat (extent zs)" using s by (simp add: z last_blk_append blk_prev_def)
    have sg': "seg (hw s) 0 a (zs @ (m, g) # (n, True) # ys) 0" "unat a + extent (zs @ (m, g) # (n, True) # ys) < 4294967296"
      and x': "payload a (zs @ (m, g) # (n, True) # ys) x"
      using sg len x by (simp_all add: z)
    obtain k h vs where k: "merge ((m, g) # (n, True) # ys) = (k, h) # vs" by (cases g) simp_all
    have e: "unat a + extent (zs @ (k, h) # vs) < 4294967296" using sg'(2) extent_merge [of "(m, g) # (n, True) # ys"] unfolding k by simp
    have y: "payload a (zs @ (k, h) # vs) x"
      using x' payload_eq [of a "zs @ (m, g) # (n, True) # ys" "zs @ (k, h) # vs"]
        regions_merge [of "unat a + extent zs" "(m, g) # (n, True) # ys"] unfolding k by simp
    show ?thesis
      using coalesce_forward_frame [OF coalesce_forward_seg [OF sg' a, unfolded k] e y] coalesce_forward_frame [OF sg' x'] w(2) c
      by simp
  qed
  then show ?thesis by (simp add: b(1))
qed

section \<open>Releasing a block\<close>

lemma heap_invD:
  assumes "heap_inv s cs"
  shows "cs \<noteq> []" "heap_head s = KERNEL_HEAP_BASE" "seg (hw s) 0 KERNEL_HEAP_BASE cs 0" "unat KERNEL_HEAP_BASE + extent cs < 4294967296"
    "unat KERNEL_HEAP_BASE + extent cs = unat (heap_end s)" "unat (heap_end s) \<le> 0xFC000000" "cells_ok cs"
  using assms by (simp_all add: heap_inv_def)

lemma kfree_cells:
  assumes inv: "heap_inv s (xs @ (n, False) # ys)" and p: "unat p = 0xF8000000 + extent xs + 16"
  shows "heap_inv (kfree p s) (joined xs ((n, True) # ys))"
    "payload KERNEL_HEAP_BASE (xs @ (n, True) # ys) x \<Longrightarrow> hw (kfree p s) x = hw s x"
proof -
  note i = heap_invD [OF inv]
  define b where "b = KERNEL_HEAP_BASE + of_nat (extent xs)"
  have b: "unat b = 0xF8000000 + extent xs" using i(4) by (simp add: b_def unat_add_u32 unat_of_nat_u32)
  have pb: "p = b + 16" using p b i(4) by (simp add: word_unat_eq_iff unat_add_u32)
  have nz: "p \<noteq> 0" using p by (auto simp: word_unat_eq_iff)
  have k: "kfree p s = kheap_coalesce b (poke (b + 4) 1 s)" using nz pb by (simp add: kfree_def)
  have sg: "seg (hw (poke (b + 4) 1 s)) 0 KERNEL_HEAP_BASE (xs @ (n, True) # ys) 0"
    using seg_mark [OF i(3,4), where v = 1 and g = True] by (simp add: b_def)
  have len: "unat KERNEL_HEAP_BASE + extent (xs @ (n, True) # ys) < 4294967296" using i(4) by simp
  note cells = joined_cells [OF i(7), of False]
  have "joined xs ((n, True) # ys) \<noteq> []"
    using cells by (auto simp: extent_def)
  then show "heap_inv (kfree p s) (joined xs ((n, True) # ys))"
    using i cells coalesce_seg [OF sg len, folded b_def] by (simp add: heap_inv_def k)
  assume x: "payload KERNEL_HEAP_BASE (xs @ (n, True) # ys) x"
  have "x \<noteq> b + 4" using payload_header(2) [OF x] b len by simp
  then show "hw (kfree p s) x = hw s x" using coalesce_frame [OF sg len _ x, folded b_def] k by simp
qed

lemma regions_free:
  "regions a (xs @ (n, True) # ys) = regions a (xs @ (n, False) # ys) - {(a + extent xs + 16, n)}"
  by (fastforce dest: regions_bounds)

text \<open>A heap of three blocks, the middle one free.\<close>

definition demo_cells :: "cell list" where
  "demo_cells = [(32, False), (48, True), (16256, False)]"

definition demo_heap :: kheap_state where
  "demo_heap = \<lparr>km = demo_mem,
     hw = (\<lambda>_. 0)(0xF8000000 := 32, 0xF8000008 := 0xF8000030,
       0xF8000030 := 48, 0xF8000034 := 1, 0xF8000038 := 0xF8000070, 0xF800003C := 0xF8000000,
       0xF8000070 := 16256, 0xF800007C := 0xF8000030),
     heap_head = 0xF8000000, heap_end = 0xF8004000, committed_pages = 4, kheap_ready = True\<rparr>"

lemma demo_heap_inv: "heap_inv demo_heap demo_cells"
  by (simp add: heap_inv_def demo_heap_def demo_cells_def cells_ok_def cell_ok_def)

text \<open>
  C33. Releasing a block of the kernel heap that is in use removes exactly that block from the regions in use,
  keeps the heap well formed with no two free neighbours, and leaves the words of every other block in use
  as they were.
\<close>

theorem kfree_correct:
  assumes "heap_inv s cs" "(unat p, n) \<in> regions 0xF8000000 cs"
  shows "\<exists>cs'. heap_inv (kfree p s) cs' \<and> regions 0xF8000000 cs' = regions 0xF8000000 cs - {(unat p, n)} \<and>
    (\<forall>x. payload KERNEL_HEAP_BASE cs' x \<longrightarrow> hw (kfree p s) x = hw s x)"
proof -
  obtain xs ys where c: "cs = xs @ (n, False) # ys" and p: "unat p = 0xF8000000 + extent xs + 16"
    using regions_mem [OF assms(2)] by blast
  have r: "regions 0xF8000000 (joined xs ((n, True) # ys)) = regions 0xF8000000 (xs @ (n, True) # ys)"
    by (rule regions_joined)
  then have "payload KERNEL_HEAP_BASE (joined xs ((n, True) # ys)) = payload KERNEL_HEAP_BASE (xs @ (n, True) # ys)"
    by (simp add: payload_def fun_eq_iff)
  then show ?thesis
    using kfree_cells [OF assms(1) [unfolded c] p] r regions_free [of "0xF8000000" xs n ys] p c
    by (intro exI [of _ "joined xs ((n, True) # ys)"]) simp
qed

theorem kfree_correct_witness:
  "(0xF8000010, 32) \<in> regions 0xF8000000 demo_cells \<and>
   (\<exists>cs'. heap_inv (kfree 0xF8000010 demo_heap) cs' \<and> regions 0xF8000000 cs' = {(0xF8000080, 16256)})"
proof -
  have m: "(unat (0xF8000010 :: u32), 32) \<in> regions 0xF8000000 demo_cells" by (simp add: demo_cells_def)
  have "regions 0xF8000000 demo_cells - {(unat (0xF8000010 :: u32), 32)} = {(0xF8000080, 16256)}" by (auto simp: demo_cells_def)
  with kfree_correct [OF demo_heap_inv m] m show ?thesis by auto
qed

section \<open>Taking a block\<close>

lemma split_frame:
  assumes sg: "seg (hw s) p a (xs @ (n, True) # ys) 0" and len: "unat a + extent (xs @ (n, True) # ys) < 4294967296" and k: "k \<le> n" and a: "32 \<le> unat a"
    and x: "payload a (xs @ (n, True) # ys) x"
  shows "hw (kheap_split_block (a + of_nat (extent xs)) (of_nat k) s) x = hw s x"
proof -
  from sg len obtain b where b: "b = a + of_nat (extent xs)" "unat b = unat a + extent xs" "unat (b + 16 + of_nat n) = unat b + 16 + n"
    and s: "hw s b = of_nat n" "hw s (b + 8) = (if ys = [] then 0 else b + 16 + of_nat n)"
    and l: "unat b + 16 + n + extent ys < 4294967296"
    by (rule seg_block)
  have xb: "x \<noteq> b" "x \<noteq> b + 8" using payload_header [OF x b(2)] l by simp_all
  have "hw (kheap_split_block b (of_nat k) s) x = hw s x"
  proof (cases "k + 32 \<le> n")
    case False
    then have "hw s b < of_nat k + KHEAP_MIN_SPLIT" using s(1) l k a b(2) by (simp add: word_less_nat_alt unat_add_u32 unat_of_nat_u32)
    then show ?thesis by (simp add: kheap_split_block_def blk_size_def)
  next
    case True
    define t where "t = b + 16 + of_nat k"
    define c where "c = b + 16 + of_nat n"
    have t: "unat t = unat b + 16 + k" using l k by (simp add: t_def unat_add_u32 unat_of_nat_u32)
    have c: "unat c = unat b + 16 + n" using b(3) by (simp add: c_def)
    have bt: "unat b + 16 \<le> unat t" "unat t + 16 \<le> 4294967296" using t l True by simp_all
    have "unat (t + 4) = unat t + 4" "unat (t + 8) = unat t + 8" "unat (t + 12) = unat t + 12"
      using t l True by (simp_all add: unat_add_u32)
    then have xt: "x \<noteq> t" "x \<noteq> t + 4" "x \<noteq> t + 8" "x \<noteq> t + 12"
      using free_no_payload [OF x] b(2) t True by auto
    have "x \<noteq> c + 12" if ne: "ys \<noteq> []"
    proof -
      obtain m g zs where y: "ys = (m, g) # zs" using ne by (cases ys) auto
      have "payload a ((xs @ [(n, True)]) @ (m, g) # zs) x" using x y by simp
      then show ?thesis by (rule payload_header(4)) (use c b(2) l y in simp_all)
    qed
    then show ?thesis
      using xb xt s(2) hdr_apart [OF bt] hdr_apart [OF bt, symmetric]
      by (simp add: kheap_split_block_def blk_size_def blk_next_def Let_def flip: t_def c_def)
  qed
  then show ?thesis by (simp add: b(1))
qed

definition taken :: "nat \<Rightarrow> cell list \<Rightarrow> nat \<Rightarrow> cell list \<Rightarrow> cell list" where
  "taken k xs n ys = (if k + 32 \<le> n then xs @ (k, False) # (n - k - 16, True) # ys else xs @ (n, False) # ys)"

lemma taken_cells:
  assumes "cells_ok (xs @ (n, True) # ys)" "k \<le> n" "16 dvd k" "16 \<le> k"
  shows "cells_ok (taken k xs n ys)" "extent (taken k xs n ys) = extent (xs @ (n, True) # ys)" "taken k xs n ys \<noteq> []"
    "\<exists>m. k \<le> m \<and> regions a (taken k xs n ys) = insert (a + extent xs + 16, m) (regions a (xs @ (n, True) # ys))"
proof -
  have d: "16 dvd n" using assms(1) by (simp add: cells_ok_def cell_ok_def)
  show "cells_ok (taken k xs n ys)"
    using assms d dvd_diff_nat [of 16 n k] dvd_diff_nat [of 16 "n - k" 16]
    by (auto simp: taken_def cells_ok_def separated_append separated_Cons cell_ok_def)
  show "extent (taken k xs n ys) = extent (xs @ (n, True) # ys)" "taken k xs n ys \<noteq> []" by (simp_all add: taken_def)
  show "\<exists>m. k \<le> m \<and> regions a (taken k xs n ys) = insert (a + extent xs + 16, m) (regions a (xs @ (n, True) # ys))"
    using assms(2) by (intro exI [of _ "if k + 32 \<le> n then k else n"]) (auto simp: taken_def add_ac)
qed

lemma take_block:
  assumes inv: "heap_inv s (xs @ (n, True) # ys)" and k: "k \<le> n" "16 dvd k" "16 \<le> k"
    and b: "b = KERNEL_HEAP_BASE + of_nat (extent xs)"
    and t: "t = poke (b + 4) 0 (kheap_split_block b (of_nat k) s)"
  shows "heap_inv t (taken k xs n ys)"
    "payload KERNEL_HEAP_BASE (xs @ (n, True) # ys) x \<Longrightarrow> hw t x = hw s x"
proof -
  note i = heap_invD [OF inv]
  have sg: "seg (hw t) 0 KERNEL_HEAP_BASE (taken k xs n ys) 0"
  proof (cases "k + 32 \<le> n")
    case True
    have sg: "seg (hw (kheap_split_block b (of_nat k) s)) 0 KERNEL_HEAP_BASE (xs @ (k, True) # (n - k - 16, True) # ys) 0"
      using split_seg [OF i(3,4) _ True] by (simp add: b)
    have len: "unat KERNEL_HEAP_BASE + extent (xs @ (k, True) # (n - k - 16, True) # ys) < 4294967296" using i(4) True by simp
    show ?thesis using seg_mark [OF sg len, where v = 0 and g = False] True by (simp add: taken_def t b)
  next
    case False
    have "hw s b = of_nat n" using i(3) by (simp add: seg_append b)
    then have "hw s b < of_nat k + KHEAP_MIN_SPLIT"
      using False i(4) k by (simp add: word_less_nat_alt unat_add_u32 unat_of_nat_u32)
    then have "kheap_split_block b (of_nat k) s = s" by (simp add: kheap_split_block_def blk_size_def)
    then show ?thesis using seg_mark [OF i(3,4), where v = 0 and g = False] False by (simp add: taken_def t b)
  qed
  then show "heap_inv t (taken k xs n ys)"
    using i taken_cells(1-3) [OF i(7) k] by (simp add: heap_inv_def t)
  assume x: "payload KERNEL_HEAP_BASE (xs @ (n, True) # ys) x"
  have "unat b = 0xF8000000 + extent xs" using i(4) by (simp add: b unat_add_u32 unat_of_nat_u32)
  then have "x \<noteq> b + 4" using payload_header(2) [OF x] i(4) by simp
  then show "hw t x = hw s x" using split_frame [OF i(3,4) k(1) _ x, folded b] t by simp
qed

section \<open>Growing the heap\<close>

lemma unmap_heap_pages_sel [simp]:
  "hw (unmap_heap_pages k s) = hw s" "heap_head (unmap_heap_pages k s) = heap_head s"
  "kheap_ready (unmap_heap_pages k s) = kheap_ready s"
  by (induction k arbitrary: s) (simp_all add: Let_def)

lemma map_heap_pages_words:
  assumes "map_heap_pages n k s = (r, t)" "unat (heap_end s) + n * 4096 < 4294967296"
  shows "heap_head t = heap_head s \<and> kheap_ready t = kheap_ready s \<and>
    (\<forall>x. unat x < unat (heap_end s) \<longrightarrow> hw t x = hw s x) \<and>
    (\<forall>u. r = Inr u \<longrightarrow> unat (heap_end t) = unat (heap_end s) + n * 4096)"
  using assms
proof (induction n arbitrary: k s)
  case (Suc n)
  obtain phys m1 where a: "alloc_page (km s) = (phys, m1)" by (cases "alloc_page (km s)")
  obtain q m2 where q: "paging_map_page (heap_end s) phys PAGE_WRITABLE m1 = (q, m2)" by (cases "paging_map_page (heap_end s) phys PAGE_WRITABLE m1")
  let ?s = "s\<lparr>km := m2, hw := (\<lambda>a. if a - heap_end s < PAGE_SIZE then 0 else hw s a),
     heap_end := heap_end s + PAGE_SIZE, committed_pages := committed_pages s + 1\<rparr>"
  show ?case
  proof (cases "phys = 0 \<or> (\<exists>e. q = Inl e)")
    case True
    then show ?thesis using Suc.prems(1) a q by (auto simp: Let_def split: if_splits)
  next
    case False
    then have "map_heap_pages n (Suc k) ?s = (r, t)" using Suc.prems(1) a q by (auto simp: Let_def split: sum.splits)
    moreover have e: "unat (heap_end ?s) = unat (heap_end s) + 4096" using Suc.prems(2) by (simp add: unat_add_u32)
    moreover have "hw ?s x = hw s x" if x: "unat x < unat (heap_end s)" for x
    proof -
      have "unat (x - heap_end s) = 4294967296 + unat x - unat (heap_end s)"
        using x by (simp add: unat_sub_if')
      then have "\<not> x - heap_end s < PAGE_SIZE" using Suc.prems(2) by (simp add: word_less_nat_alt)
      then show ?thesis by simp
    qed
    ultimately show ?thesis using Suc.IH [of "Suc k" ?s] Suc.prems(2) by simp
  qed
qed simp

lemma last_from_seg:
  "seg (hw s) p a cs 0 \<Longrightarrow> cs \<noteq> [] \<Longrightarrow> unat a + extent cs < 4294967296 \<Longrightarrow> last_from s a = Some (last_blk p a cs)"
proof (induction cs arbitrary: p a)
  case (Cons c cs)
  obtain n f where c: "c = (n, f)" by (cases c)
  show ?case
  proof (cases "cs = []")
    case True
    then show ?thesis using Cons.prems(1) c by (simp add: last_from.simps blk_next_def)
  next
    case False
    have u: "unat (a + 16 + of_nat n) = unat a + 16 + n" using Cons.prems(3) c by (simp add: unat_add_u32 unat_of_nat_u32)
    then have "a + 16 + of_nat n \<noteq> 0" by (metis add_is_0 numeral_neq_zero unat_0)
    then have "last_from s a = last_from s (a + 16 + of_nat n)"
      using Cons.prems(1) c False by (subst last_from.simps) (simp add: blk_next_def)
    then show ?thesis using Cons c False u by simp
  qed
qed simp

lemma seg_next:
  assumes "seg w p a cs q" "cs \<noteq> []" "unat a + extent cs < 4294967296"
  shows "seg (w(last_blk p a cs + 8 := q')) p a cs q'"
proof -
  obtain xs n f where c: "cs = xs @ [(n, f)]" using assms(2) by (metis append_butlast_last_id surj_pair)
  from assms(1,3) obtain b where b: "b = a + of_nat (extent xs)" "unat b = unat a + extent xs"
    and s: "seg w p a xs b" "w b = of_nat n" "(w (b + 4) \<noteq> 0) = f" "w (b + 12) = last_blk p a xs"
    and l: "unat b + 16 + n + extent [] < 4294967296"
    unfolding c by (rule seg_block)
  have "unat (b + 8) = unat b + 8" using l by (simp add: unat_add_u32)
  then have "\<not> within a (extent xs) (b + 8)" using b by (auto simp: within_def)
  then show ?thesis using s b(2) l unfolding c by (simp add: seg_append last_blk_append seg_upd flip: b(1))
qed

text \<open>A new free block above a heap that is full.\<close>

lemma append_seg:
  assumes "seg w 0 a cs 0" "cs \<noteq> []" "unat a + extent cs + 16 + n < 4294967296" "e = a + of_nat (extent cs)"
    and w: "\<And>x. unat x < unat e \<Longrightarrow> v x = w x"
  shows "seg ((v(e := of_nat n, e + 4 := 1, e + 8 := 0, e + 12 := 0))(last_blk 0 a cs + 8 := e, e + 12 := last_blk 0 a cs))
    0 a (cs @ [(n, True)]) 0"
proof -
  have e: "unat e = unat a + extent cs" using assms(3,4) by (simp add: unat_add_u32 unat_of_nat_u32)
  have ux: "unat (e + 4) = unat e + 4" "unat (e + 8) = unat e + 8" "unat (e + 12) = unat e + 12"
    using assms(3) e by (simp_all add: unat_add_u32)
  let ?b = "last_blk 0 a cs"
  have b: "unat ?b + 16 \<le> unat e"
  proof -
    obtain xs m f where c: "cs = xs @ [(m, f)]" using assms(2) by (metis append_butlast_last_id surj_pair)
    then show ?thesis using assms(3) e by (simp add: last_blk_append unat_add_u32 unat_of_nat_u32)
  qed
  have "seg (w(?b + 8 := e)) 0 a cs e" using assms(1-3) by (intro seg_next) simp_all
  moreover have "(w(?b + 8 := e)) x = ((v(e := of_nat n, e + 4 := 1, e + 8 := 0, e + 12 := 0))(?b + 8 := e, e + 12 := ?b)) x"
    if x: "within a (extent cs) x" for x
  proof -
    have "unat x < unat e" using x e by (simp add: within_def)
    moreover from this have "x \<noteq> e" "x \<noteq> e + 4" "x \<noteq> e + 8" "x \<noteq> e + 12" using ux by auto
    ultimately show ?thesis using w by simp
  qed
  ultimately have "seg ((v(e := of_nat n, e + 4 := 1, e + 8 := 0, e + 12 := 0))(?b + 8 := e, e + 12 := ?b)) 0 a cs e"
    using assms(3) by (subst (asm) seg_cong) simp_all
  moreover have "unat e + 16 \<le> 4294967296" using assms(3) e by simp
  ultimately show ?thesis using hdr_apart [OF b] by (auto simp: seg_append assms(4) [symmetric])
qed

definition grown :: "cell list \<Rightarrow> nat \<Rightarrow> cell list" where
  "grown cs n = (if cs = [] then [(n, True)] else joined cs [(n, True)])"

lemma regions_grown: "regions a (grown cs n) = regions a cs"
  by (simp add: grown_def regions_joined)

lemma grown_cells:
  assumes "cells_ok cs" "16 dvd n" "16 \<le> n"
  shows "cells_ok (grown cs n)" "extent (grown cs n) = extent cs + 16 + n" "grown cs n \<noteq> []"
    "\<exists>xs m. grown cs n = xs @ [(m, True)] \<and> n \<le> m"
proof -
  have "cells_ok (cs @ [(n, False)])" using assms by (simp add: cells_ok_def separated_append cell_ok_def)
  from joined_cells [OF this, of False]
  show ok: "cells_ok (grown cs n)" "extent (grown cs n) = extent cs + 16 + n"
    using assms by (auto simp: grown_def cells_ok_def cell_ok_def)
  then show "grown cs n \<noteq> []" by auto
  have "\<exists>xs m. joined cs [(n, True)] = xs @ [(m, True)] \<and> n \<le> m"
  proof (cases "cs \<noteq> [] \<and> snd (last cs)")
    case True
    then obtain zs m where "cs = zs @ [(m, True)]" by (metis append_butlast_last_id surjective_pairing)
    then show ?thesis by (simp add: joined_def)
  qed (auto simp: joined_def)
  then show "\<exists>xs m. grown cs n = xs @ [(m, True)] \<and> n \<le> m" by (auto simp: grown_def)
qed

text \<open>The heap before its first block, and in general.\<close>

definition heap_pre :: "kheap_state \<Rightarrow> cell list \<Rightarrow> bool" where
  "heap_pre s cs \<longleftrightarrow> heap_inv s cs \<or> cs = [] \<and> heap_head s = 0 \<and> heap_end s = KERNEL_HEAP_BASE"

lemma expand_pages:
  assumes "unat k \<le> 0x3FFEFF0"
  defines "pages0 \<equiv> align_up_size (k + 16) PAGE_SIZE div PAGE_SIZE"
  defines "pages \<equiv> if pages0 < KHEAP_INITIAL_PAGES then KHEAP_INITIAL_PAGES else pages0"
  shows "unat k + 16 \<le> unat pages * 4096" "4 \<le> unat pages" "unat pages * 4096 \<le> 0x3FFF000"
proof -
  have "unat (k + 16) = unat k + 16" using assms(1) by (simp add: unat_add_u32)
  then have "unat (align_up_size (k + 16) PAGE_SIZE) = (unat k + 16 + 2 ^ 12 - 1) div 2 ^ 12 * 2 ^ 12"
    unfolding align_up_size_def using assms(1) unat_align_up [of "PAGE_SIZE" 12 "k + 16"] by simp
  then have "unat pages0 = (unat k + 4111) div 4096" by (simp add: pages0_def unat_div)
  then show "unat k + 16 \<le> unat pages * 4096" "4 \<le> unat pages" "unat pages * 4096 \<le> 0x3FFF000"
    using assms(1) by (auto simp: pages_def word_less_nat_alt)
qed

definition new_block :: "u32 \<Rightarrow> u32 \<Rightarrow> kheap_state \<Rightarrow> kheap_state" where
  "new_block b n s = poke (b + 12) 0 (poke (b + 8) 0 (poke (b + 4) 1 (poke b n s)))"

lemma new_block_sel [simp]:
  "heap_head (new_block b n s) = heap_head s" "heap_end (new_block b n s) = heap_end s" "kheap_ready (new_block b n s) = kheap_ready s"
  "hw (new_block b n s) = (hw s)(b := n, b + 4 := 1, b + 8 := 0, b + 12 := 0)"
  by (simp_all add: new_block_def)

lemma payload_below: "payload a cs x \<Longrightarrow> unat x < unat a + extent cs"
  by (auto simp: payload_def dest!: regions_bounds)

lemma link_block:
  assumes inv: "heap_inv s cs" and n: "16 dvd n" "16 \<le> n" "unat (heap_end s) + 16 + n \<le> 0xFC000000"
    and s1: "heap_head s1 = heap_head s" "unat (heap_end s1) = unat (heap_end s) + 16 + n" "kheap_ready s1 = kheap_ready s"
    and w: "\<And>x. unat x < unat (heap_end s) \<Longrightarrow> hw s1 x = hw s x"
  obtains tail t where "tail \<noteq> 0" "kheap_last_block (new_block (heap_end s) (of_nat n) s1) = Some tail"
    "t = kheap_coalesce (heap_end s) (poke (heap_end s + 12) tail (poke (tail + 8) (heap_end s) (new_block (heap_end s) (of_nat n) s1)))"
    "heap_inv t (grown cs n)" "kheap_ready t = kheap_ready s" "\<And>x. payload KERNEL_HEAP_BASE cs x \<Longrightarrow> hw t x = hw s x"
proof -
  note i = heap_invD [OF inv]
  define e where "e = heap_end s"
  define tail where "tail = last_blk 0 KERNEL_HEAP_BASE cs"
  define u where "u = poke (e + 12) tail (poke (tail + 8) e (new_block e (of_nat n) s1))"
  have e: "e = KERNEL_HEAP_BASE + of_nat (extent cs)" using i(4,5) by (simp add: e_def word_unat_eq_iff unat_add_u32 unat_of_nat_u32)
  have ue: "unat e = 0xF8000000 + extent cs" "unat e + 16 \<le> 4294967296" using i(5) n by (simp_all add: e_def)
  have ux: "unat (e + 4) = unat e + 4" "unat (e + 8) = unat e + 8" "unat (e + 12) = unat e + 12" using ue n by (simp_all add: unat_add_u32)
  obtain xs m f where c: "cs = xs @ [(m, f)]" using i(1) by (metis append_butlast_last_id surj_pair)
  have ut: "unat tail = 0xF8000000 + extent xs" using i(4) c by (simp add: tail_def last_blk_append unat_add_u32 unat_of_nat_u32)
  have "hw (new_block e (of_nat n) s1) x = hw s x" if x: "unat x < unat e" for x
  proof -
    have "x \<noteq> e" "x \<noteq> e + 4" "x \<noteq> e + 8" "x \<noteq> e + 12" using x ux by auto
    then show ?thesis using w x by (simp add: e_def)
  qed
  then have "seg (hw (new_block e (of_nat n) s1)) 0 KERNEL_HEAP_BASE cs 0"
    using i(3,4,5) seg_cong [of KERNEL_HEAP_BASE cs "hw (new_block e (of_nat n) s1)" "hw s"] by (simp add: within_def e_def)
  then have lst: "kheap_last_block (new_block e (of_nat n) s1) = Some tail"
    using last_from_seg i(1,2,4) s1(1) by (simp add: kheap_last_block_def tail_def)
  have sg: "seg (hw u) 0 KERNEL_HEAP_BASE (cs @ [(n, True)]) 0"
    using append_seg [OF i(3,1) _ e] w n(3) i(5) by (simp add: u_def e_def tail_def)
  have len: "unat KERNEL_HEAP_BASE + extent (cs @ [(n, True)]) < 4294967296" using i(5) n(3) by simp
  have co: "heap_inv (kheap_coalesce e u) (grown cs n)"
    using coalesce_seg [OF sg len, folded e] grown_cells [OF i(7) n(1,2)] i n(3) s1(1,2)
    by (simp add: heap_inv_def u_def grown_def)
  show ?thesis
  proof (rule that [of tail "kheap_coalesce e u"])
    show "tail \<noteq> 0" using ut by auto
    fix x assume x: "payload KERNEL_HEAP_BASE cs x"
    have "x \<noteq> tail + 8" using payload_header(3) [of KERNEL_HEAP_BASE xs m f "[]" x tail] x c ut ue i(4) by simp
    moreover have "unat x < unat e" using payload_below [OF x] ue by simp
    moreover from this have "x \<noteq> e" "x \<noteq> e + 4" "x \<noteq> e + 8" "x \<noteq> e + 12" using ux by auto
    moreover have "payload KERNEL_HEAP_BASE (cs @ [(n, True)]) x" using x by (simp add: payload_def)
    ultimately show "hw (kheap_coalesce e u) x = hw s x"
      using coalesce_frame [OF sg len _, folded e] w by (simp add: u_def e_def)
  qed (use lst co s1 in \<open>simp_all add: u_def e_def\<close>)
qed

lemma kheap_expand_cells:
  assumes inv: "heap_pre s cs" and k: "unat k \<le> 0x3FFEFF0"
  obtains t where "kheap_expand k s = Some (Inl EFAIL, t)" "cs \<noteq> [] \<longrightarrow> heap_inv t cs" "kheap_ready t = kheap_ready s"
      "\<And>x. payload KERNEL_HEAP_BASE cs x \<Longrightarrow> hw t x = hw s x"
  | t n where "kheap_expand k s = Some (Inr (), t)" "heap_inv t (grown cs n)" "unat k \<le> n" "kheap_ready t = kheap_ready s"
      "\<And>x. payload KERNEL_HEAP_BASE cs x \<Longrightarrow> hw t x = hw s x" "16 dvd n" "16 \<le> n"
proof -
  define pages0 where "pages0 = align_up_size (k + 16) PAGE_SIZE div PAGE_SIZE"
  define pages where "pages = (if pages0 < KHEAP_INITIAL_PAGES then KHEAP_INITIAL_PAGES else pages0)"
  note pg = expand_pages [OF k, folded pages0_def, folded pages_def]
  have e: "unat (heap_end s) = 0xF8000000 + extent cs" "unat (heap_end s) \<le> 0xFC000000" "cells_ok cs"
    using inv by (auto simp: heap_pre_def heap_inv_def cells_ok_def)
  define n where "n = unat pages * 4096 - 16"
  have n: "16 dvd n" "16 \<le> n" "unat k \<le> n" "16 + n = unat pages * 4096"
    using pg by (auto simp: n_def intro!: dvd_diff_nat)
  have bytes: "pages * PAGE_SIZE - 16 = of_nat n"
  proof -
    have "of_nat (unat pages * 4096 - 16) = (of_nat (unat pages * 4096) - of_nat 16 :: u32)" using pg by (intro of_nat_diff) linarith
    then show ?thesis by (simp add: n_def)
  qed
  have p: "unat (pages * PAGE_SIZE) = unat pages * 4096" using pg(3) by (simp add: unat_word_ariths)
  have sum: "unat (heap_end s + pages * PAGE_SIZE) = unat (heap_end s) + unat pages * 4096"
    using pg(3) e(2) p by (simp add: unat_add_u32)
  note ex = kheap_expand_def [of k s, unfolded Let_def, folded pages0_def, folded pages_def, folded new_block_def, unfolded bytes]
  show ?thesis
  proof (cases "heap_end s + pages * PAGE_SIZE > KERNEL_HEAP_LIMIT")
    case True
    then show ?thesis using inv by (intro that(1) [of s]) (auto simp: ex heap_pre_def)
  next
    case False
    then have le: "unat (heap_end s) + unat pages * 4096 \<le> 0xFC000000" using sum by (simp add: word_less_nat_alt)
    obtain r s1 where m: "map_heap_pages (unat pages) 0 s = (r, s1)" by fastforce
    from map_heap_pages_words [OF m] le
    have w: "heap_head s1 = heap_head s" "kheap_ready s1 = kheap_ready s" "\<And>x. unat x < unat (heap_end s) \<Longrightarrow> hw s1 x = hw s x"
      "r = Inr u \<Longrightarrow> unat (heap_end s1) = unat (heap_end s) + 16 + n" for u
      using n(4) by auto
    have fr: "hw s1 x = hw s x" if "payload KERNEL_HEAP_BASE cs x" for x using payload_below [OF that] w(3) e(1) by simp
    show ?thesis
    proof (cases r)
      case (Inl err)
      have "heap_inv (s1\<lparr>heap_end := heap_end s\<rparr>) cs" if "cs \<noteq> []"
        using inv that w(1,3) seg_cong [of KERNEL_HEAP_BASE cs "hw s1" "hw s"]
        by (auto simp: heap_pre_def heap_inv_def within_def)
      then show ?thesis using False m Inl w(2) fr by (intro that(1) [of "s1\<lparr>heap_end := heap_end s\<rparr>"]) (auto simp: ex)
    next
      case (Inr u)
      show ?thesis
      proof (cases "cs = []")
        case True
        let ?t = "(new_block (heap_end s) (of_nat n) s1)\<lparr>heap_head := heap_end s\<rparr>"
        have h: "heap_head s = 0" "heap_end s = KERNEL_HEAP_BASE" using inv True by (auto simp: heap_pre_def heap_inv_def)
        have "heap_inv ?t (grown cs n)"
          using True h w(4) [OF Inr] le n by (simp add: heap_inv_def grown_def cells_ok_def cell_ok_def)
        then show ?thesis using False m Inr h w True n by (intro that(2) [of ?t n]) (auto simp: ex kheap_last_block_def payload_def)
      next
        case ne: False
        then have "heap_inv s cs" using inv by (simp add: heap_pre_def)
        from link_block [OF this n(1,2) _ w(1) w(4) [OF Inr] w(2,3)] le n(4)
        obtain tail t where "tail \<noteq> 0" "kheap_last_block (new_block (heap_end s) (of_nat n) s1) = Some tail"
          "t = kheap_coalesce (heap_end s) (poke (heap_end s + 12) tail (poke (tail + 8) (heap_end s) (new_block (heap_end s) (of_nat n) s1)))"
          "heap_inv t (grown cs n)" "kheap_ready t = kheap_ready s" "\<And>x. payload KERNEL_HEAP_BASE cs x \<Longrightarrow> hw t x = hw s x"
          by auto
        then show ?thesis using False m Inr n by (intro that(2) [of t n]) (simp_all add: ex)
      qed
    qed
  qed
qed

section \<open>Initialisation and allocation\<close>

lemma first_fit_last: "n \<ge> k \<Longrightarrow> first_fit k (xs @ [(n, True)]) \<noteq> None"
  using first_fit_None [of k "xs @ [(n, True)]" n] by fastforce

lemma heap_search:
  assumes "heap_inv s cs"
  shows "find_from s (heap_head s) k =
    Some (case first_fit (unat k) cs of None \<Rightarrow> 0 | Some (xs, n, ys) \<Rightarrow> KERNEL_HEAP_BASE + of_nat (extent xs))"
  using find_from_seg [OF heap_invD(3,4) [OF assms], of k] heap_invD(1,2) [OF assms] by simp

text \<open>What a successful allocation of \<open>k\<close> bytes at \<open>p\<close> does to the heap with the cells \<open>cs\<close>.\<close>

definition allocated :: "nat \<Rightarrow> u32 \<Rightarrow> kheap_state \<Rightarrow> cell list \<Rightarrow> kheap_state \<Rightarrow> cell list \<Rightarrow> bool" where
  "allocated k p s cs t ds \<longleftrightarrow>
     heap_inv t ds \<and> 16 dvd unat p \<and>
     (\<exists>m\<ge>k. (unat p, m) \<notin> regions 0xF8000000 cs \<and> regions 0xF8000000 ds = insert (unat p, m) (regions 0xF8000000 cs) \<and>
        (\<forall>(y, l) \<in> regions 0xF8000000 cs. unat p + m \<le> y \<or> y + l \<le> unat p)) \<and>
     (\<forall>x. payload KERNEL_HEAP_BASE cs x \<longrightarrow> hw t x = hw s x)"

lemma extent_dvd: "list_all cell_ok cs \<Longrightarrow> 16 dvd extent cs"
  by (induction cs) (auto simp: cell_ok_def)

lemma kmalloc_take:
  assumes inv: "heap_inv s cs" and k: "16 dvd unat k" "16 \<le> unat k" and ff: "first_fit (unat k) cs = Some (xs, n, ys)"
  obtains p t ds where "kmalloc_loop k s = Some (p, t)" "p \<noteq> 0" "allocated (unat k) p s cs t ds"
proof -
  have c: "cs = xs @ (n, True) # ys" and kn: "unat k \<le> n" using first_fit_Some [OF ff] by simp_all
  note i = heap_invD [OF inv]
  define b where "b = KERNEL_HEAP_BASE + of_nat (extent xs)"
  have ub: "unat b = 0xF8000000 + extent xs" using i(4) c by (simp add: b_def unat_add_u32 unat_of_nat_u32)
  have up: "unat (b + 16) = 0xF8000000 + extent xs + 16" using ub i(4) c by (simp add: unat_add_u32)
  have nz: "b \<noteq> 0" "b + 16 \<noteq> 0" using ub up by (auto simp: word_unat_eq_iff)
  define t where "t = poke (b + 4) 0 (kheap_split_block b k s)"
  have t: "t = poke (b + 4) 0 (kheap_split_block b (of_nat (unat k)) s)" by (simp add: t_def)
  have loop: "kmalloc_loop k s = Some (b + 16, t)"
    using nz by (subst kmalloc_loop.simps) (simp add: heap_search [OF inv] ff t_def flip: b_def)
  note tb = take_block [OF inv [unfolded c] kn k b_def t]
  from taken_cells(4) [OF i(7) [unfolded c] kn k] obtain m where m: "unat k \<le> m"
    "regions 0xF8000000 (taken (unat k) xs n ys) = insert (unat (b + 16), m) (regions 0xF8000000 cs)"
    unfolding up c by blast
  have new: "(unat (b + 16), m) \<notin> regions 0xF8000000 cs"
    using up c by (fastforce dest: regions_bounds)
  moreover have "unat (b + 16) + m \<le> y \<or> y + l \<le> unat (b + 16)" if yl: "(y, l) \<in> regions 0xF8000000 cs" for y l
  proof -
    have "(y, l) \<noteq> (unat (b + 16), m)" using yl new by metis
    with yl m(2) regions_apart [of y l "0xF8000000" "taken (unat k) xs n ys" "unat (b + 16)" m]
    have "y + l + 16 \<le> unat (b + 16) \<or> unat (b + 16) + m + 16 \<le> y" by simp
    then show ?thesis by linarith
  qed
  moreover have "16 dvd extent xs" using i(7) c by (intro extent_dvd) (simp add: cells_ok_def)
  then have "16 dvd unat (b + 16)" unfolding up by (intro dvd_add) simp_all
  ultimately have "allocated (unat k) (b + 16) s cs t (taken (unat k) xs n ys)"
    using tb m c unfolding allocated_def by auto
  then show ?thesis using that loop nz(2) by blast
qed

lemma align_up_16:
  assumes "0 < unat len" "unat len \<le> 0x3FFEFF0"
  shows "16 dvd unat (align_up_size len KHEAP_ALIGN)" "16 \<le> unat (align_up_size len KHEAP_ALIGN)"
    "unat len \<le> unat (align_up_size len KHEAP_ALIGN)" "unat (align_up_size len KHEAP_ALIGN) \<le> 0x3FFEFF0"
proof -
  have u: "unat (align_up_size len KHEAP_ALIGN) = (unat len + 15) div 16 * 16"
    unfolding align_up_size_def using assms unat_align_up [of KHEAP_ALIGN 4 len] by simp
  show "16 dvd unat (align_up_size len KHEAP_ALIGN)" unfolding u by simp
  show "16 \<le> unat (align_up_size len KHEAP_ALIGN)" "unat len \<le> unat (align_up_size len KHEAP_ALIGN)"
    "unat (align_up_size len KHEAP_ALIGN) \<le> 0x3FFEFF0"
    unfolding u using assms by presburger+
qed

lemma allocated_mono: "allocated k p s cs t ds \<Longrightarrow> j \<le> k \<Longrightarrow> allocated j p s cs t ds"
  unfolding allocated_def by (meson le_trans)

text \<open>
  C32. On a well-formed kernel heap a request of up to 0x3FFEFF0 bytes returns: the walk along the blocks ends and
  the heap is grown at most once. Either the result is null, the heap could not be grown and every block in use is
  still there; or it is a 16-byte aligned block of at least the size asked for that is disjoint from every block in
  use. In both cases the words of the blocks in use are unchanged.
\<close>

theorem kmalloc_correct:
  assumes "heap_inv s cs" "kheap_ready s" "0 < unat len" "unat len \<le> 0x3FFEFF0"
  shows "\<exists>p t ds. kmalloc len s = Some (p, t) \<and>
    (if p = 0 then heap_inv t cs \<and> (\<forall>x. payload KERNEL_HEAP_BASE cs x \<longrightarrow> hw t x = hw s x)
     else allocated (unat len) p s cs t ds)"
proof -
  define k where "k = align_up_size len KHEAP_ALIGN"
  note a = align_up_16 [OF assms(3,4), folded k_def]
  have km: "kmalloc len s = kmalloc_loop k s" using assms(2,3) by (auto simp: kmalloc_def k_def)
  have grow: "\<exists>p t ds. kmalloc_loop k s = Some (p, t) \<and>
      (if p = 0 then heap_inv t cs \<and> (\<forall>x. payload KERNEL_HEAP_BASE cs x \<longrightarrow> hw t x = hw s x) else allocated (unat k) p s cs t ds)"
    if none: "first_fit (unat k) cs = None"
  proof -
    have pre: "heap_pre s cs" using assms(1) by (simp add: heap_pre_def)
    from pre a(4) show ?thesis
    proof (cases rule: kheap_expand_cells)
      case (1 t)
      then show ?thesis using none heap_invD(1) [OF assms(1)]
        by (subst kmalloc_loop.simps) (auto simp: heap_search [OF assms(1)])
    next
      case (2 t n)
      from grown_cells(4) [OF heap_invD(7) [OF assms(1)] 2(6,7)] obtain xs m where g: "grown cs n = xs @ [(m, True)]" "n \<le> m" by blast
      then have "first_fit (unat k) (grown cs n) \<noteq> None" using first_fit_last [of "unat k" m xs] 2(3) by simp
      then obtain ys j zs where "first_fit (unat k) (grown cs n) = Some (ys, j, zs)" by auto
      from kmalloc_take [OF 2(2) a(1,2) this] obtain p u ds
        where u: "kmalloc_loop k t = Some (p, u)" "p \<noteq> 0" "allocated (unat k) p t (grown cs n) u ds" .
      have "payload KERNEL_HEAP_BASE (grown cs n) = payload KERNEL_HEAP_BASE cs" by (intro payload_eq regions_grown)
      then have "allocated (unat k) p s cs u ds" using u(3) 2(5) by (simp add: allocated_def regions_grown)
      moreover have "kmalloc_loop k s = kmalloc_loop k t"
        using none 2(1) by (subst kmalloc_loop.simps) (simp add: heap_search [OF assms(1)])
      ultimately show ?thesis using u(1,2) by auto
    qed
  qed
  show ?thesis
  proof (cases "first_fit (unat k) cs")
    case None
    from grow [OF this] show ?thesis unfolding km using allocated_mono a(3) by (meson)
  next
    case (Some q)
    then obtain xs n ys where "first_fit (unat k) cs = Some (xs, n, ys)" by (cases q) auto
    from kmalloc_take [OF assms(1) a(1,2) this] show ?thesis unfolding km using allocated_mono a(3) by metis
  qed
qed

theorem kmalloc_correct_witness:
  "\<exists>p t ds. kmalloc 24 demo_heap = Some (p, t) \<and>
     (if p = 0 then heap_inv t demo_cells \<and> (\<forall>x. payload KERNEL_HEAP_BASE demo_cells x \<longrightarrow> hw t x = hw demo_heap x)
      else allocated 24 p demo_heap demo_cells t ds)"
proof -
  have "kheap_ready demo_heap" "0 < unat (24 :: u32)" "unat (24 :: u32) \<le> 0x3FFEFF0" by (simp_all add: demo_heap_def)
  moreover have "unat (24 :: u32) = 24" by simp
  ultimately show ?thesis using kmalloc_correct [OF demo_heap_inv, of 24] by metis
qed

text \<open>A request within 15 bytes of \<open>2\<^sup>3\<^sup>2\<close> is rounded to 0 and gets a block with no room for it.\<close>

lemma kmalloc_wraps:
  assumes "len > 0xFFFFFFF0"
  shows "\<exists>t. kmalloc len demo_heap = Some (0xF8000040, t)"
proof -
  have "unat len > 4294967280" using assms by (simp add: word_less_nat_alt)
  moreover have "len + KHEAP_ALIGN - 1 = len + 15" by simp
  ultimately have "unat (len + KHEAP_ALIGN - 1) = unat len + 15 - 4294967296" by (simp add: unat_plus_if')
  then have "unat (len + KHEAP_ALIGN - 1) < 16" using unat_u32_lt [of len] by linarith
  then have "unat (align_up_size len KHEAP_ALIGN) = 0"
    using unat_and_not_mask [of "len + KHEAP_ALIGN - 1" 4] by (simp add: align_up_size_def mask_eq_exp_minus_1)
  then have z: "align_up_size len KHEAP_ALIGN = 0" by (simp add: word_unat_eq_iff)
  have "find_from demo_heap (heap_head demo_heap) 0 = Some 0xF8000030"
    by (simp add: heap_search [OF demo_heap_inv] demo_cells_def)
  then show ?thesis using assms z
    by (auto simp: kmalloc_def kmalloc_loop.simps demo_heap_def)
qed

text \<open>Initialisation always returns and leaves either an unusable heap or a well-formed one with no block in use.\<close>

lemma kheap_init_cells:
  obtains t where "kheap_init s = Some t" "\<not> kheap_ready t" | t cs where "kheap_init s = Some t" "kheap_ready t" "heap_inv t cs" "regions a cs = {}"
proof -
  let ?s = "s\<lparr>heap_head := 0, heap_end := KERNEL_HEAP_BASE, committed_pages := 0, kheap_ready := False\<rparr>"
  have "heap_pre ?s []" "unat PAGE_SIZE \<le> 0x3FFEFF0" by (simp_all add: heap_pre_def)
  then show ?thesis
  proof (cases rule: kheap_expand_cells)
    case (1 t)
    then show ?thesis by (intro that(1) [of t]) (simp_all add: kheap_init_def)
  next
    case (2 t n)
    then have "heap_inv (t\<lparr>kheap_ready := True\<rparr>) (grown [] n)" by (simp add: heap_inv_def)
    then show ?thesis using 2(1) regions_grown [of a "[]" n]
      by (intro that(2) [of "t\<lparr>kheap_ready := True\<rparr>" "grown [] n"]) (simp_all add: kheap_init_def)
  qed
qed

end
