(* ===== verification/Kstack.thy ===== *)
theory Kstack
  imports Paging
begin

text \<open>
  Kernel stacks, \<^verbatim>\<open>src/kernel/kstack.c\<close>: the range from \<open>KERNEL_STACK_BASE\<close> is cut into slots of three pages,
  an unmapped guard page and two stack pages, and a bitmap says which slots are in use. A pointer to a
  \<^verbatim>\<open>kernel_stack_t\<close> is the record itself, so the tests for null pointers have no counterpart; console output
  is not modelled.
\<close>

section \<open>State and operations\<close>

abbreviation KERNEL_STACK_BASE :: u32 where "KERNEL_STACK_BASE \<equiv> 0xFC000000"
abbreviation KERNEL_STACK_LIMIT :: u32 where "KERNEL_STACK_LIMIT \<equiv> 0xFFC00000"
abbreviation KSTACK_GUARD_PAGES :: u32 where "KSTACK_GUARD_PAGES \<equiv> 1"
abbreviation KSTACK_DATA_PAGES :: u32 where "KSTACK_DATA_PAGES \<equiv> 2"
abbreviation KSTACK_SLOT_SIZE :: u32 where "KSTACK_SLOT_SIZE \<equiv> 0x3000"
definition KSTACK_SLOT_COUNT :: u32 where "KSTACK_SLOT_COUNT = (KERNEL_STACK_LIMIT - KERNEL_STACK_BASE) div KSTACK_SLOT_SIZE"

record kernel_stack =
  guard_base :: u32
  stack_base :: u32
  stack_top :: u32

record kstack_state =
  ks_mem :: mem_state
  kstack_slots :: "nat \<Rightarrow> u8"
  kstack_ready :: bool
  kstack_active_count :: u32

definition kstack_clear :: kernel_stack where
  "kstack_clear = \<lparr>guard_base = 0, stack_base = 0, stack_top = 0\<rparr>"

definition kstack_slot_guard_base :: "u32 \<Rightarrow> u32" where
  "kstack_slot_guard_base slot_index = KERNEL_STACK_BASE + slot_index * KSTACK_SLOT_SIZE"

definition kstack_slot_stack_base :: "u32 \<Rightarrow> u32" where
  "kstack_slot_stack_base slot_index = kstack_slot_guard_base slot_index + KSTACK_GUARD_PAGES * PAGE_SIZE"

definition kstack_slot_stack_top :: "u32 \<Rightarrow> u32" where
  "kstack_slot_stack_top slot_index = kstack_slot_stack_base slot_index + KSTACK_DATA_PAGES * PAGE_SIZE"

text \<open>The bit of a slot.\<close>

definition slot_used :: "(nat \<Rightarrow> u8) \<Rightarrow> nat \<Rightarrow> bool" where
  "slot_used m i \<longleftrightarrow> m (i div 8) AND push_bit (i mod 8) 1 \<noteq> 0"

definition slot_set :: "nat \<Rightarrow> (nat \<Rightarrow> u8) \<Rightarrow> nat \<Rightarrow> u8" where
  "slot_set i m = m(i div 8 := m (i div 8) OR push_bit (i mod 8) 1)"

definition slot_clear :: "nat \<Rightarrow> (nat \<Rightarrow> u8) \<Rightarrow> nat \<Rightarrow> u8" where
  "slot_clear i m = m(i div 8 := m (i div 8) AND NOT (push_bit (i mod 8) 1))"

definition kstack_slot_mark_used :: "u32 \<Rightarrow> kstack_state \<Rightarrow> unit result \<times> kstack_state" where
  "kstack_slot_mark_used slot_index s =
     (if slot_used (kstack_slots s) (unat slot_index) then (Inl EFAIL, s)
      else (Inr (), s\<lparr>kstack_slots := slot_set (unat slot_index) (kstack_slots s)\<rparr>))"

definition kstack_slot_mark_free :: "u32 \<Rightarrow> kstack_state \<Rightarrow> kstack_state" where
  "kstack_slot_mark_free slot_index s = s\<lparr>kstack_slots := slot_clear (unat slot_index) (kstack_slots s)\<rparr>"

definition kstack_find_slot :: "kstack_state \<Rightarrow> u32 result" where
  "kstack_find_slot s =
     (case find (\<lambda>i. \<not> slot_used (kstack_slots s) i) [0..<unat KSTACK_SLOT_COUNT] of
        None \<Rightarrow> Inl EFAIL
      | Some i \<Rightarrow> Inr (of_nat i))"

definition kstack_slot_index_from_guard :: "u32 \<Rightarrow> u32 result" where
  "kstack_slot_index_from_guard base =
     (if base < KERNEL_STACK_BASE \<or> base \<ge> KERNEL_STACK_LIMIT then Inl EFAIL
      else
        let offset = base - KERNEL_STACK_BASE in
        if offset mod KSTACK_SLOT_SIZE \<noteq> 0 then Inl EFAIL
        else
          let slot_index = offset div KSTACK_SLOT_SIZE in
          if slot_index \<ge> KSTACK_SLOT_COUNT then Inl EFAIL else Inr slot_index)"

definition kstack_init :: "kstack_state \<Rightarrow> kstack_state" where
  "kstack_init s = s\<lparr>kstack_slots := (\<lambda>_. 0), kstack_ready := True, kstack_active_count := 0\<rparr>"

text \<open>The pages of a stack, cleared as they are taken; a failure gives back those taken before.\<close>

fun alloc_stack_pages :: "nat \<Rightarrow> u32 list \<Rightarrow> mem_state \<Rightarrow> u32 list result \<times> mem_state" where
  "alloc_stack_pages 0 pages m = (Inr pages, m)"
| "alloc_stack_pages (Suc n) pages m =
     (let (physical_page, m1) = alloc_page m in
      if physical_page = 0 then (Inl EFAIL, fold release_page pages m1)
      else alloc_stack_pages n (pages @ [physical_page]) (zero_page physical_page m1))"

definition kstack_alloc :: "kernel_stack \<Rightarrow> kstack_state \<Rightarrow> unit result \<times> kernel_stack \<times> kstack_state" where
  "kstack_alloc stack s =
     (if \<not> kstack_ready s then (Inl EFAIL, stack, s)
      else
        let directory_phys = paging_current_directory_phys (ks_mem s) in
        case kstack_find_slot s of
          Inl e \<Rightarrow> (Inl EFAIL, kstack_clear, s)
        | Inr slot_index \<Rightarrow>
            case kstack_slot_mark_used slot_index s of
              (Inl e, s1) \<Rightarrow> (Inl EFAIL, kstack_clear, s1)
            | (Inr _, s1) \<Rightarrow>
                case alloc_stack_pages (unat KSTACK_DATA_PAGES) [] (ks_mem s1) of
                  (Inl e, m) \<Rightarrow> (Inl EFAIL, kstack_clear, kstack_slot_mark_free slot_index (s1\<lparr>ks_mem := m\<rparr>))
                | (Inr physical_pages, m) \<Rightarrow>
                    case paging_map_pages_in directory_phys (kstack_slot_stack_base slot_index) physical_pages PAGE_WRITABLE m of
                      (Inl e, m1) \<Rightarrow>
                        (Inl EFAIL, kstack_clear, kstack_slot_mark_free slot_index (s1\<lparr>ks_mem := fold release_page physical_pages m1\<rparr>))
                    | (Inr _, m1) \<Rightarrow>
                        (Inr (), \<lparr>guard_base = kstack_slot_guard_base slot_index, stack_base = kstack_slot_stack_base slot_index,
                           stack_top = kstack_slot_stack_top slot_index\<rparr>,
                         s1\<lparr>ks_mem := m1, kstack_active_count := kstack_active_count s1 + 1\<rparr>))"

definition free_stack_page :: "u32 \<Rightarrow> kernel_stack \<Rightarrow> nat \<Rightarrow> mem_state \<Rightarrow> mem_state" where
  "free_stack_page directory_phys stack index m =
     (let virtual_address = stack_base stack + of_nat index * PAGE_SIZE;
          physical_page = paging_resolve_physical_in directory_phys virtual_address m in
      if physical_page \<noteq> 0 then release_page physical_page (paging_unmap_page_in directory_phys virtual_address m) else m)"

definition kstack_free :: "kernel_stack \<Rightarrow> kstack_state \<Rightarrow> kernel_stack \<times> kstack_state" where
  "kstack_free stack s =
     (if guard_base stack = 0 then (stack, s)
      else
        let directory_phys = paging_current_directory_phys (ks_mem s) in
        case kstack_slot_index_from_guard (guard_base stack) of
          Inl e \<Rightarrow> (kstack_clear, s)
        | Inr slot_index \<Rightarrow>
            let m = fold (free_stack_page directory_phys stack) [0..<unat KSTACK_DATA_PAGES] (ks_mem s);
                m1 = paging_unmap_page_in directory_phys (guard_base stack) m;
                s1 = s\<lparr>ks_mem := m1\<rparr>;
                s2 = (if kstack_active_count s1 \<noteq> 0 then s1\<lparr>kstack_active_count := kstack_active_count s1 - 1\<rparr> else s1)
            in (kstack_clear, kstack_slot_mark_free slot_index s2))"

definition kstack_is_guard_address :: "u32 \<Rightarrow> bool" where
  "kstack_is_guard_address virtual_address =
     (if virtual_address < KERNEL_STACK_BASE \<or> virtual_address \<ge> KERNEL_STACK_LIMIT then False
      else (virtual_address - KERNEL_STACK_BASE) mod KSTACK_SLOT_SIZE < KSTACK_GUARD_PAGES * PAGE_SIZE)"

text \<open>The self test writes a word at the top of a new stack through its mapping and reads it back.\<close>

definition kstack_selftest :: "kstack_state \<Rightarrow> unit result \<times> kstack_state" where
  "kstack_selftest s =
     (let directory_phys = paging_current_directory_phys (ks_mem s) in
      case kstack_alloc kstack_clear s of
        (Inl e, stack, s1) \<Rightarrow> (Inl EFAIL, s1)
      | (Inr _, stack, s1) \<Rightarrow>
          if paging_lookup_page_in directory_phys (guard_base stack) (ks_mem s1) \<noteq> Inl EFAIL
          then (Inl EFAIL, snd (kstack_free stack s1))
          else if \<not> paging_range_present_in directory_phys (stack_base stack) KSTACK_DATA_PAGES PAGE_WRITABLE (ks_mem s1)
          then (Inl EFAIL, snd (kstack_free stack s1))
          else
            let word = paging_resolve_physical_in directory_phys (stack_top stack - 4) (ks_mem s1) + 0xFFC;
                s2 = s1\<lparr>ks_mem := store word 0xA5A55A5A (ks_mem s1)\<rparr> in
            if load (ks_mem s2) word \<noteq> 0xA5A55A5A then (Inl EFAIL, snd (kstack_free stack s2))
            else
              let s3 = snd (kstack_free stack s2) in
              if paging_lookup_page_in directory_phys (stack_base stack) (ks_mem s3) \<noteq> Inl EFAIL then (Inl EFAIL, s3)
              else (Inr (), s3))"

section \<open>Slots\<close>

interpretation slot_bm: bitmap slot_used slot_set slot_clear
  unfolding slot_used_def slot_set_def slot_clear_def
  by (unfold_locales; rule word_bitmap_set word_bitmap_clear; simp)

lemma slot_count [simp]: "KSTACK_SLOT_COUNT = 5120"
  by (simp add: KSTACK_SLOT_COUNT_def)

lemma slot_addresses:
  assumes "i < 5120"
  shows "unat (kstack_slot_guard_base (of_nat i)) = 0xFC000000 + 12288 * i"
    "unat (kstack_slot_stack_base (of_nat i)) = 0xFC000000 + 12288 * i + 4096"
    "unat (kstack_slot_stack_top (of_nat i)) = 0xFC000000 + 12288 * i + 12288"
proof -
  have "unat (of_nat i * KSTACK_SLOT_SIZE :: u32) = 12288 * i"
    using assms by (simp add: unat_word_ariths unat_of_nat)
  then show g: "unat (kstack_slot_guard_base (of_nat i)) = 0xFC000000 + 12288 * i"
    using assms by (simp add: kstack_slot_guard_base_def unat_add_u32)
  then show b: "unat (kstack_slot_stack_base (of_nat i)) = 0xFC000000 + 12288 * i + 4096"
    using assms by (simp add: kstack_slot_stack_base_def unat_add_u32)
  then show "unat (kstack_slot_stack_top (of_nat i)) = 0xFC000000 + 12288 * i + 12288"
    using assms by (simp add: kstack_slot_stack_top_def unat_add_u32)
qed

text \<open>The stacks of two slots do not overlap, and the guard page of a slot is below its stack.\<close>

lemma stacks_apart:
  assumes "i < j" "j < 5120"
  shows "kstack_slot_stack_top (of_nat i) \<le> kstack_slot_guard_base (of_nat j)"
  using assms by (simp add: word_le_nat_alt slot_addresses)

lemma guard_address_iff:
  "kstack_is_guard_address va \<longleftrightarrow>
     (\<exists>i<5120. unat (kstack_slot_guard_base (of_nat i)) \<le> unat va \<and> unat va < unat (kstack_slot_stack_base (of_nat i)))"
proof
  assume g: "kstack_is_guard_address va"
  then have r: "0xFC000000 \<le> unat va" "unat va < 0xFFC00000"
    by (auto simp: kstack_is_guard_address_def word_less_nat_alt word_le_nat_alt split: if_splits)
  define n where "n = unat va - 0xFC000000"
  have "n mod 12288 < 4096"
    using g r by (auto simp: kstack_is_guard_address_def word_less_nat_alt unat_mod unat_sub_if' n_def split: if_splits)
  moreover obtain q r where q: "n = 12288 * q + r" "r < 12288"
    using mult_div_mod_eq [of 12288 n] mod_less_divisor [of 12288 n] by (metis zero_less_numeral)
  moreover have "unat va = 0xFC000000 + n" "q < 5120" using r q by (simp_all add: n_def)
  ultimately show "\<exists>i<5120. unat (kstack_slot_guard_base (of_nat i)) \<le> unat va \<and> unat va < unat (kstack_slot_stack_base (of_nat i))"
    by (intro exI [of _ q]) (simp add: slot_addresses)
next
  assume "\<exists>i<5120. unat (kstack_slot_guard_base (of_nat i)) \<le> unat va \<and> unat va < unat (kstack_slot_stack_base (of_nat i))"
  then obtain i where i: "i < 5120" "0xFC000000 + 12288 * i \<le> unat va" "unat va < 0xFC000000 + 12288 * i + 4096"
    by (auto simp: slot_addresses)
  define r where "r = unat va - 0xFC000000 - 12288 * i"
  have "unat va - 0xFC000000 = 12288 * i + r" "r < 4096" using i by (simp_all add: r_def)
  then have "(unat va - 0xFC000000) mod 12288 < 4096" by simp
  then show "kstack_is_guard_address va"
    using i by (simp add: kstack_is_guard_address_def word_less_nat_alt word_le_nat_alt unat_mod unat_sub_if')
qed

lemma slot_index_guard: "i < 5120 \<Longrightarrow> kstack_slot_index_from_guard (kstack_slot_guard_base (of_nat i)) = Inr (of_nat i)"
proof -
  assume i: "i < 5120"
  have "unat (kstack_slot_guard_base (of_nat i) - KERNEL_STACK_BASE) = 12288 * i"
    using i by (simp add: unat_sub_if' slot_addresses)
  then have "unat ((kstack_slot_guard_base (of_nat i) - KERNEL_STACK_BASE) mod KSTACK_SLOT_SIZE) = 0"
    "unat ((kstack_slot_guard_base (of_nat i) - KERNEL_STACK_BASE) div KSTACK_SLOT_SIZE) = i"
    by (simp_all add: unat_mod unat_div)
  then show ?thesis
    using i by (simp add: kstack_slot_index_from_guard_def Let_def word_less_nat_alt word_le_nat_alt slot_addresses word_unat_eq_iff unat_of_nat)
qed

section \<open>Taking and giving back a slot\<close>

definition slots_in_use :: "kstack_state \<Rightarrow> nat set" where
  "slots_in_use s = {i. slot_used (kstack_slots s) i}"

lemma find_slot_Some:
  assumes "kstack_find_slot s = Inr k"
  obtains i where "k = of_nat i" "i < 5120" "i \<notin> slots_in_use s"
  using assms by (auto simp: kstack_find_slot_def slots_in_use_def find_Some_iff split: option.splits)

lemma kstack_alloc_slot:
  assumes "kstack_alloc st s = (r, st', s')"
  shows "r = Inl e \<Longrightarrow> slots_in_use s' = slots_in_use s"
    "r = Inr u \<Longrightarrow> \<exists>i<5120. i \<notin> slots_in_use s \<and> slots_in_use s' = insert i (slots_in_use s) \<and>
      st' = \<lparr>guard_base = kstack_slot_guard_base (of_nat i), stack_base = kstack_slot_stack_base (of_nat i),
        stack_top = kstack_slot_stack_top (of_nat i)\<rparr>"
proof -
  have "(\<forall>e. r = Inl e \<longrightarrow> slots_in_use s' = slots_in_use s) \<and>
    (\<forall>u. r = Inr u \<longrightarrow> (\<exists>i<5120. i \<notin> slots_in_use s \<and> slots_in_use s' = insert i (slots_in_use s) \<and>
      st' = \<lparr>guard_base = kstack_slot_guard_base (of_nat i), stack_base = kstack_slot_stack_base (of_nat i),
        stack_top = kstack_slot_stack_top (of_nat i)\<rparr>))"
  proof (cases "kstack_find_slot s")
    case (Inl e)
    then show ?thesis using assms by (auto simp: kstack_alloc_def Let_def split: if_splits)
  next
    case (Inr k)
    then obtain i where k: "k = of_nat i" "i < 5120" "i \<notin> slots_in_use s" by (rule find_slot_Some)
    have u: "unat (of_nat i :: u32) = i" using k(2) by (intro unat_of_nat_u32) simp
    have f: "\<not> slot_used (kstack_slots s) i" using k(3) by (simp add: slots_in_use_def)
    then show ?thesis
      using assms Inr k u
      by (auto simp: kstack_alloc_def Let_def kstack_slot_mark_used_def kstack_slot_mark_free_def slots_in_use_def
          slot_bm.used_set_used slot_bm.used_set_free split: if_splits prod.splits sum.splits)
  qed
  then show "r = Inl e \<Longrightarrow> slots_in_use s' = slots_in_use s"
    "r = Inr u \<Longrightarrow> \<exists>i<5120. i \<notin> slots_in_use s \<and> slots_in_use s' = insert i (slots_in_use s) \<and>
      st' = \<lparr>guard_base = kstack_slot_guard_base (of_nat i), stack_base = kstack_slot_stack_base (of_nat i),
        stack_top = kstack_slot_stack_top (of_nat i)\<rparr>" by blast+
qed

lemma kstack_free_slot:
  assumes "guard_base st = kstack_slot_guard_base (of_nat i)" "i < 5120" "kstack_free st s = (st', s')"
  shows "slots_in_use s' = slots_in_use s - {i}" "st' = kstack_clear"
proof -
  have u: "unat (of_nat i :: u32) = i" using assms(2) by (intro unat_of_nat_u32) simp
  have "unat (guard_base st) \<noteq> 0" using assms(1) slot_addresses(1) [OF assms(2)] by simp
  then have g: "guard_base st \<noteq> 0" by (metis unat_0)
  then show "slots_in_use s' = slots_in_use s - {i}" "st' = kstack_clear"
    using assms slot_index_guard [OF assms(2)] u
    by (auto simp: kstack_free_def Let_def kstack_slot_mark_free_def slots_in_use_def slot_bm.used_set_free
        split: if_splits)
qed

end
