(* ===== verification/Trace.thy ===== *)
theory Trace
  imports Prelude
begin

text \<open>
  The clock, \<^verbatim>\<open>src/kernel/pit.c\<close>, and the trace buffer, \<^verbatim>\<open>src/kernel/trace.c\<close>: a ring of the last
  256 records, read by sequence number. The commands the clock driver gives to the timer chip are a list of
  port and byte. Interrupt masking is not modelled: every operation runs to its end.
\<close>

section \<open>Clock\<close>

abbreviation PIT_COMMAND :: u16 where "PIT_COMMAND \<equiv> 0x43"
abbreviation PIT_CHANNEL0 :: u16 where "PIT_CHANNEL0 \<equiv> 0x40"
abbreviation PIT_BASE_FREQUENCY :: u32 where "PIT_BASE_FREQUENCY \<equiv> 1193182"

record pit_state =
  tick_count :: u32
  hardware_tick_seen :: bool
  fallback_announced :: bool

definition pit_init :: "u32 \<Rightarrow> (u16 \<times> u8) list" where
  "pit_init frequency_hz =
     (let divisor0 = PIT_BASE_FREQUENCY div frequency_hz;
          divisor = (if divisor0 = 0 then 1 else divisor0)
      in [(PIT_COMMAND, 0x00 OR 0x30 OR 0x04), (PIT_CHANNEL0, ucast (divisor AND 0xFF)), (PIT_CHANNEL0, ucast (drop_bit 8 divisor AND 0xFF))])"

definition pit_handle_tick :: "pit_state \<Rightarrow> pit_state" where
  "pit_handle_tick s = s\<lparr>hardware_tick_seen := True, tick_count := tick_count s + 1\<rparr>"

definition pit_ensure_progress :: "pit_state \<Rightarrow> pit_state" where
  "pit_ensure_progress s =
     (if hardware_tick_seen s then s
      else s\<lparr>fallback_announced := True, tick_count := tick_count s + 1\<rparr>)"

definition pit_hardware_tick_seen :: "pit_state \<Rightarrow> bool" where "pit_hardware_tick_seen s = hardware_tick_seen s"

definition pit_ticks :: "pit_state \<Rightarrow> u32" where "pit_ticks s = tick_count s"

section \<open>Trace buffer\<close>

definition TRACE_CAPACITY :: u32 where "TRACE_CAPACITY = 256"

record sys_trace_record =
  tr_sequence :: u32
  tr_ticks :: u32
  tr_category :: u32
  tr_event :: u32
  tr_arg0 :: u32
  tr_arg1 :: u32
  tr_arg2 :: u32

record sys_trace_info =
  ti_capacity :: u32
  ti_count :: u32
  ti_next_sequence :: u32

record trace_state =
  trace_ring :: "nat \<Rightarrow> sys_trace_record"
  trace_next_sequence :: u32
  trace_count :: u32
  trace_ready :: bool

definition zero_record :: sys_trace_record where
  "zero_record = \<lparr>tr_sequence = 0, tr_ticks = 0, tr_category = 0, tr_event = 0, tr_arg0 = 0, tr_arg1 = 0, tr_arg2 = 0\<rparr>"

definition trace_init :: trace_state where
  "trace_init = \<lparr>trace_ring = (\<lambda>_. zero_record), trace_next_sequence = 0, trace_count = 0, trace_ready = True\<rparr>"

definition trace_log :: "u32 \<Rightarrow> u32 \<Rightarrow> u32 \<Rightarrow> u32 \<Rightarrow> u32 \<Rightarrow> u32 \<Rightarrow> trace_state \<Rightarrow> trace_state" where
  "trace_log ticks category event arg0 arg1 arg2 s =
     (if \<not> trace_ready s then s
      else
        let slot = unat (trace_next_sequence s mod TRACE_CAPACITY);
            r = \<lparr>tr_sequence = trace_next_sequence s, tr_ticks = ticks, tr_category = category, tr_event = event,
                 tr_arg0 = arg0, tr_arg1 = arg1, tr_arg2 = arg2\<rparr>
        in s\<lparr>trace_ring := (trace_ring s)(slot := r), trace_next_sequence := trace_next_sequence s + 1,
             trace_count := (if trace_count s < TRACE_CAPACITY then trace_count s + 1 else trace_count s)\<rparr>)"

text \<open>The address of the caller's buffer only matters in that it must not be null.\<close>

definition trace_get_info :: "u32 \<Rightarrow> trace_state \<Rightarrow> sys_trace_info result" where
  "trace_get_info info s =
     (if info = 0 \<or> \<not> trace_ready s then Inl EFAIL
      else Inr \<lparr>ti_capacity = TRACE_CAPACITY, ti_count = trace_count s, ti_next_sequence = trace_next_sequence s\<rparr>)"

text \<open>The result 1, no such record, is \<open>Inr None\<close>.\<close>

definition trace_read :: "u32 \<Rightarrow> u32 \<Rightarrow> trace_state \<Rightarrow> sys_trace_record option result" where
  "trace_read sequence buffer s =
     (if buffer = 0 \<or> \<not> trace_ready s then Inl EFAIL
      else if trace_count s = 0 then Inr None
      else
        let oldest_sequence = (if trace_next_sequence s > trace_count s then trace_next_sequence s - trace_count s else 0) in
        if sequence < oldest_sequence \<or> sequence \<ge> trace_next_sequence s then Inr None
        else Inr (Some (trace_ring s (unat (sequence mod TRACE_CAPACITY)))))"

section \<open>The ring holds the last records\<close>

text \<open>A record as it is logged, and the record of the history \<open>es\<close> with a given number.\<close>

type_synonym trace_entry = "u32 \<times> u32 \<times> u32 \<times> u32 \<times> u32 \<times> u32"

fun log_entry :: "trace_entry \<Rightarrow> trace_state \<Rightarrow> trace_state" where
  "log_entry (t, c, e, a, b, d) s = trace_log t c e a b d s"

fun entry_record :: "nat \<Rightarrow> trace_entry \<Rightarrow> sys_trace_record" where
  "entry_record i (t, c, e, a, b, d) =
     \<lparr>tr_sequence = of_nat i, tr_ticks = t, tr_category = c, tr_event = e, tr_arg0 = a, tr_arg1 = b, tr_arg2 = d\<rparr>"

definition trace_rel :: "trace_entry list \<Rightarrow> trace_state \<Rightarrow> bool" where
  "trace_rel es s \<longleftrightarrow> trace_ready s \<and> unat (trace_next_sequence s) = length es \<and>
     unat (trace_count s) = min (length es) 256 \<and>
     (\<forall>i < length es. length es \<le> i + 256 \<longrightarrow> trace_ring s (i mod 256) = entry_record i (es ! i))"

lemma trace_rel_init: "trace_rel [] trace_init"
  by (simp add: trace_rel_def trace_init_def)

lemma mod_window: "i < n \<Longrightarrow> n < i + 256 \<Longrightarrow> i mod 256 \<noteq> n mod (256 :: nat)"
  using mod_eq_dvd_iff_nat [of i n 256] dvd_imp_le [of 256 "n - i"] by fastforce

lemma trace_rel_log:
  assumes "trace_rel es s" "Suc (length es) < 4294967296"
  shows "trace_rel (es @ [e]) (log_entry e s)"
proof -
  obtain t c v a b d where e: "e = (t, c, v, a, b, d)" by (cases e) auto
  let ?s = "log_entry e s"
  have r: "trace_ready s" "unat (trace_next_sequence s) = length es" "unat (trace_count s) = min (length es) 256"
    using assms(1) by (simp_all add: trace_rel_def)
  have slot: "unat (trace_next_sequence s mod TRACE_CAPACITY) = length es mod 256"
    using r(2) by (simp add: TRACE_CAPACITY_def unat_mod)
  have n: "unat (trace_next_sequence ?s) = Suc (length es)"
    using r(1,2) assms(2) by (simp add: e trace_log_def Let_def unat_Suc_u32)
  have k: "unat (trace_count ?s) = min (Suc (length es)) 256"
    using r by (auto simp: e trace_log_def Let_def TRACE_CAPACITY_def word_less_nat_alt unat_Suc_u32)
  have ring: "trace_ring ?s = (trace_ring s)(length es mod 256 := entry_record (length es) e)"
    using r(1) slot by (simp add: e trace_log_def Let_def flip: r(2))
  have "trace_ring ?s (i mod 256) = entry_record i ((es @ [e]) ! i)"
    if i: "i < Suc (length es)" "Suc (length es) \<le> i + 256" for i
  proof (cases "i = length es")
    case True
    then show ?thesis using ring by simp
  next
    case False
    then have l: "i < length es" using i by simp
    have "i mod 256 \<noteq> length es mod 256"
      using i l mod_window [of i "length es"] by simp
    then show ?thesis using ring l i assms(1) by (simp add: trace_rel_def nth_append)
  qed
  then show ?thesis using r(1) n k by (auto simp: trace_rel_def e trace_log_def Let_def)
qed

lemma trace_rel_history:
  "length es < 4294967296 \<Longrightarrow> trace_rel es (fold log_entry es trace_init)"
proof (induction es rule: rev_induct)
  case (snoc e es)
  then show ?case using trace_rel_log by simp
qed (simp add: trace_rel_init)

text \<open>
  C34. After any history of fewer than \<open>2\<^sup>3\<^sup>2\<close> records, reading a sequence number gives that record of the history
  exactly when it is one of the last 256, and reports no record for every other number.
\<close>

theorem trace_read_history:
  assumes "length es < 4294967296" "buffer \<noteq> 0"
  shows "trace_read q buffer (fold log_entry es trace_init) =
    Inr (if unat q < length es \<and> length es \<le> unat q + 256 then Some (entry_record (unat q) (es ! unat q)) else None)"
proof -
  define s where "s = fold log_entry es trace_init"
  have r: "trace_ready s" "unat (trace_next_sequence s) = length es" "unat (trace_count s) = min (length es) 256"
    and ring: "unat q < length es \<Longrightarrow> length es \<le> unat q + 256 \<Longrightarrow> trace_ring s (unat q mod 256) = entry_record (unat q) (es ! unat q)"
    using trace_rel_history [OF assms(1)] by (simp_all add: trace_rel_def s_def)
  have z: "trace_count s = 0 \<longleftrightarrow> es = []" using r(3) by (auto simp: word_unat_eq_iff min_def split: if_splits)
  have o: "unat (if trace_next_sequence s > trace_count s then trace_next_sequence s - trace_count s else 0) = length es - 256"
    using r by (auto simp: word_less_nat_alt unat_sub_if' min_def)
  have m: "unat (q mod TRACE_CAPACITY) = unat q mod 256" by (simp add: TRACE_CAPACITY_def unat_mod)
  have "trace_read q buffer s = Inr (if unat q < length es - 256 \<or> length es \<le> unat q then None else Some (trace_ring s (unat q mod 256)))"
    if "es \<noteq> []"
    using that assms(2) r(1) z o m by (simp add: trace_read_def Let_def word_less_nat_alt word_le_nat_alt r(2) cong: if_cong)
  moreover have "trace_read q buffer s = Inr None" if "es = []"
    using that assms(2) r(1) z by (simp add: trace_read_def)
  ultimately show ?thesis using ring unfolding s_def [symmetric] by (cases "es = []") auto
qed

theorem trace_read_history_witness:
  "trace_read 1 0x1000 (fold log_entry [(5, 1, 2, 0, 0, 0), (6, 3, 4, 7, 8, 9)] trace_init) =
     Inr (Some \<lparr>tr_sequence = 1, tr_ticks = 6, tr_category = 3, tr_event = 4, tr_arg0 = 7, tr_arg1 = 8, tr_arg2 = 9\<rparr>)"
  using trace_read_history [of "[(5, 1, 2, 0, 0, 0), (6, 3, 4, 7, 8, 9)]" "0x1000" 1] by simp

end
