(* ===== verification/Bytes.thy ===== *)
theory Bytes
  imports Prelude
begin

text \<open>
  Byte buffers as lists: little-endian integers, the fields of the packed on-disk structures, and
  the slices of a buffer that block transfers touch. Text in memory is a \<open>string\<close> without its
  terminating zero; on disk it is a run of bytes ended by a zero byte.
\<close>

section \<open>Little-endian integers\<close>

definition enc32 :: "u32 \<Rightarrow> u8 list" where
  "enc32 w = [ucast w, ucast (drop_bit 8 w), ucast (drop_bit 16 w), ucast (drop_bit 24 w)]"

definition dec32 :: "u8 list \<Rightarrow> u32" where
  "dec32 bs = (case bs of
      b0 # b1 # b2 # b3 # _ \<Rightarrow>
        ucast b0 OR push_bit 8 (ucast b1) OR push_bit 16 (ucast b2) OR push_bit 24 (ucast b3)
    | _ \<Rightarrow> 0)"

text \<open>A field of a packed structure: the integer at a byte offset.\<close>

definition rd32 :: "u8 list \<Rightarrow> nat \<Rightarrow> u32" where
  "rd32 bs off = dec32 (drop off bs)"

definition rd64 :: "u8 list \<Rightarrow> nat \<Rightarrow> u64" where
  "rd64 bs off = ucast (rd32 bs off) OR push_bit 32 (ucast (rd32 bs (off + 4)))"

definition rd16 :: "u8 list \<Rightarrow> nat \<Rightarrow> u16" where
  "rd16 bs off = (case drop off bs of b0 # b1 # _ \<Rightarrow> ucast b0 OR push_bit 8 (ucast b1) | _ \<Rightarrow> 0)"

lemma length_enc32 [simp]: "length (enc32 w) = 4"
  by (simp add: enc32_def)

lemma dec32_enc32 [simp]: "dec32 (enc32 w @ bs) = w"
  unfolding enc32_def dec32_def append_Cons list.case
proof (rule bit_word_eqI)
  fix n assume "n < LENGTH(32)"
  then consider "n < 8" | "8 \<le> n" "n < 16" | "16 \<le> n" "n < 24" | "24 \<le> n" "n < 32" by fastforce
  then show "bit (ucast (ucast w :: u8) OR push_bit 8 (ucast (ucast (drop_bit 8 w) :: u8)) OR
      push_bit 16 (ucast (ucast (drop_bit 16 w) :: u8)) OR
      push_bit 24 (ucast (ucast (drop_bit 24 w) :: u8)) :: u32) n = bit w n"
    by cases (auto simp: bit_simps)
qed

lemma dec32_enc32_exact [simp]: "dec32 (enc32 w) = w"
  using dec32_enc32 [of w "[]"] by simp

section \<open>Buffers\<close>

text \<open>Overwriting a part of a buffer, as the copy loops of the code do.\<close>

definition put_bytes :: "nat \<Rightarrow> u8 list \<Rightarrow> u8 list \<Rightarrow> u8 list" where
  "put_bytes off new buf = take off buf @ new @ drop (off + length new) buf"

lemma length_put_bytes [simp]: "off + length new \<le> length buf \<Longrightarrow> length (put_bytes off new buf) = length buf"
  by (simp add: put_bytes_def)

lemma nth_put_bytes:
  assumes "off + length new \<le> length buf" "i < length buf"
  shows "put_bytes off new buf ! i = (if off \<le> i \<and> i < off + length new then new ! (i - off) else buf ! i)"
  using assms by (auto simp: put_bytes_def nth_append min_def)

text \<open>Text fields: the bytes up to the first zero.\<close>

definition byte_of :: "char \<Rightarrow> u8" where
  "byte_of c = of_nat (of_char c)"

definition text_bytes :: "string \<Rightarrow> u8 list" where
  "text_bytes s = map byte_of s"

definition bytes_text :: "u8 list \<Rightarrow> string" where
  "bytes_text bs = map (\<lambda>b. char_of (unat b)) (takeWhile (\<lambda>b. b \<noteq> 0) bs)"

definition no_nul :: "string \<Rightarrow> bool" where
  "no_nul s \<longleftrightarrow> list_all (\<lambda>c. c \<noteq> CHR 0x00) s"

lemma length_text_bytes [simp]: "length (text_bytes s) = length s"
  by (simp add: text_bytes_def)

lemma unat_byte_of [simp]: "unat (byte_of c) = of_char c"
  by (simp add: byte_of_def unat_of_nat)

lemma byte_of_0: "byte_of c = 0 \<longleftrightarrow> c = CHR 0x00"
proof -
  have "byte_of c = 0 \<longleftrightarrow> (of_char c :: nat) = of_char (CHR 0x00)"
    by (simp add: word_unat_eq_iff)
  then show ?thesis unfolding of_char_eq_iff .
qed

lemma bytes_text_round: "no_nul s \<Longrightarrow> bytes_text (text_bytes s @ 0 # bs) = s"
  by (induction s) (auto simp: bytes_text_def text_bytes_def no_nul_def byte_of_0)

end
