(* ===== verification/Inode.thy ===== *)
theory Inode
  imports Bytes
begin

text \<open>
  The data the virtual file system shares with the file systems below it, the types of
  \<^verbatim>\<open>include/kernel/vfs.h\<close>. A pointer to an inode is an \<open>inode_ref\<close>: an inode of the mounted
  simplefs by its index, one of the two console devices, or a pipe. The operation tables the code
  points to are the constructors of \<open>file_ops\<close> and a flag for the simplefs inode operations.
\<close>

datatype inode_kind = VFS_INODE_NONE | VFS_INODE_DEV | VFS_INODE_REG | VFS_INODE_DIR | VFS_INODE_PIPE

datatype inode_ref = FsInode nat | ConsoleInode | TtyInode | PipeInode nat

datatype file_ops = ConsoleOps | PipeOps | SimplefsOps

text \<open>
  The children of a directory are the slots from \<open>children\<close> on of the shared entry array; an entry
  names its inode, whose name is the entry's name.
\<close>

record vfs_inode =
  iname :: string
  kind :: inode_kind
  ops :: "file_ops option"
  inode_ops :: bool
  iref_count :: u32
  isize :: u32
  children :: "nat option"
  child_count :: u32
  child_capacity :: u32
  imode :: u32
  iuid :: u32
  igid :: u32
  ilinks :: u32

record vfs_credentials =
  cuid :: u32
  cgid :: u32

end
