(* ===== verification/Block.thy ===== *)
theory Block
  imports Bytes Palloc
begin

text \<open>
  The block layer: the device and controller registry of \<^verbatim>\<open>src/kernel/block.c\<close>, the read-only
  ramdisk of \<^verbatim>\<open>src/kernel/ramdisk.c\<close> and the GPT partition device of
  \<^verbatim>\<open>src/kernel/partition.c\<close>. The driver entry points of a device are functions; \<open>'w\<close> is the state
  of the hardware they work on. A transfer buffer is a byte list; a null pointer argument, which
  the code refuses first, has no counterpart except for the two driver operations.
\<close>

section \<open>Devices and the registry\<close>

record block_controller =
  ctl_name :: string
  transport :: u32

record 'w block_device =
  dev_name :: string
  block_size :: u32
  block_count :: u32
  read_only :: u32
  dev_read :: "(u32 \<Rightarrow> u32 \<Rightarrow> 'w \<Rightarrow> u8 list result) option"
  dev_write :: "(u32 \<Rightarrow> u32 \<Rightarrow> u8 list \<Rightarrow> 'w \<Rightarrow> unit result \<times> 'w) option"
  controller :: "block_controller option"

abbreviation BLOCK_MAX_DEVICES :: nat where "BLOCK_MAX_DEVICES \<equiv> 8"
abbreviation BLOCK_MAX_CONTROLLERS :: nat where "BLOCK_MAX_CONTROLLERS \<equiv> 4"

record 'w block_state =
  devices :: "nat \<Rightarrow> 'w block_device option"
  controllers :: "nat \<Rightarrow> block_controller option"

definition block_init :: "'w block_state" where
  "block_init = \<lparr>devices = (\<lambda>_. None), controllers = (\<lambda>_. None)\<rparr>"

definition block_transport_name :: "u32 \<Rightarrow> string" where
  "block_transport_name t = (if t = 1 then ''ata-pio'' else if t = 2 then ''ahci'' else ''unknown'')"

text \<open>The slot loop of the two registration functions: stop at a free slot or at an equal name.\<close>

fun register_slot :: "(nat \<Rightarrow> string option) \<Rightarrow> string \<Rightarrow> nat list \<Rightarrow> nat option" where
  "register_slot names name [] = None"
| "register_slot names name (index # rest) =
     (case names index of
        None \<Rightarrow> Some index
      | Some n \<Rightarrow> if n = name then None else register_slot names name rest)"

definition block_register_controller :: "block_controller \<Rightarrow> 'w block_state \<Rightarrow> unit result \<times> 'w block_state" where
  "block_register_controller c s =
     (case register_slot (map_option ctl_name \<circ> controllers s) (ctl_name c) [0..<BLOCK_MAX_CONTROLLERS] of
        None \<Rightarrow> (Inl EFAIL, s)
      | Some index \<Rightarrow> (Inr (), s\<lparr>controllers := (controllers s)(index := Some c)\<rparr>))"

definition block_register :: "'w block_device \<Rightarrow> 'w block_state \<Rightarrow> unit result \<times> 'w block_state" where
  "block_register device s =
     (if block_size device = 0 \<or> block_count device = 0 \<or> dev_read device = None then (Inl EFAIL, s)
      else if read_only device = 0 \<and> dev_write device = None then (Inl EFAIL, s)
      else
        case register_slot (map_option dev_name \<circ> devices s) (dev_name device) [0..<BLOCK_MAX_DEVICES] of
          None \<Rightarrow> (Inl EFAIL, s)
        | Some index \<Rightarrow> (Inr (), s\<lparr>devices := (devices s)(index := Some device)\<rparr>))"

definition block_find :: "string \<Rightarrow> 'w block_state \<Rightarrow> 'w block_device option" where
  "block_find name s =
     (case find (\<lambda>index. case devices s index of None \<Rightarrow> False | Some d \<Rightarrow> dev_name d = name)
        [0..<BLOCK_MAX_DEVICES] of
        None \<Rightarrow> None
      | Some index \<Rightarrow> devices s index)"

definition block_read :: "'w block_device \<Rightarrow> u32 \<Rightarrow> u32 \<Rightarrow> 'w \<Rightarrow> u8 list result" where
  "block_read device index count w =
     (if count = 0 then Inl EFAIL
      else if index \<ge> block_count device \<or> count > block_count device - index then Inl EFAIL
      else case dev_read device of None \<Rightarrow> Inl EFAIL | Some read \<Rightarrow> read index count w)"

definition block_write :: "'w block_device \<Rightarrow> u32 \<Rightarrow> u32 \<Rightarrow> u8 list \<Rightarrow> 'w \<Rightarrow> unit result \<times> 'w" where
  "block_write device index count buffer w =
     (case dev_write device of
        None \<Rightarrow> (Inl EFAIL, w)
      | Some write \<Rightarrow>
          if count = 0 \<or> read_only device \<noteq> 0 then (Inl EFAIL, w)
          else if index \<ge> block_count device \<or> count > block_count device - index then (Inl EFAIL, w)
          else write index count buffer w)"

section \<open>The ramdisk\<close>

definition string_contains :: "string \<Rightarrow> string \<Rightarrow> bool" where
  "string_contains txt pattern =
     (if length pattern = 0 then True
      else if length pattern > length txt then False
      else list_ex (\<lambda>start. take (length pattern) (drop start txt) = pattern)
             [0..<Suc (length txt - length pattern)])"

text \<open>The driver reads from the module image, whose bytes are the list \<open>base\<close>.\<close>

definition ramdisk_read :: "u8 list \<Rightarrow> u32 \<Rightarrow> u32 \<Rightarrow> u32 \<Rightarrow> 'w \<Rightarrow> u8 list result" where
  "ramdisk_read base bs index count w =
     (let offset = index * bs; len = count * bs in
      if unat (offset + len) > length base then Inl EFAIL
      else Inr (take (unat len) (drop (unat offset) base)))"

text \<open>
  The module is the first one whose command line mentions the root file system, else the first.
  \<open>text_at\<close> reads the text at a physical address and \<open>mem\<close> a byte of physical memory.
\<close>

definition find_rootfs_module :: "(u32 \<Rightarrow> string) \<Rightarrow> multiboot_module list \<Rightarrow> multiboot_module" where
  "find_rootfs_module text_at mods =
     (case find (\<lambda>m. mod_cmdline m \<noteq> 0 \<and> string_contains (text_at (mod_cmdline m)) ''rootfs'') mods of
        None \<Rightarrow> mods ! 0
      | Some m \<Rightarrow> m)"

definition ramdisk_device :: "string \<Rightarrow> u8 list \<Rightarrow> 'w block_device" where
  "ramdisk_device device_name base =
     \<lparr>dev_name = device_name, block_size = 512, block_count = of_nat (length base) div 512, read_only = 1,
      dev_read = Some (ramdisk_read base 512), dev_write = None, controller = None\<rparr>"

definition ramdisk_register_rootfs ::
  "(u32 \<Rightarrow> string) \<Rightarrow> (u32 \<Rightarrow> u8) \<Rightarrow> multiboot_info \<Rightarrow> string \<Rightarrow>
   'w block_state \<Rightarrow> unit result \<times> 'w block_state" where
  "ramdisk_register_rootfs text_at mem mb device_name s =
     (if mb_flags mb AND MULTIBOOT_INFO_MODS = 0 \<or> mb_mods_count mb = 0 then (Inl EFAIL, s)
      else
        let m = find_rootfs_module text_at (mb_modules mb); byte_length = mod_end m - mod_start m in
        if mod_end m \<le> mod_start m then (Inl EFAIL, s)
        else if byte_length mod 512 \<noteq> 0 then (Inl EFAIL, s)
        else block_register
               (ramdisk_device device_name
                  (map (\<lambda>i. mem (mod_start m + of_nat i)) [0..<unat byte_length])) s)"

section \<open>The GPT partition device\<close>

abbreviation GPT_HEADER_BLOCK :: u32 where "GPT_HEADER_BLOCK \<equiv> 1"
abbreviation GPT_ENTRY_NAME_CHARS :: nat where "GPT_ENTRY_NAME_CHARS \<equiv> 36"
abbreviation GPT_MAX_SCAN_ENTRIES :: u32 where "GPT_MAX_SCAN_ENTRIES \<equiv> 128"
abbreviation GPT_ENTRY_BYTES :: nat where "GPT_ENTRY_BYTES \<equiv> 128"

record gpt_header =
  gpt_signature :: u64
  entry_lba :: u64
  entry_count :: u32
  entry_size :: u32

record gpt_partition_entry =
  type_guid :: "u8 list"
  first_lba :: u64
  last_lba :: u64
  gpt_name :: "u16 list"

text \<open>The fields at their offsets in the packed structures; the fields the code never reads are left out.\<close>

definition decode_gpt_header :: "u8 list \<Rightarrow> gpt_header" where
  "decode_gpt_header b =
     \<lparr>gpt_signature = rd64 b 0, entry_lba = rd64 b 72, entry_count = rd32 b 80, entry_size = rd32 b 84\<rparr>"

definition decode_gpt_entry :: "u8 list \<Rightarrow> gpt_partition_entry" where
  "decode_gpt_entry b =
     \<lparr>type_guid = take 16 b, first_lba = rd64 b 32, last_lba = rd64 b 40,
      gpt_name = map (\<lambda>i. rd16 b (56 + 2 * i)) [0..<GPT_ENTRY_NAME_CHARS]\<rparr>"

definition guid_is_zero :: "u8 list \<Rightarrow> bool" where
  "guid_is_zero guid = list_all (\<lambda>b. b = 0) guid"

definition gpt_entry_name_equals :: "gpt_partition_entry \<Rightarrow> string \<Rightarrow> bool" where
  "gpt_entry_name_equals entry ascii_name =
     (length ascii_name < GPT_ENTRY_NAME_CHARS \<and>
      list_all (\<lambda>i. gpt_name entry ! i = ucast (byte_of (ascii_name ! i))) [0..<length ascii_name] \<and>
      gpt_name entry ! length ascii_name = 0)"

definition partition_read :: "'w block_device \<Rightarrow> u32 \<Rightarrow> u32 \<Rightarrow> u32 \<Rightarrow> u32 \<Rightarrow> 'w \<Rightarrow> u8 list result" where
  "partition_read parent start_block count_limit index count w =
     (if index \<ge> count_limit \<or> count > count_limit - index then Inl EFAIL
      else block_read parent (start_block + index) count w)"

definition partition_write ::
  "'w block_device \<Rightarrow> u32 \<Rightarrow> u32 \<Rightarrow> u32 \<Rightarrow> u32 \<Rightarrow> u8 list \<Rightarrow> 'w \<Rightarrow> unit result \<times> 'w" where
  "partition_write parent start_block count_limit index count buffer w =
     (if index \<ge> count_limit \<or> count > count_limit - index then (Inl EFAIL, w)
      else block_write parent (start_block + index) count buffer w)"

definition partition_device :: "'w block_device \<Rightarrow> string \<Rightarrow> u32 \<Rightarrow> u32 \<Rightarrow> 'w block_device" where
  "partition_device disk device_name start_block count_limit =
     \<lparr>dev_name = device_name, block_size = block_size disk, block_count = count_limit,
      read_only = read_only disk,
      dev_read = Some (partition_read disk start_block count_limit),
      dev_write = (if read_only disk = 0 then Some (partition_write disk start_block count_limit) else None),
      controller = controller disk\<rparr>"

text \<open>What the scan does with the entry of the root file system.\<close>

definition register_entry ::
  "'w block_device \<Rightarrow> string \<Rightarrow> gpt_partition_entry \<Rightarrow> 'w block_state \<Rightarrow> unit result \<times> 'w block_state" where
  "register_entry disk device_name entry s =
     (if last_lba entry < first_lba entry \<or> last_lba entry \<ge> ucast (block_count disk) then (Inl EFAIL, s)
      else block_register
             (partition_device disk device_name (ucast (first_lba entry))
                (ucast (last_lba entry - first_lba entry + 1))) s)"

text \<open>
  The scan of the entry array. The buffer \<open>entry_block\<close> is read again when the index reaches the next
  block of entries; \<open>current\<close> is the block it holds, \<open>None\<close> before the first read.
\<close>

fun scan_entries ::
  "'w block_device \<Rightarrow> string \<Rightarrow> gpt_header \<Rightarrow> nat list \<Rightarrow> nat option \<Rightarrow> u8 list \<Rightarrow>
   'w \<Rightarrow> 'w block_state \<Rightarrow> unit result \<times> 'w block_state" where
  "scan_entries disk device_name header [] current entry_block w s = (Inl EFAIL, s)"
| "scan_entries disk device_name header (entry_index # rest) current entry_block w s =
     (let per_block = 512 div unat (entry_size header);
          entry_block_index = entry_index div per_block;
          entry_slot = entry_index mod per_block;
          loaded = (if current = Some entry_block_index then Inr entry_block
                    else block_read disk (ucast (entry_lba header) + of_nat entry_block_index) 1 w) in
      case loaded of
        Inl e \<Rightarrow> (Inl EFAIL, s)
      | Inr block \<Rightarrow>
          let entry = decode_gpt_entry (drop (entry_slot * unat (entry_size header)) block) in
          if guid_is_zero (type_guid entry) \<or> \<not> gpt_entry_name_equals entry ''riverix-rootfs''
          then scan_entries disk device_name header rest (Some entry_block_index) block w s
          else register_entry disk device_name entry s)"

definition partition_register_rootfs ::
  "'w block_device \<Rightarrow> string \<Rightarrow> 'w \<Rightarrow> 'w block_state \<Rightarrow> unit result \<times> 'w block_state" where
  "partition_register_rootfs disk device_name w s =
     (if block_size disk \<noteq> 512 then (Inl EFAIL, s)
      else
        case block_read disk GPT_HEADER_BLOCK 1 w of
          Inl e \<Rightarrow> (Inl EFAIL, s)
        | Inr block \<Rightarrow>
            let header = decode_gpt_header block in
            if gpt_signature header \<noteq> 0x5452415020494645 then (Inl EFAIL, s)
            else if entry_size header < 128 \<or> entry_size header > 512 \<or> 512 mod entry_size header \<noteq> 0
            then (Inl EFAIL, s)
            else scan_entries disk device_name header
                   [0..<unat (min (entry_count header) GPT_MAX_SCAN_ENTRIES)] None block w s)"

section \<open>The registry\<close>

text \<open>The slots fill from the bottom and hold devices with different names.\<close>

definition registry_inv :: "'w block_state \<Rightarrow> bool" where
  "registry_inv s \<longleftrightarrow>
     (\<forall>i j. i < j \<longrightarrow> devices s j \<noteq> None \<longrightarrow> devices s i \<noteq> None) \<and>
     (\<forall>i j d e. devices s i = Some d \<longrightarrow> devices s j = Some e \<longrightarrow> dev_name d = dev_name e \<longrightarrow> i = j) \<and>
     (\<forall>i d. devices s i = Some d \<longrightarrow> i < BLOCK_MAX_DEVICES)"

lemma register_slot_Some:
  assumes "register_slot names n [a..<b] = Some i"
  shows "i < b" "names i = None" "\<And>j. a \<le> j \<Longrightarrow> j < i \<Longrightarrow> names j \<noteq> None \<and> names j \<noteq> Some n"
proof -
  have "i < b \<and> names i = None \<and> (\<forall>j. a \<le> j \<longrightarrow> j < i \<longrightarrow> names j \<noteq> None \<and> names j \<noteq> Some n)"
    using assms
  proof (induction "b - a" arbitrary: a)
    case (Suc k)
    then have ab: "a < b" and k: "k = b - Suc a" by simp_all
    show ?case
    proof (cases "names a")
      case None
      then show ?thesis using Suc.prems ab by (auto simp: upt_conv_Cons [OF ab])
    next
      case (Some m)
      then have m: "m \<noteq> n" "register_slot names n [Suc a..<b] = Some i"
        using Suc.prems by (auto simp: upt_conv_Cons [OF ab] split: if_splits)
      have "names j \<noteq> None \<and> names j \<noteq> Some n" if "a \<le> j" "j < i" for j
        using Suc.hyps(1) [OF k m(2)] that Some m(1) by (cases "j = a") auto
      then show ?thesis using Suc.hyps(1) [OF k m(2)] by blast
    qed
  qed simp
  then show "i < b" "names i = None" "\<And>j. a \<le> j \<Longrightarrow> j < i \<Longrightarrow> names j \<noteq> None \<and> names j \<noteq> Some n"
    by blast+
qed

lemma register_slot_None:
  assumes "register_slot names n xs = None"
  shows "(\<forall>i\<in>set xs. names i \<noteq> None) \<or> (\<exists>i\<in>set xs. names i = Some n)"
  using assms by (induction xs) (auto split: option.splits if_splits)

lemma block_find_iff:
  assumes "registry_inv s"
  shows "block_find n s = Some d \<longleftrightarrow> dev_name d = n \<and> (\<exists>i. devices s i = Some d)"
proof -
  let ?P = "\<lambda>index. case devices s index of None \<Rightarrow> False | Some d \<Rightarrow> dev_name d = n"
  have inv: "\<And>i j d e. devices s i = Some d \<Longrightarrow> devices s j = Some e \<Longrightarrow> dev_name d = dev_name e \<Longrightarrow> i = j"
    "\<And>i d. devices s i = Some d \<Longrightarrow> i < 8" using assms unfolding registry_inv_def by blast+
  show ?thesis
  proof (cases "find ?P [0..<8]")
    case None
    have "dev_name e \<noteq> n" if "devices s i = Some e" for i e
    proof -
      have "\<not> ?P i" using None inv(2) [OF that] unfolding find_upt_None by blast
      then show ?thesis by (simp add: that)
    qed
    then show ?thesis unfolding block_find_def None option.case by blast
  next
    case (Some i)
    from find_upt_Some(3) [OF Some] obtain e where e: "devices s i = Some e" "dev_name e = n"
      by (auto split: option.splits)
    have bf: "block_find n s = Some e" unfolding block_find_def Some option.case by (rule e(1))
    show ?thesis
    proof
      assume "block_find n s = Some d"
      then show "dev_name d = n \<and> (\<exists>i. devices s i = Some d)" using bf e by auto
    next
      assume d: "dev_name d = n \<and> (\<exists>i. devices s i = Some d)"
      then obtain j where "devices s j = Some d" by blast
      with inv(1) [OF e(1) this] d e have "d = e" by simp
      then show "block_find n s = Some d" using bf by simp
    qed
  qed
qed

lemma option_eqI: "(\<And>x. a = Some x \<longleftrightarrow> b = Some x) \<Longrightarrow> a = b"
  by (cases a; cases b) auto

lemma block_register_cases:
  assumes inv: "registry_inv s" and run: "block_register d s = (r, s')"
  shows "registry_inv s' \<and> (case r of
      Inr _ \<Rightarrow> block_find (dev_name d) s = None \<and>
        (\<forall>n. block_find n s' = (if n = dev_name d then Some d else block_find n s))
    | Inl _ \<Rightarrow> s' = s \<and> (block_size d = 0 \<or> block_count d = 0 \<or> dev_read d = None \<or>
        read_only d = 0 \<and> dev_write d = None \<or> block_find (dev_name d) s \<noteq> None \<or>
        (\<forall>i<BLOCK_MAX_DEVICES. devices s i \<noteq> None)))"
proof -
  have pre: "\<And>i j. i < j \<Longrightarrow> devices s j \<noteq> None \<Longrightarrow> devices s i \<noteq> None"
    and uniq: "\<And>i j d e. devices s i = Some d \<Longrightarrow> devices s j = Some e \<Longrightarrow> dev_name d = dev_name e \<Longrightarrow> i = j"
    and top: "\<And>i d. devices s i = Some d \<Longrightarrow> i < 8"
    using inv unfolding registry_inv_def by blast+
  show ?thesis
  proof (cases "block_size d = 0 \<or> block_count d = 0 \<or> dev_read d = None \<or> read_only d = 0 \<and> dev_write d = None")
    case True
    then have "r = Inl EFAIL" "s' = s" using run by (auto simp: block_register_def split: if_splits)
    then show ?thesis using True inv by simp blast
  next
    case ok: False
    let ?names = "map_option dev_name \<circ> devices s"
    show ?thesis
    proof (cases "register_slot ?names (dev_name d) [0..<8]")
      case None
      have "block_find (dev_name d) s \<noteq> None \<or> (\<forall>i<8. devices s i \<noteq> None)"
      proof (cases "\<forall>i<8. devices s i \<noteq> None")
        case False
        with register_slot_None [OF None] have "\<exists>i\<in>set [0..<8]. ?names i = Some (dev_name d)" by force
        then obtain i e where "devices s i = Some e" "dev_name e = dev_name d" by auto
        then have "block_find (dev_name d) s = Some e" unfolding block_find_iff [OF inv] by blast
        then show ?thesis by simp
      qed simp
      moreover have "r = Inl EFAIL" "s' = s" using run ok None by (auto simp: block_register_def)
      ultimately show ?thesis using inv by auto
    next
      case (Some i)
      note slot = register_slot_Some [OF Some]
      have s': "r = Inr ()" "s' = s\<lparr>devices := (devices s)(i := Some d)\<rparr>"
        using run ok Some by (auto simp: block_register_def)
      have free: "devices s j = None" if "i \<le> j" for j
        using pre [of i j] slot(2) that by (cases "i = j"; cases "devices s j") auto
      have new: "dev_name e \<noteq> dev_name d" if "devices s j = Some e" for j e
        using slot(3) [of j] free [of j] that by (cases "j < i") auto
      have dev': "devices s' j = (if j = i then Some d else devices s j)" for j by (simp add: s')
      have below: "devices s j \<noteq> None" if "j < i" for j using slot(3) [of j] that by auto
      have inv': "registry_inv s'"
        unfolding registry_inv_def
      proof (intro conjI allI impI)
        show "devices s' j \<noteq> None" if "j < k" "devices s' k \<noteq> None" for j k
          using that below [of j] pre [of j k] by (auto simp: dev' split: if_splits)
        show "j = k" if "devices s' j = Some x" "devices s' k = Some y" "dev_name x = dev_name y" for j k x y
          using that new [of j x] new [of k y] uniq [of j x k y] by (auto simp: dev' split: if_splits)
        show "j < 8" if "devices s' j = Some x" for j x
          using that top [of j x] slot(1) by (auto simp: dev' split: if_splits)
      qed
      have fe: "block_find n s' = Some e \<longleftrightarrow> (if n = dev_name d then Some d else block_find n s) = Some e" for n e
      proof -
        have "(\<exists>j. devices s' j = Some e) \<longleftrightarrow> e = d \<or> (\<exists>j. devices s j = Some e)"
        proof
          assume "e = d \<or> (\<exists>j. devices s j = Some e)"
          then show "\<exists>j. devices s' j = Some e"
          proof
            assume "\<exists>j. devices s j = Some e"
            then obtain j where "devices s j = Some e" ..
            with slot(2) show ?thesis by (intro exI [of _ j]) (auto simp: dev')
          qed (auto simp: dev')
        qed (auto simp: dev' split: if_splits)
        then show ?thesis
          unfolding block_find_iff [OF inv'] using new block_find_iff [OF inv, of n e] by auto
      qed
      have "block_find n s' = (if n = dev_name d then Some d else block_find n s)" for n
        by (rule option_eqI) (rule fe)
      moreover have "block_find (dev_name d) s = None"
      proof (rule ccontr)
        assume "block_find (dev_name d) s \<noteq> None"
        then obtain e where "block_find (dev_name d) s = Some e" by blast
        then show False using new unfolding block_find_iff [OF inv] by blast
      qed
      ultimately show ?thesis using inv' s'(1) by simp
    qed
  qed
qed

text \<open>
  C12. Registering a device under a free name makes exactly this device findable under that name and
  leaves every other name as it was; it fails only for a device without geometry or driver, for a
  name that is taken, or when all slots are full, and then changes nothing. The registry keeps its
  invariant.
\<close>

theorem block_register_correct:
  assumes inv: "registry_inv s" and run: "block_register d s = (r, s')"
  shows "registry_inv s' \<and> (case r of
      Inr _ \<Rightarrow> block_find (dev_name d) s = None \<and>
        (\<forall>n. block_find n s' = (if n = dev_name d then Some d else block_find n s))
    | Inl _ \<Rightarrow> s' = s \<and> (block_size d = 0 \<or> block_count d = 0 \<or> dev_read d = None \<or>
        read_only d = 0 \<and> dev_write d = None \<or> block_find (dev_name d) s \<noteq> None \<or>
        (\<forall>i<BLOCK_MAX_DEVICES. devices s i \<noteq> None)))"
  by (rule block_register_cases [OF assms])

lemma registry_inv_init: "registry_inv block_init"
  by (simp add: registry_inv_def block_init_def)

theorem block_register_correct_witness:
  "block_find ''rootfs0'' (snd (block_register (ramdisk_device ''rootfs0'' (replicate 512 7)) block_init))
     = Some (ramdisk_device ''rootfs0'' (replicate 512 7) :: unit block_device)"
proof -
  let ?d = "ramdisk_device ''rootfs0'' (replicate 512 7) :: unit block_device"
  obtain r s' where run: "block_register ?d block_init = (r, s')" by force
  have "block_find ''rootfs0'' (block_init :: unit block_state) = None"
    by (rule option_eqI) (simp only: block_find_iff [OF registry_inv_init], simp add: block_init_def)
  moreover have "block_size ?d \<noteq> 0" "block_count ?d \<noteq> 0" "dev_read ?d \<noteq> None" "read_only ?d = 1"
    "dev_name ?d = ''rootfs0''" by (simp_all add: ramdisk_device_def)
  moreover have "\<not> (\<forall>i<BLOCK_MAX_DEVICES. devices (block_init :: unit block_state) i \<noteq> None)"
    by (auto simp: block_init_def intro!: exI [of _ 0])
  ultimately show ?thesis
    using block_register_correct [OF registry_inv_init run] run by (cases r) auto
qed

section \<open>Reading a fixed image\<close>

lemma transfer_guard:
  assumes "n \<noteq> 0" "unat i + unat n \<le> unat (c :: u32)"
  shows "\<not> (c \<le> i)" "\<not> (c - i < n)"
proof -
  have "0 < unat n" using assms(1) by (simp add: unat_gt_0)
  then show "\<not> (c \<le> i)" using assms(2) by (simp add: word_le_nat_alt)
  then show "\<not> (c - i < n)" using assms(2) by (simp add: word_less_nat_alt unat_sub)
qed

lemma length_concat_const: "(\<And>x. x \<in> set xs \<Longrightarrow> length (f x) = k) \<Longrightarrow> length (concat (map f xs)) = k * length xs"
  by (induction xs) auto

text \<open>
  What the readers of a block device rely on: a transfer inside the device returns the blocks of the
  image in order.
\<close>

locale block_source =
  fixes read :: "u32 \<Rightarrow> u32 \<Rightarrow> 'w \<Rightarrow> u8 list result"
    and total :: u32
    and img :: "'w \<Rightarrow> nat \<Rightarrow> u8 list"
  assumes read_ok: "n \<noteq> 0 \<Longrightarrow> unat i + unat n \<le> unat total \<Longrightarrow>
      read i n w = Inr (concat (map (img w) [unat i..<unat i + unat n]))"
    and img_length: "b < unat total \<Longrightarrow> length (img w b) = 512"
begin

lemma read_one: "i < total \<Longrightarrow> read i 1 w = Inr (img w (unat i))"
  by (simp add: read_ok word_less_nat_alt)

lemma read_length: "n \<noteq> 0 \<Longrightarrow> unat i + unat n \<le> unat total \<Longrightarrow>
    \<exists>bs. read i n w = Inr bs \<and> length bs = 512 * unat n"
proof -
  assume n: "n \<noteq> 0" "unat i + unat n \<le> unat total"
  have "length (concat (map (img w) [unat i..<unat i + unat n])) = 512 * unat n"
    using n(2) length_concat_const [of "[unat i..<unat i + unat n]" "img w" 512] by (simp add: img_length)
  then show ?thesis using read_ok [OF n] by simp
qed

text \<open>A transfer splits into two transfers of its parts.\<close>

lemma read_split:
  assumes "n \<noteq> 0" "m \<noteq> 0" "unat i + unat n + unat m \<le> unat total"
  shows "\<exists>xs ys. read i n w = Inr xs \<and> read (i + n) m w = Inr ys \<and> read i (n + m) w = Inr (xs @ ys)"
proof -
  have t: "unat total < 4294967296" by simp
  have u: "unat (i + n) = unat i + unat n" "unat (n + m) = unat n + unat m"
    by (rule unat_add_u32; use assms(3) t in linarith)+
  have nm: "n + m \<noteq> 0" using assms(1) u(2) by (metis add_is_0 unat_eq_0)
  show ?thesis
    using assms read_ok [OF assms(1), of i w] read_ok [OF assms(2), of "i + n" w] read_ok [OF nm, of i w]
      upt_add_eq_append [of "unat i" "unat i + unat n" "unat m"] by (simp add: u add.assoc)
qed

text \<open>A partition of the device is again such a device.\<close>

lemma partition_source:
  assumes "unat start + unat limit \<le> unat total"
  shows "block_source (\<lambda>i n w. if i \<ge> limit \<or> n > limit - i then Inl EFAIL else read (start + i) n w) limit
    (\<lambda>w b. img w (b + unat start))"
proof
  fix n i :: u32 and w
  assume n: "n \<noteq> 0" and le: "unat i + unat n \<le> unat limit"
  have t: "unat total < 4294967296" by simp
  have g: "\<not> (i \<ge> limit \<or> n > limit - i)" using transfer_guard [OF n le] by simp
  have u: "unat (start + i) = unat start + unat i" using assms le t by (intro unat_add_u32) linarith
  have "map (img w) [unat start + unat i..<unat start + unat i + unat n]
      = map (\<lambda>b. img w (b + unat start)) [unat i..<unat i + unat n]"
    by (rule nth_equalityI) (simp_all add: ac_simps)
  then show "(if i \<ge> limit \<or> n > limit - i then Inl EFAIL else read (start + i) n w)
      = Inr (concat (map (\<lambda>b. img w (b + unat start)) [unat i..<unat i + unat n]))"
    using g read_ok [OF n, of "start + i" w] assms le by (simp add: u)
qed (use assms in \<open>simp add: img_length\<close>)

end

lemma concat_blocks:
  "512 * (i + n) \<le> length base \<Longrightarrow>
   concat (map (\<lambda>b. take 512 (drop (512 * b) base)) [i..<i + n]) = take (512 * n) (drop (512 * i) base)"
proof (induction n)
  case (Suc n)
  have "take (512 * n) (drop (512 * i) base) @ take 512 (drop (512 * (i + n)) base)
      = take (512 * n + 512) (drop (512 * i) base)"
    unfolding take_add by (simp add: add.commute distrib_left)
  moreover have "512 * Suc n = 512 * n + 512" "512 * (i + n) \<le> length base" using Suc.prems by simp_all
  ultimately show ?case using Suc.IH by (simp add: add.commute)
qed simp

lemma ramdisk_blocks:
  "512 * unat (block_count (ramdisk_device name base)) \<le> length base"
  "512 * unat (block_count (ramdisk_device name base)) < 4294967296"
proof -
  let ?q = "length base mod 4294967296"
  have q: "unat (block_count (ramdisk_device name base)) = ?q div 512"
    by (simp add: ramdisk_device_def unat_div unat_of_nat)
  have le: "512 * (?q div 512) \<le> ?q" "?q \<le> length base" "?q < 4294967296"
    by (rule times_div_less_eq_dividend) simp_all
  show "512 * unat (block_count (ramdisk_device name base)) \<le> length base" unfolding q using le by linarith
  show "512 * unat (block_count (ramdisk_device name base)) < 4294967296" unfolding q using le by linarith
qed

lemma block_read_ramdisk:
  fixes w :: 'w
  assumes "n \<noteq> 0" "unat i + unat n \<le> unat (block_count (ramdisk_device name base :: 'w block_device))"
  shows "block_read (ramdisk_device name base) i n w =
    Inr (concat (map (\<lambda>b. take 512 (drop (512 * b) base)) [unat i..<unat i + unat n]))"
proof -
  let ?c = "block_count (ramdisk_device name base :: 'w block_device)"
  have c: "512 * unat ?c \<le> length base" "512 * unat ?c < 4294967296"
    by (rule ramdisk_blocks)+
  have g: "\<not> (?c \<le> i \<or> n > ?c - i)"
    using transfer_guard [OF assms] by simp
  have u: "unat (i * 512) = 512 * unat i" "unat (n * 512) = 512 * unat n"
    using assms(2) c(2) by (simp_all add: unat_word_ariths)
  have s: "unat (i * 512 + n * 512) = 512 * (unat i + unat n)"
    using assms(2) c(2) unat_add_u32 [of "i * 512" "n * 512"] by (simp add: u algebra_simps)
  have "512 * (unat i + unat n) \<le> 512 * unat ?c" using assms(2) by simp
  then have le: "512 * (unat i + unat n) \<le> length base" using c(1) by (rule order_trans)
  have "block_read (ramdisk_device name base) i n w = ramdisk_read base 512 i n w"
    using assms(1) g by (simp add: block_read_def) (simp add: ramdisk_device_def)
  also have "\<dots> = Inr (take (512 * unat n) (drop (512 * unat i) base))"
    using le unfolding ramdisk_read_def Let_def s u by simp
  finally show ?thesis using concat_blocks [OF le] by simp
qed

interpretation ram: block_source "block_read (ramdisk_device name base :: 'w block_device)"
    "block_count (ramdisk_device name base :: 'w block_device)"
    "\<lambda>_ b. take 512 (drop (512 * b) base)" for name base
proof
  fix n i :: u32 and w :: 'w
  assume "n \<noteq> 0" "unat i + unat n \<le> unat (block_count (ramdisk_device name base :: 'w block_device))"
  then show "block_read (ramdisk_device name base :: 'w block_device) i n w =
    Inr (concat (map (\<lambda>b. take 512 (drop (512 * b) base)) [unat i..<unat i + unat n]))"
    by (rule block_read_ramdisk)
next
  fix b and w :: 'w assume "b < unat (block_count (ramdisk_device name base :: 'w block_device))"
  then show "length (take 512 (drop (512 * b) base)) = 512"
    using ramdisk_blocks(1) [of name base, where 'a = 'w] by simp
qed

section \<open>Writable disks\<close>

text \<open>
  What the file system relies on in a writable disk driver, the behaviour of a disk: \<open>img w b\<close> is the
  contents of block \<open>b\<close>; a transfer inside the disk succeeds, reads return the blocks, and a write
  replaces exactly the blocks it names.
\<close>

definition write_blocks_img :: "nat \<Rightarrow> nat \<Rightarrow> u8 list \<Rightarrow> (nat \<Rightarrow> u8 list) \<Rightarrow> nat \<Rightarrow> u8 list" where
  "write_blocks_img i n bytes m b =
     (if i \<le> b \<and> b < i + n then take 512 (drop (512 * (b - i)) bytes) else m b)"

definition disk_ok :: "'w block_device \<Rightarrow> ('w \<Rightarrow> nat \<Rightarrow> u8 list) \<Rightarrow> bool" where
  "disk_ok d img \<longleftrightarrow> block_size d = 512 \<and> read_only d = 0 \<and> dev_read d \<noteq> None \<and> dev_write d \<noteq> None
     \<and> (\<forall>w b. b < unat (block_count d) \<longrightarrow> length (img w b) = 512)
     \<and> (\<forall>w i n. n \<noteq> 0 \<longrightarrow> unat i + unat n \<le> unat (block_count d) \<longrightarrow>
          block_read d i n w = Inr (concat (map (img w) [unat i..<unat i + unat n])))
     \<and> (\<forall>w i n bytes. n \<noteq> 0 \<longrightarrow> unat i + unat n \<le> unat (block_count d) \<longrightarrow> 512 * unat n \<le> length bytes \<longrightarrow>
          (\<exists>w'. block_write d i n bytes w = (Inr (), w') \<and>
             img w' = write_blocks_img (unat i) (unat n) bytes (img w)))"

lemma disk_okD:
  assumes "disk_ok d img" "n \<noteq> 0" "unat i + unat n \<le> unat (block_count d)"
  shows "block_read d i n w = Inr (concat (map (img w) [unat i..<unat i + unat n]))"
    "512 * unat n \<le> length bytes \<Longrightarrow> \<exists>w'. block_write d i n bytes w = (Inr (), w') \<and>
       img w' = write_blocks_img (unat i) (unat n) bytes (img w)"
  using assms unfolding disk_ok_def by blast+

lemma disk_ok_simps:
  "disk_ok d img \<Longrightarrow> block_size d = 512" "disk_ok d img \<Longrightarrow> read_only d = 0"
  "disk_ok d img \<Longrightarrow> b < unat (block_count d) \<Longrightarrow> length (img w b) = 512"
  by (simp_all add: disk_ok_def)

lemma partition_sel [simp]:
  "block_count (partition_device d name start limit) = limit"
  "block_size (partition_device d name start limit) = block_size d"
  "read_only (partition_device d name start limit) = read_only d"
  "dev_name (partition_device d name start limit) = name"
  "dev_read (partition_device d name start limit) = Some (partition_read d start limit)"
  "dev_write (partition_device d name start limit) =
     (if read_only d = 0 then Some (partition_write d start limit) else None)"
  by (simp_all add: partition_device_def)

lemma partition_transfer:
  assumes "n \<noteq> 0" "unat i + unat n \<le> unat limit"
  shows "block_read (partition_device d name start limit) i n w = block_read d (start + i) n w"
    "read_only d = 0 \<Longrightarrow>
       block_write (partition_device d name start limit) i n bytes w = block_write d (start + i) n bytes w"
  using transfer_guard [OF assms] assms(1)
  by (simp_all add: block_read_def [of "partition_device d name start limit"]
      block_write_def [of "partition_device d name start limit"] partition_read_def partition_write_def)

text \<open>
  C13. A partition of a writable disk is itself such a disk: a transfer inside the partition works on
  the blocks of the disk shifted by the start of the partition, so no write through the
  partition reaches a block of the disk outside it.
\<close>

theorem partition_device_disk_ok:
  assumes d: "disk_ok d img" and fits: "unat start + unat limit \<le> unat (block_count d)"
  shows "disk_ok (partition_device d name start limit) (\<lambda>w b. img w (b + unat start)) \<and>
    (\<forall>w i n bytes w'. block_write (partition_device d name start limit) i n bytes w = (Inr (), w') \<longrightarrow>
       512 * unat n \<le> length bytes \<longrightarrow>
       (\<forall>b. b < unat start \<or> unat start + unat limit \<le> b \<longrightarrow> img w' b = img w b))"
proof -
  let ?p = "partition_device d name start limit"
  have dims: "block_size ?p = 512" "read_only ?p = 0" "block_count ?p = limit"
    using disk_ok_simps [OF d] by simp_all
  have ops: "dev_read ?p \<noteq> None" "dev_write ?p \<noteq> None"
    using disk_ok_simps(2) [OF d] by simp_all
  have c: "unat (block_count d) < 4294967296" by simp
  have u: "unat (start + i) = unat start + unat i" "unat (start + i) + unat n \<le> unat (block_count d)"
    if "unat i + unat n \<le> unat limit" for i n :: u32
  proof -
    show "unat (start + i) = unat start + unat i" by (rule unat_add_u32) (use that fits c in linarith)
    then show "unat (start + i) + unat n \<le> unat (block_count d)" using that fits by linarith
  qed
  have shift: "map (img w) [unat start + unat i..<unat start + unat i + unat n]
      = map (\<lambda>b. img w (b + unat start)) [unat i..<unat i + unat n]" for w and i n :: u32
    by (rule nth_equalityI) (simp_all add: ac_simps)
  have wr: "\<exists>w'. block_write ?p i n bytes w = (Inr (), w') \<and>
      img w' = write_blocks_img (unat start + unat i) (unat n) bytes (img w)"
    if "n \<noteq> 0" "unat i + unat n \<le> unat limit" "512 * unat n \<le> length bytes" for w i n bytes
    using disk_okD(2) [OF d that(1) u(2) [OF that(2)] that(3), of w]
    by (simp add: partition_transfer(2) [OF that(1,2) disk_ok_simps(2) [OF d]] u(1) [OF that(2)])
  have "disk_ok ?p (\<lambda>w b. img w (b + unat start))"
    unfolding disk_ok_def dims
  proof (intro conjI allI impI)
    fix w and i n :: u32 assume n: "n \<noteq> 0" "unat i + unat n \<le> unat limit"
    show "block_read ?p i n w = Inr (concat (map (\<lambda>b. img w (b + unat start)) [unat i..<unat i + unat n]))"
      using disk_okD(1) [OF d n(1) u(2) [OF n(2)]] by (simp add: partition_transfer(1) [OF n] u(1) [OF n(2)] shift)
  next
    fix w and i n :: u32 and bytes :: "u8 list"
    assume n: "n \<noteq> 0" "unat i + unat n \<le> unat limit" "512 * unat n \<le> length bytes"
    from wr [OF this] obtain w' where w': "block_write ?p i n bytes w = (Inr (), w')"
      "img w' = write_blocks_img (unat start + unat i) (unat n) bytes (img w)" by blast
    have "(\<lambda>b. img w' (b + unat start)) = write_blocks_img (unat i) (unat n) bytes (\<lambda>b. img w (b + unat start))"
      by (rule ext) (auto simp: w'(2) write_blocks_img_def)
    then show "\<exists>w'. block_write ?p i n bytes w = (Inr (), w') \<and> (\<lambda>b. img w' (b + unat start))
        = write_blocks_img (unat i) (unat n) bytes (\<lambda>b. img w (b + unat start))" using w'(1) by blast
  qed (use ops disk_ok_simps(3) [OF d] fits in auto)
  moreover have "img w' b = img w b"
    if run: "block_write ?p i n bytes w = (Inr (), w')" and len: "512 * unat n \<le> length bytes"
      and b: "b < unat start \<or> unat start + unat limit \<le> b" for w i n bytes w' b
  proof -
    have n: "n \<noteq> 0" "\<not> limit \<le> i" "\<not> limit - i < n"
      using run by (auto simp: block_write_def dims split: option.splits if_splits)
    then have le: "unat i + unat n \<le> unat limit" by (simp add: word_le_nat_alt word_less_nat_alt unat_sub)
    show ?thesis using wr [OF n(1) le len, of w] run b le by (auto simp: write_blocks_img_def)
  qed
  ultimately show ?thesis by blast
qed

text \<open>A disk held in memory, to run the block operations on concrete inputs.\<close>

definition pad_block :: "u8 list \<Rightarrow> u8 list" where
  "pad_block b = take 512 (b @ replicate 512 0)"

definition memory_disk :: "u32 \<Rightarrow> (nat \<Rightarrow> u8 list) block_device" where
  "memory_disk n = \<lparr>dev_name = ''disk0'', block_size = 512, block_count = n, read_only = 0,
     dev_read = Some (\<lambda>i c w. Inr (concat (map (\<lambda>b. pad_block (w b)) [unat i..<unat i + unat c]))),
     dev_write = Some (\<lambda>i c bytes w. (Inr (), write_blocks_img (unat i) (unat c) bytes w)),
     controller = None\<rparr>"

lemma memory_disk_ok: "disk_ok (memory_disk n) (\<lambda>w b. pad_block (w b))"
  unfolding disk_ok_def
proof (intro conjI allI impI)
  fix w :: "nat \<Rightarrow> u8 list" and i c :: u32 and bytes :: "u8 list"
  assume c: "c \<noteq> 0" "unat i + unat c \<le> unat (block_count (memory_disk n))" "512 * unat c \<le> length bytes"
  have "pad_block (write_blocks_img (unat i) (unat c) bytes w b)
      = write_blocks_img (unat i) (unat c) bytes (\<lambda>b. pad_block (w b)) b" for b
    using c(3) by (auto simp: write_blocks_img_def pad_block_def)
  then show "\<exists>w'. block_write (memory_disk n) i c bytes w = (Inr (), w') \<and>
      (\<lambda>b. pad_block (w' b)) = write_blocks_img (unat i) (unat c) bytes (\<lambda>b. pad_block (w b))"
    using transfer_guard [OF c(1,2)] c(1) by (simp add: block_write_def memory_disk_def)
next
  fix w :: "nat \<Rightarrow> u8 list" and i c :: u32
  assume c: "c \<noteq> 0" "unat i + unat c \<le> unat (block_count (memory_disk n))"
  then show "block_read (memory_disk n) i c w = Inr (concat (map (\<lambda>b. pad_block (w b)) [unat i..<unat i + unat c]))"
    using transfer_guard [OF c] by (simp add: block_read_def memory_disk_def)
qed (simp_all add: memory_disk_def pad_block_def)

theorem partition_device_disk_ok_witness:
  "disk_ok (partition_device (memory_disk 100) ''disk0p2'' 10 20) (\<lambda>w b. pad_block (w (b + 10)))"
proof -
  have "unat (10 :: u32) + unat (20 :: u32) \<le> unat (block_count (memory_disk 100))" by (simp add: memory_disk_def)
  from conjunct1 [OF partition_device_disk_ok [OF memory_disk_ok this]] show ?thesis by simp
qed

section \<open>Finding the partition\<close>

lemma entry_bounds:
  assumes "\<not> last_lba e < first_lba e" "\<not> last_lba e \<ge> ucast (c :: u32)"
  shows "unat (ucast (first_lba e) :: u32) + unat (ucast (last_lba e - first_lba e + 1) :: u32) \<le> unat c"
    "(ucast (last_lba e - first_lba e + 1) :: u32) \<noteq> 0"
proof -
  have l: "unat (last_lba e) < unat c" "unat (first_lba e) \<le> unat (last_lba e)"
    using assms by (simp_all add: word_le_nat_alt word_less_nat_alt unat_ucast_u64)
  have c: "unat c < 4294967296" by simp
  have b: "Suc (unat (last_lba e) - unat (first_lba e)) < 4294967296" and f: "unat (first_lba e) < 4294967296"
    using l c by linarith+
  have d: "unat (last_lba e - first_lba e + 1) = unat (last_lba e) - unat (first_lba e) + 1"
    using l b by (simp add: unat_word_ariths unat_sub word_le_nat_alt)
  have u: "unat (ucast (first_lba e) :: u32) = unat (first_lba e)"
    "unat (ucast (last_lba e - first_lba e + 1) :: u32) = unat (last_lba e) - unat (first_lba e) + 1"
    using b f d by (simp_all add: unat_ucast_u32)
  show "unat (ucast (first_lba e) :: u32) + unat (ucast (last_lba e - first_lba e + 1) :: u32) \<le> unat c"
    using l by (simp add: u)
  show "(ucast (last_lba e - first_lba e + 1) :: u32) \<noteq> 0"
    using u(2) by (metis Suc_eq_plus1 Zero_not_Suc unat_0)
qed

lemma scan_entries_ok:
  "scan_entries disk name header xs cur blk w s = (Inr u, s') \<Longrightarrow>
   \<exists>e. register_entry disk name e s = (Inr u, s')"
  by (induction xs arbitrary: cur blk) (auto simp: Let_def split: sum.splits if_splits)

text \<open>
  C14. When the root partition is found and registered, the device that is then findable under the
  given name is a partition of the disk that is not empty and lies inside the disk, whatever the
  bytes of the partition table are.
\<close>

theorem partition_register_rootfs_bounds:
  assumes "registry_inv s" "partition_register_rootfs disk name w s = (Inr u, s')"
  shows "\<exists>start limit. block_find name s' = Some (partition_device disk name start limit) \<and> limit \<noteq> 0 \<and>
    unat start + unat limit \<le> unat (block_count disk)"
proof -
  obtain e where "register_entry disk name e s = (Inr u, s')"
    using assms(2) unfolding partition_register_rootfs_def Let_def
    by (auto split: sum.splits if_splits dest!: scan_entries_ok)
  then have e: "\<not> last_lba e < first_lba e" "\<not> last_lba e \<ge> ucast (block_count disk)"
    and reg: "block_register (partition_device disk name (ucast (first_lba e))
      (ucast (last_lba e - first_lba e + 1))) s = (Inr u, s')"
    by (simp_all add: register_entry_def split: if_splits)
  show ?thesis
    using entry_bounds [OF e] block_register_cases [OF assms(1) reg] by auto
qed

text \<open>A disk with one partition, blocks 10 to 29, named as the code expects.\<close>

definition sample_gpt :: "nat \<Rightarrow> u8 list" where
  "sample_gpt b =
     (if b = 1 then [0x45, 0x46, 0x49, 0x20, 0x50, 0x41, 0x52, 0x54] @ replicate 64 0
        @ [2, 0, 0, 0, 0, 0, 0, 0, 1, 0, 0, 0, 128, 0, 0, 0]
      else if b = 2 then replicate 16 1 @ replicate 16 0 @ [10, 0, 0, 0, 0, 0, 0, 0, 29, 0, 0, 0, 0, 0, 0, 0]
        @ replicate 8 0 @ concat (map (\<lambda>c. [byte_of c, 0]) ''riverix-rootfs'')
      else [])"

lemma sample_gpt_registers:
  "fst (partition_register_rootfs (memory_disk 100) ''disk0p2'' sample_gpt block_init) = Inr ()"
  by code_simp

theorem partition_register_rootfs_bounds_witness:
  "\<exists>start limit. block_find ''disk0p2''
      (snd (partition_register_rootfs (memory_disk 100) ''disk0p2'' sample_gpt block_init))
    = Some (partition_device (memory_disk 100) ''disk0p2'' start limit) \<and> limit \<noteq> 0 \<and>
    unat start + unat limit \<le> unat (block_count (memory_disk 100))"
  using partition_register_rootfs_bounds [OF registry_inv_init, of "memory_disk 100" "''disk0p2''" sample_gpt]
    sample_gpt_registers by (metis prod.collapse)

end
