(* ===== verification/Simplefs.thy ===== *)
theory Simplefs
  imports Inode Block Bitmap
begin

text \<open>
  The on-disk file system, \<^verbatim>\<open>src/kernel/simplefs.c\<close> and its format
  \<^verbatim>\<open>include/shared/simplefs_format.h\<close>: the state and the operations. The static variables of the file
  are the record \<open>simplefs\<close>; \<open>hw\<close> is the hardware behind the mounted device. The scratch block is a
  local value of the operations that fill it. An operation that returns a status is a function from
  the state to a result and the new state.
\<close>

section \<open>Format and state\<close>

abbreviation SIMPLEFS_MAGIC :: u32 where "SIMPLEFS_MAGIC \<equiv> 0x31534653"
abbreviation SIMPLEFS_VERSION :: u32 where "SIMPLEFS_VERSION \<equiv> 3"
abbreviation SIMPLEFS_BLOCK_SIZE :: u32 where "SIMPLEFS_BLOCK_SIZE \<equiv> 512"
abbreviation SIMPLEFS_NAME_MAX :: nat where "SIMPLEFS_NAME_MAX \<equiv> 28"
abbreviation SIMPLEFS_INODE_DIR :: u32 where "SIMPLEFS_INODE_DIR \<equiv> 1"
abbreviation SIMPLEFS_INODE_FILE :: u32 where "SIMPLEFS_INODE_FILE \<equiv> 2"
abbreviation SIMPLEFS_MAX_MOUNT_INODES :: nat where "SIMPLEFS_MAX_MOUNT_INODES \<equiv> 64"
abbreviation SIMPLEFS_DIRECTORY_CAPACITY :: u32 where "SIMPLEFS_DIRECTORY_CAPACITY \<equiv> 32"
abbreviation SIMPLEFS_MAX_MOUNT_DIRENTS :: u32 where "SIMPLEFS_MAX_MOUNT_DIRENTS \<equiv> 512"
abbreviation SIMPLEFS_MAX_MOUNT_BLOCKS :: u32 where "SIMPLEFS_MAX_MOUNT_BLOCKS \<equiv> 32768"
abbreviation SIMPLEFS_MAX_BLOCK_BITMAP_BYTES :: nat where "SIMPLEFS_MAX_BLOCK_BITMAP_BYTES \<equiv> 4096"
abbreviation SIMPLEFS_INVALID_DIR_SLOT :: u32 where "SIMPLEFS_INVALID_DIR_SLOT \<equiv> 0xFFFFFFFF"

record simplefs_superblock =
  magic :: u32
  version :: u32
  sb_block_size :: u32
  total_blocks :: u32
  inode_count :: u32
  inode_table_start :: u32
  inode_table_blocks :: u32
  inode_bitmap_start :: u32
  inode_bitmap_blocks :: u32
  block_bitmap_start :: u32
  block_bitmap_blocks :: u32
  data_block_start :: u32
  root_inode_index :: u32
  reserved :: u32

record simplefs_inode_disk =
  dk_kind :: u32
  dk_size :: u32
  dk_data_block :: u32
  dk_block_count :: u32
  dk_child_count :: u32
  dk_mode :: u32
  dk_uid :: u32
  dk_gid :: u32

record simplefs_runtime_inode =
  disk :: simplefs_inode_disk
  vfs :: vfs_inode
  populated :: bool
  dir_slot_base :: u32

record 'w simplefs =
  runtime_inodes :: "nat \<Rightarrow> simplefs_runtime_inode"
  runtime_dir_entries :: "nat \<Rightarrow> inode_ref option"
  inode_table_image :: "nat \<Rightarrow> simplefs_inode_disk"
  mounted_device :: "'w block_device option"
  mounted_superblock :: simplefs_superblock
  inode_bitmap :: "nat \<Rightarrow> u8"
  block_bitmap :: "nat \<Rightarrow> u8"
  mounted_inode_count :: u32
  next_dir_entry_slot :: u32
  hw :: 'w

text \<open>The packed structures as bytes.\<close>

definition encode_superblock :: "simplefs_superblock \<Rightarrow> u8 list" where
  "encode_superblock b = concat (map enc32
     [magic b, version b, sb_block_size b, total_blocks b, inode_count b, inode_table_start b,
      inode_table_blocks b, inode_bitmap_start b, inode_bitmap_blocks b, block_bitmap_start b,
      block_bitmap_blocks b, data_block_start b, root_inode_index b, reserved b])"

definition decode_superblock :: "u8 list \<Rightarrow> simplefs_superblock" where
  "decode_superblock b =
     \<lparr>magic = rd32 b 0, version = rd32 b 4, sb_block_size = rd32 b 8, total_blocks = rd32 b 12,
      inode_count = rd32 b 16, inode_table_start = rd32 b 20, inode_table_blocks = rd32 b 24,
      inode_bitmap_start = rd32 b 28, inode_bitmap_blocks = rd32 b 32, block_bitmap_start = rd32 b 36,
      block_bitmap_blocks = rd32 b 40, data_block_start = rd32 b 44, root_inode_index = rd32 b 48,
      reserved = rd32 b 52\<rparr>"

definition encode_inode :: "simplefs_inode_disk \<Rightarrow> u8 list" where
  "encode_inode d = concat (map enc32
     [dk_kind d, dk_size d, dk_data_block d, dk_block_count d, dk_child_count d, dk_mode d, dk_uid d, dk_gid d])"

definition decode_inode :: "u8 list \<Rightarrow> nat \<Rightarrow> simplefs_inode_disk" where
  "decode_inode b off =
     \<lparr>dk_kind = rd32 b off, dk_size = rd32 b (off + 4), dk_data_block = rd32 b (off + 8),
      dk_block_count = rd32 b (off + 12), dk_child_count = rd32 b (off + 16), dk_mode = rd32 b (off + 20),
      dk_uid = rd32 b (off + 24), dk_gid = rd32 b (off + 28)\<rparr>"

definition encode_dir_entry :: "u32 \<Rightarrow> string \<Rightarrow> u8 list" where
  "encode_dir_entry index name = take 32 (enc32 index @ text_bytes name @ replicate SIMPLEFS_NAME_MAX 0)"

text \<open>The all-zero inode of \<open>zero_bytes\<close>.\<close>

definition zero_inode :: simplefs_inode_disk where
  "zero_inode = \<lparr>dk_kind = 0, dk_size = 0, dk_data_block = 0, dk_block_count = 0, dk_child_count = 0,
     dk_mode = 0, dk_uid = 0, dk_gid = 0\<rparr>"

text \<open>Updates of the parts of a runtime inode.\<close>

definition upd_node :: "nat \<Rightarrow> (simplefs_runtime_inode \<Rightarrow> simplefs_runtime_inode) \<Rightarrow> 'w simplefs \<Rightarrow> 'w simplefs" where
  "upd_node i f s = s\<lparr>runtime_inodes := (runtime_inodes s)(i := f (runtime_inodes s i))\<rparr>"

abbreviation upd_disk :: "nat \<Rightarrow> (simplefs_inode_disk \<Rightarrow> simplefs_inode_disk) \<Rightarrow> 'w simplefs \<Rightarrow> 'w simplefs" where
  "upd_disk i f \<equiv> upd_node i (\<lambda>n. n\<lparr>disk := f (disk n)\<rparr>)"

abbreviation upd_vfs :: "nat \<Rightarrow> (vfs_inode \<Rightarrow> vfs_inode) \<Rightarrow> 'w simplefs \<Rightarrow> 'w simplefs" where
  "upd_vfs i f \<equiv> upd_node i (\<lambda>n. n\<lparr>vfs := f (vfs n)\<rparr>)"

abbreviation node_disk :: "'w simplefs \<Rightarrow> nat \<Rightarrow> simplefs_inode_disk" where
  "node_disk s i \<equiv> disk (runtime_inodes s i)"

abbreviation node_vfs :: "'w simplefs \<Rightarrow> nat \<Rightarrow> vfs_inode" where
  "node_vfs s i \<equiv> vfs (runtime_inodes s i)"

section \<open>Helpers\<close>

definition sfs_align_up :: "u32 \<Rightarrow> u32 \<Rightarrow> u32" where
  "sfs_align_up value alignment = (value + alignment - 1) AND NOT (alignment - 1)"

definition simplefs_required_blocks :: "u32 \<Rightarrow> u32" where
  "simplefs_required_blocks len = (if len = 0 then 0 else sfs_align_up len SIMPLEFS_BLOCK_SIZE div SIMPLEFS_BLOCK_SIZE)"

text \<open>The byte bitmaps; the two pairs of functions of the code differ only in the array.\<close>

definition bit8_used :: "(nat \<Rightarrow> u8) \<Rightarrow> nat \<Rightarrow> bool" where
  "bit8_used b i = (b (i div 8) AND push_bit (i mod 8) 1 \<noteq> 0)"

definition bit8_set :: "nat \<Rightarrow> (nat \<Rightarrow> u8) \<Rightarrow> nat \<Rightarrow> u8" where
  "bit8_set i b = b(i div 8 := b (i div 8) OR push_bit (i mod 8) 1)"

definition bit8_clear :: "nat \<Rightarrow> (nat \<Rightarrow> u8) \<Rightarrow> nat \<Rightarrow> u8" where
  "bit8_clear i b = b(i div 8 := b (i div 8) AND NOT (push_bit (i mod 8) 1))"

definition simplefs_inode_used :: "'w simplefs \<Rightarrow> nat \<Rightarrow> bool" where
  "simplefs_inode_used s i = bit8_used (inode_bitmap s) i"

definition simplefs_set_inode_used :: "nat \<Rightarrow> bool \<Rightarrow> 'w simplefs \<Rightarrow> 'w simplefs" where
  "simplefs_set_inode_used i used s =
     s\<lparr>inode_bitmap := (if used then bit8_set i else bit8_clear i) (inode_bitmap s)\<rparr>"

definition simplefs_block_used :: "'w simplefs \<Rightarrow> u32 \<Rightarrow> bool" where
  "simplefs_block_used s b = bit8_used (block_bitmap s) (unat b)"

definition simplefs_set_block_used :: "u32 \<Rightarrow> bool \<Rightarrow> 'w simplefs \<Rightarrow> 'w simplefs" where
  "simplefs_set_block_used b used s =
     s\<lparr>block_bitmap := (if used then bit8_set (unat b) else bit8_clear (unat b)) (block_bitmap s)\<rparr>"

definition simplefs_read_blocks :: "u32 \<Rightarrow> u32 \<Rightarrow> 'w simplefs \<Rightarrow> u8 list result" where
  "simplefs_read_blocks start_block count s =
     (case mounted_device s of
        None \<Rightarrow> Inl EFAIL
      | Some d \<Rightarrow> block_read d start_block count (hw s))"

definition simplefs_writable :: "'w simplefs \<Rightarrow> bool" where
  "simplefs_writable s = (case mounted_device s of None \<Rightarrow> False | Some d \<Rightarrow> read_only d = 0)"

definition simplefs_write_blocks :: "u32 \<Rightarrow> u32 \<Rightarrow> u8 list \<Rightarrow> 'w simplefs \<Rightarrow> unit result \<times> 'w simplefs" where
  "simplefs_write_blocks start_block count bytes s =
     (case mounted_device s of
        None \<Rightarrow> (Inl EFAIL, s)
      | Some d \<Rightarrow>
          if read_only d \<noteq> 0 then (Inl EFAIL, s)
          else let (r, w) = block_write d start_block count bytes (hw s) in (r, s\<lparr>hw := w\<rparr>))"

section \<open>Metadata\<close>

definition simplefs_flush_inode_table :: "'w simplefs \<Rightarrow> unit result \<times> 'w simplefs" where
  "simplefs_flush_inode_table s =
     (let s1 = s\<lparr>inode_table_image := (\<lambda>i. if i < unat (mounted_inode_count s) then node_disk s i
                                           else inode_table_image s i)\<rparr>
      in simplefs_write_blocks (inode_table_start (mounted_superblock s)) (inode_table_blocks (mounted_superblock s))
           (concat (map (\<lambda>i. encode_inode (inode_table_image s1 i)) [0..<SIMPLEFS_MAX_MOUNT_INODES])) s1)"

definition simplefs_flush_inode_bitmap :: "'w simplefs \<Rightarrow> unit result \<times> 'w simplefs" where
  "simplefs_flush_inode_bitmap s =
     simplefs_write_blocks (inode_bitmap_start (mounted_superblock s)) (inode_bitmap_blocks (mounted_superblock s))
       (map (inode_bitmap s) [0..<512]) s"

definition simplefs_flush_block_bitmap :: "'w simplefs \<Rightarrow> unit result \<times> 'w simplefs" where
  "simplefs_flush_block_bitmap s =
     simplefs_write_blocks (block_bitmap_start (mounted_superblock s)) (block_bitmap_blocks (mounted_superblock s))
       (map (block_bitmap s) [0..<SIMPLEFS_MAX_BLOCK_BITMAP_BYTES]) s"

definition simplefs_flush_superblock :: "'w simplefs \<Rightarrow> unit result \<times> 'w simplefs" where
  "simplefs_flush_superblock s =
     simplefs_write_blocks 0 1 (put_bytes 0 (encode_superblock (mounted_superblock s)) (replicate 512 0)) s"

definition simplefs_flush_metadata :: "'w simplefs \<Rightarrow> unit result \<times> 'w simplefs" where
  "simplefs_flush_metadata s =
     (if \<not> simplefs_writable s then (Inl EFAIL, s)
      else bind_r simplefs_flush_superblock (\<lambda>_.
           bind_r simplefs_flush_inode_table (\<lambda>_.
           bind_r simplefs_flush_inode_bitmap (\<lambda>_.
           simplefs_flush_block_bitmap))) s)"

definition simplefs_zero_block :: "u32 \<Rightarrow> 'w simplefs \<Rightarrow> unit result \<times> 'w simplefs" where
  "simplefs_zero_block b s = simplefs_write_blocks b 1 (replicate 512 0) s"

text \<open>The loops that zero a sequence of blocks and stop at the first failure.\<close>

fun zero_blocks :: "u32 list \<Rightarrow> 'w simplefs \<Rightarrow> unit result \<times> 'w simplefs" where
  "zero_blocks [] s = (Inr (), s)"
| "zero_blocks (b # bs) s = bind_r (simplefs_zero_block b) (\<lambda>_. zero_blocks bs) s"

section \<open>Extents\<close>

definition simplefs_extent_is_free :: "u32 \<Rightarrow> u32 \<Rightarrow> 'w simplefs \<Rightarrow> bool" where
  "simplefs_extent_is_free start_block count s =
     (if start_block < data_block_start (mounted_superblock s) \<or>
         start_block + count > total_blocks (mounted_superblock s) then False
      else list_all (\<lambda>k. \<not> simplefs_block_used s (start_block + of_nat k)) [0..<unat count])"

definition simplefs_mark_extent :: "u32 \<Rightarrow> u32 \<Rightarrow> bool \<Rightarrow> 'w simplefs \<Rightarrow> 'w simplefs" where
  "simplefs_mark_extent start_block count used s =
     fold (\<lambda>k. simplefs_set_block_used (start_block + of_nat k) used) [0..<unat count] s"

text \<open>
  The start blocks the search visits. The loop ends when the 32-bit sum \<open>start_block + block_count\<close>
  exceeds \<open>total_blocks\<close>; the sums before that are different values up to \<open>total_blocks\<close>, so the first
  \<open>total_blocks + 1\<close> start blocks contain all that are visited.
\<close>

definition extent_candidates :: "u32 \<Rightarrow> simplefs_superblock \<Rightarrow> u32 list" where
  "extent_candidates count sb =
     takeWhile (\<lambda>start. start + count \<le> total_blocks sb)
       (map (\<lambda>k. data_block_start sb + of_nat k) [0..<Suc (unat (total_blocks sb))])"

definition simplefs_allocate_extent :: "u32 \<Rightarrow> 'w simplefs \<Rightarrow> u32 result \<times> 'w simplefs" where
  "simplefs_allocate_extent count s =
     (if count = 0 then (Inl EFAIL, s)
      else
        case find (\<lambda>start. simplefs_extent_is_free start count s) (extent_candidates count (mounted_superblock s)) of
          None \<Rightarrow> (Inl EFAIL, s)
        | Some start \<Rightarrow> (Inr start, simplefs_mark_extent start count True s))"

definition simplefs_release_extent :: "nat \<Rightarrow> 'w simplefs \<Rightarrow> 'w simplefs" where
  "simplefs_release_extent i s =
     (let d = node_disk s i;
          s1 = (if dk_block_count d \<noteq> 0 then simplefs_mark_extent (dk_data_block d) (dk_block_count d) False s else s)
      in upd_disk i (\<lambda>d. d\<lparr>dk_data_block := 0, dk_block_count := 0\<rparr>) s1)"

fun copy_extent_loop :: "u32 \<Rightarrow> u32 \<Rightarrow> nat list \<Rightarrow> 'w simplefs \<Rightarrow> unit result \<times> 'w simplefs" where
  "copy_extent_loop from_block to_block [] s = (Inr (), s)"
| "copy_extent_loop from_block to_block (k # ks) s =
     (case simplefs_read_blocks (from_block + of_nat k) 1 s of
        Inl e \<Rightarrow> (Inl EFAIL, s)
      | Inr scratch \<Rightarrow>
          bind_r (simplefs_write_blocks (to_block + of_nat k) 1 scratch)
            (\<lambda>_. copy_extent_loop from_block to_block ks) s)"

definition simplefs_copy_extent :: "u32 \<Rightarrow> u32 \<Rightarrow> u32 \<Rightarrow> 'w simplefs \<Rightarrow> unit result \<times> 'w simplefs" where
  "simplefs_copy_extent from_block to_block count s = copy_extent_loop from_block to_block [0..<unat count] s"

definition simplefs_ensure_extent :: "nat \<Rightarrow> u32 \<Rightarrow> 'w simplefs \<Rightarrow> unit result \<times> 'w simplefs" where
  "simplefs_ensure_extent i required s =
     (let d = node_disk s i; old_start = dk_data_block d; old_count = dk_block_count d in
      if required \<le> old_count then (Inr (), s)
      else if old_count = 0 then
        bind_r (simplefs_allocate_extent required) (\<lambda>new_start s1.
          zero_blocks (map (\<lambda>k. new_start + of_nat k) (rev [0..<unat required]))
            (upd_disk i (\<lambda>d. d\<lparr>dk_data_block := new_start, dk_block_count := required\<rparr>) s1)) s
      else if simplefs_extent_is_free (old_start + old_count) (required - old_count) s then
        let tail_start = old_start + old_count; tail_blocks = required - old_count in
        bind_r (zero_blocks (map (\<lambda>k. tail_start + of_nat k) [0..<unat tail_blocks]))
          (\<lambda>_ s1. (Inr (), upd_disk i (\<lambda>d. d\<lparr>dk_block_count := required\<rparr>) s1))
          (simplefs_mark_extent tail_start tail_blocks True s)
      else
        bind_r (simplefs_allocate_extent required) (\<lambda>new_start s1.
          case simplefs_copy_extent old_start new_start old_count s1 of
            (Inl e, s2) \<Rightarrow> (Inl EFAIL, simplefs_mark_extent new_start required False s2)
          | (Inr _, s2) \<Rightarrow>
             (case zero_blocks (map (\<lambda>k. new_start + of_nat k) [unat old_count..<unat required]) s2 of
                (Inl e, s3) \<Rightarrow> (Inl EFAIL, simplefs_mark_extent new_start required False s3)
              | (Inr _, s3) \<Rightarrow>
                  (Inr (), upd_disk i (\<lambda>d. d\<lparr>dk_data_block := new_start, dk_block_count := required\<rparr>)
                             (simplefs_mark_extent old_start old_count False s3)))) s)"

text \<open>
  A loop over the bytes \<open>done\<close> to \<open>total\<close> of a range, in chunks that do not cross a block. The offsets stay
  below the file size, a 32-bit value, and are natural numbers here.
\<close>

definition chunk_at :: "nat \<Rightarrow> nat \<Rightarrow> nat" where
  "chunk_at offset remaining = min remaining (512 - offset mod 512)"

lemma chunk_at_pos [simp]: "0 < remaining \<Longrightarrow> 0 < chunk_at offset remaining"
  by (simp add: chunk_at_def)

lemma chunk_at_le: "chunk_at offset remaining \<le> remaining"
  by (simp add: chunk_at_def)

function zero_range_loop :: "u32 \<Rightarrow> nat \<Rightarrow> nat \<Rightarrow> 'w simplefs \<Rightarrow> unit result \<times> 'w simplefs" where
  "zero_range_loop data offset remaining s =
     (if remaining = 0 then (Inr (), s)
      else
        let chunk = chunk_at offset remaining; blk = data + of_nat (offset div 512) in
        case simplefs_read_blocks blk 1 s of
          Inl e \<Rightarrow> (Inl EFAIL, s)
        | Inr scratch \<Rightarrow>
            (case simplefs_write_blocks blk 1 (put_bytes (offset mod 512) (replicate chunk 0) scratch) s of
               (Inl e, s1) \<Rightarrow> (Inl EFAIL, s1)
             | (Inr _, s1) \<Rightarrow> zero_range_loop data (offset + chunk) (remaining - chunk) s1))"
  by auto

termination
  by (relation "measure (\<lambda>(_, _, r, _). r)") (auto intro!: diff_less simp: chunk_at_def)

declare zero_range_loop.simps [simp del]

definition simplefs_zero_range :: "nat \<Rightarrow> u32 \<Rightarrow> u32 \<Rightarrow> 'w simplefs \<Rightarrow> unit result \<times> 'w simplefs" where
  "simplefs_zero_range i start_offset len s =
     zero_range_loop (dk_data_block (node_disk s i)) (unat start_offset) (unat len) s"

definition simplefs_resize_node :: "nat \<Rightarrow> u32 \<Rightarrow> 'w simplefs \<Rightarrow> unit result \<times> 'w simplefs" where
  "simplefs_resize_node i new_size s =
     (let old_size = dk_size (node_disk s i); old_blocks = dk_block_count (node_disk s i);
          required = simplefs_required_blocks new_size;
          finish = (\<lambda>s. simplefs_flush_metadata
                     (upd_vfs i (\<lambda>v. v\<lparr>isize := new_size\<rparr>) (upd_disk i (\<lambda>d. d\<lparr>dk_size := new_size\<rparr>) s))) in
      if \<not> simplefs_writable s \<or> dk_kind (node_disk s i) \<noteq> SIMPLEFS_INODE_FILE then (Inl EFAIL, s)
      else if required > old_blocks then
        bind_r (simplefs_ensure_extent i required) (\<lambda>_ s1.
          if new_size > old_size
          then bind_r (simplefs_zero_range i old_size (new_size - old_size)) (\<lambda>_. finish) s1
          else finish s1) s
      else if required < old_blocks then
        if required = 0 then finish (simplefs_release_extent i s)
        else
          let s1 = upd_disk i (\<lambda>d. d\<lparr>dk_block_count := required\<rparr>)
                     (simplefs_mark_extent (dk_data_block (node_disk s i) + required) (old_blocks - required) False s) in
          if new_size mod SIMPLEFS_BLOCK_SIZE \<noteq> 0
          then bind_r (simplefs_zero_range i new_size (SIMPLEFS_BLOCK_SIZE - new_size mod SIMPLEFS_BLOCK_SIZE))
                 (\<lambda>_. finish) s1
          else finish s1
      else finish s)"

text \<open>The operation as the inode table offers it: an inode without simplefs data is refused.\<close>

definition simplefs_resize_inode :: "inode_ref \<Rightarrow> u32 \<Rightarrow> 'w simplefs \<Rightarrow> unit result \<times> 'w simplefs" where
  "simplefs_resize_inode r new_size s =
     (case r of FsInode i \<Rightarrow> simplefs_resize_node i new_size s | _ \<Rightarrow> (Inl EFAIL, s))"

section \<open>File contents\<close>

text \<open>
  Reading returns the bytes and the new file offset. A failure after some bytes returns these bytes and
  leaves the offset where it was.
\<close>

function read_loop :: "simplefs_inode_disk \<Rightarrow> nat \<Rightarrow> nat \<Rightarrow> u8 list \<Rightarrow> 'w simplefs \<Rightarrow> u8 list \<times> bool" where
  "read_loop d offset remaining copied s =
     (if remaining = 0 then (copied, True)
      else
        let chunk = chunk_at offset remaining; file_block = offset div 512 in
        if file_block \<ge> unat (dk_block_count d) then (copied, False)
        else
          case simplefs_read_blocks (dk_data_block d + of_nat file_block) 1 s of
            Inl e \<Rightarrow> (copied, False)
          | Inr scratch \<Rightarrow>
              read_loop d (offset + chunk) (remaining - chunk)
                (copied @ take chunk (drop (offset mod 512) scratch)) s)"
  by auto

termination
  by (relation "measure (\<lambda>(_, _, r, _, _). r)") (auto intro!: diff_less simp: chunk_at_def)

declare read_loop.simps [simp del]

definition simplefs_regular_read :: "nat \<Rightarrow> u32 \<Rightarrow> u32 \<Rightarrow> 'w simplefs \<Rightarrow> (u8 list \<times> u32) result" where
  "simplefs_regular_read i offset len s =
     (let d = node_disk s i in
      if offset \<ge> dk_size d then Inr ([], offset)
      else
        let len = (if len > dk_size d - offset then dk_size d - offset else len) in
        case read_loop d (unat offset) (unat len) [] s of
          (copied, True) \<Rightarrow> Inr (copied, offset + of_nat (length copied))
        | (copied, False) \<Rightarrow> if copied \<noteq> [] then Inr (copied, offset) else Inl EFAIL)"

text \<open>Writing: a whole block is written directly, a part of a block by reading it, patching and writing it.\<close>

function write_loop :: "u32 \<Rightarrow> nat \<Rightarrow> u8 list \<Rightarrow> nat \<Rightarrow> 'w simplefs \<Rightarrow> (nat \<times> bool) \<times> 'w simplefs" where
  "write_loop data offset bytes written s =
     (if bytes = [] then ((written, True), s)
      else
        let chunk = chunk_at offset (length bytes); blk = data + of_nat (offset div 512);
            step = (if offset mod 512 = 0 \<and> chunk = 512 then simplefs_write_blocks blk 1 (take chunk bytes) s
                    else case simplefs_read_blocks blk 1 s of
                           Inl e \<Rightarrow> (Inl EFAIL, s)
                         | Inr scratch \<Rightarrow>
                             simplefs_write_blocks blk 1 (put_bytes (offset mod 512) (take chunk bytes) scratch) s) in
        case step of
          (Inl e, s1) \<Rightarrow> ((written, False), s1)
        | (Inr _, s1) \<Rightarrow> write_loop data (offset + chunk) (drop chunk bytes) (written + chunk) s1)"
  by auto

termination
  by (relation "measure (\<lambda>(_, _, b, _, _). length b)") (auto intro!: diff_less simp: chunk_at_def)

declare write_loop.simps [simp del]

definition simplefs_regular_write ::
  "nat \<Rightarrow> u32 \<Rightarrow> u8 list \<Rightarrow> 'w simplefs \<Rightarrow> (u32 \<times> u32) result \<times> 'w simplefs" where
  "simplefs_regular_write i offset bytes s =
     (let len = of_nat (length bytes); end_offset = offset + len in
      if \<not> simplefs_writable s \<or> dk_kind (node_disk s i) \<noteq> SIMPLEFS_INODE_FILE then (Inl EFAIL, s)
      else if len = 0 then (Inr (0, offset), s)
      else if end_offset < offset then (Inl EFAIL, s)
      else
        bind_r (\<lambda>s. if end_offset > dk_size (node_disk s i) then simplefs_resize_node i end_offset s else (Inr (), s))
          (\<lambda>_ s1.
             case write_loop (dk_data_block (node_disk s1 i)) (unat offset) bytes 0 s1 of
               ((written, True), s2) \<Rightarrow> (Inr (of_nat written, offset + of_nat written), s2)
             | ((written, False), s2) \<Rightarrow>
                 if written \<noteq> 0 then (Inr (of_nat written, offset), s2) else (Inl EFAIL, s2)) s)"

section \<open>Directories\<close>

definition simplefs_set_inode_name :: "nat \<Rightarrow> string \<Rightarrow> 'w simplefs \<Rightarrow> 'w simplefs" where
  "simplefs_set_inode_name i name s = upd_vfs i (\<lambda>v. v\<lparr>iname := name\<rparr>) s"

definition simplefs_alloc_dir_slots :: "nat \<Rightarrow> 'w simplefs \<Rightarrow> unit result \<times> 'w simplefs" where
  "simplefs_alloc_dir_slots i s =
     (if dir_slot_base (runtime_inodes s i) \<noteq> SIMPLEFS_INVALID_DIR_SLOT then (Inr (), s)
      else if next_dir_entry_slot s + SIMPLEFS_DIRECTORY_CAPACITY > SIMPLEFS_MAX_MOUNT_DIRENTS then (Inl EFAIL, s)
      else
        let base = next_dir_entry_slot s in
        (Inr (), (upd_node i (\<lambda>n. n\<lparr>dir_slot_base := base,
              vfs := (vfs n)\<lparr>children := Some (unat base), child_capacity := SIMPLEFS_DIRECTORY_CAPACITY\<rparr>\<rparr>) s)
            \<lparr>next_dir_entry_slot := base + SIMPLEFS_DIRECTORY_CAPACITY\<rparr>))"

definition simplefs_dir_required_blocks :: "u32 \<Rightarrow> u32" where
  "simplefs_dir_required_blocks n_entries =
     (if n_entries = 0 then 0 else sfs_align_up (n_entries * 32) SIMPLEFS_BLOCK_SIZE div SIMPLEFS_BLOCK_SIZE)"

text \<open>The entry buffer of the callers: 32 entries of 32 bytes, zero where the blocks do not reach.\<close>

definition simplefs_read_dir_entries :: "nat \<Rightarrow> u32 \<Rightarrow> 'w simplefs \<Rightarrow> u8 list result" where
  "simplefs_read_dir_entries i n_entries s =
     (if n_entries = 0 then Inr (replicate 1024 0)
      else
        let required = simplefs_dir_required_blocks n_entries in
        if dk_data_block (node_disk s i) = 0 \<or> dk_block_count (node_disk s i) \<noteq> required then Inl EFAIL
        else case simplefs_read_blocks (dk_data_block (node_disk s i)) required s of
               Inl e \<Rightarrow> Inl EFAIL
             | Inr bytes \<Rightarrow> Inr (put_bytes 0 bytes (replicate 1024 0)))"

text \<open>
  The new extent of a directory whose size in blocks changes. A failure to zero or to write a block
  releases the extent.
\<close>

definition dir_new_extent :: "nat \<Rightarrow> u32 \<Rightarrow> 'w simplefs \<Rightarrow> unit result \<times> 'w simplefs" where
  "dir_new_extent i required s =
     (let s1 = (if dk_block_count (node_disk s i) \<noteq> 0 then simplefs_release_extent i s else s) in
      bind_r (simplefs_allocate_extent required) (\<lambda>start_block s2.
        let s3 = upd_disk i (\<lambda>d. d\<lparr>dk_data_block := start_block, dk_block_count := required\<rparr>) s2 in
        case zero_blocks (map (\<lambda>k. start_block + of_nat k) [0..<unat required]) s3 of
          (Inl e, s4) \<Rightarrow> (Inl EFAIL, simplefs_release_extent i s4)
        | (Inr _, s4) \<Rightarrow> (Inr (), s4)) s1)"

definition simplefs_write_dir_entries :: "nat \<Rightarrow> u8 list \<Rightarrow> u32 \<Rightarrow> 'w simplefs \<Rightarrow> unit result \<times> 'w simplefs" where
  "simplefs_write_dir_entries i entries n_entries s =
     (let required = simplefs_dir_required_blocks n_entries in
      if \<not> simplefs_writable s \<or> dk_kind (node_disk s i) \<noteq> SIMPLEFS_INODE_DIR then (Inl EFAIL, s)
      else if n_entries > SIMPLEFS_DIRECTORY_CAPACITY then (Inl EFAIL, s)
      else
        bind_r (\<lambda>s.
            if required = 0 then
              (Inr (), if dk_block_count (node_disk s i) \<noteq> 0 then simplefs_release_extent i s else s)
            else if dk_block_count (node_disk s i) \<noteq> required then dir_new_extent i required s
            else (Inr (), s))
          (\<lambda>_. bind_r (\<lambda>s.
              if required \<noteq> 0 then
                (case simplefs_write_blocks (dk_data_block (node_disk s i)) required entries s of
                   (Inl e, s1) \<Rightarrow> (Inl EFAIL, simplefs_release_extent i s1)
                 | (Inr _, s1) \<Rightarrow> (Inr (), s1))
              else (Inr (), s))
          (\<lambda>_ s. (Inr (), upd_vfs i (\<lambda>v. v\<lparr>isize := n_entries * 32\<rparr>)
              (upd_disk i (\<lambda>d. d\<lparr>dk_child_count := n_entries, dk_size := n_entries * 32\<rparr>) s)))) s)"

text \<open>
  Appending to the in-memory children of a directory. A directory without slots has a null child
  array; the code then writes through the null pointer, which is outside this state.
\<close>

definition add_child_slot :: "nat \<Rightarrow> inode_ref \<Rightarrow> 'w simplefs \<Rightarrow> 'w simplefs" where
  "add_child_slot d child s =
     upd_vfs d (\<lambda>v. v\<lparr>child_count := child_count v + 1\<rparr>)
       (case children (node_vfs s d) of
          None \<Rightarrow> s
        | Some base \<Rightarrow>
            s\<lparr>runtime_dir_entries := (runtime_dir_entries s)(base + unat (child_count (node_vfs s d)) := Some child)\<rparr>)"

text \<open>Emptying the children of a directory whose slots are allocated.\<close>

definition clear_children :: "nat \<Rightarrow> 'w simplefs \<Rightarrow> 'w simplefs" where
  "clear_children d s =
     (let base = unat (dir_slot_base (runtime_inodes s d)) in
      upd_vfs d (\<lambda>v. v\<lparr>child_count := 0\<rparr>)
        (s\<lparr>runtime_dir_entries := (\<lambda>k. if base \<le> k \<and> k < base + 32 then None else runtime_dir_entries s k)\<rparr>))"

text \<open>
  Loading a directory and, through it, the directories below. A directory is marked populated only
  after its children, so on an image whose directories form a cycle the recursion of the code does not
  end; the fuel bounds the depth of the recursion.
\<close>

fun populate_directory :: "nat \<Rightarrow> nat \<Rightarrow> 'w simplefs \<Rightarrow> unit result \<times> 'w simplefs"
  and populate_entries :: "nat \<Rightarrow> nat \<Rightarrow> u8 list \<Rightarrow> nat list \<Rightarrow> 'w simplefs \<Rightarrow> unit result \<times> 'w simplefs" where
  "populate_directory 0 d s = (Inl ENOTERM, s)"
| "populate_directory (Suc fuel) d s =
     (if dk_kind (node_disk s d) \<noteq> SIMPLEFS_INODE_DIR then (Inl EFAIL, s)
      else if populated (runtime_inodes s d) then (Inr (), s)
      else if dk_child_count (node_disk s d) > SIMPLEFS_DIRECTORY_CAPACITY then (Inl EFAIL, s)
      else
        case simplefs_alloc_dir_slots d s of
          (Inl e, s1) \<Rightarrow> (Inl EFAIL, s1)
        | (Inr _, s1) \<Rightarrow>
            let s2 = clear_children d s1; count = dk_child_count (node_disk s2 d) in
            if count = 0 then (Inr (), upd_node d (\<lambda>n. n\<lparr>populated := True\<rparr>) s2)
            else
              case simplefs_read_dir_entries d count s2 of
                Inl e \<Rightarrow> (Inl EFAIL, s2)
              | Inr bytes \<Rightarrow>
                 (case populate_entries fuel d bytes [0..<unat count] s2 of
                    (Inl e, s3) \<Rightarrow> (Inl e, s3)
                  | (Inr _, s3) \<Rightarrow> (Inr (), upd_node d (\<lambda>n. n\<lparr>populated := True\<rparr>) s3)))"
| "populate_entries fuel d bytes [] s = (Inr (), s)"
| "populate_entries fuel d bytes (k # ks) s =
     (let index = rd32 bytes (32 * k); name = bytes_text (drop (32 * k + 4) bytes) in
      if index \<ge> mounted_inode_count s then (Inl EFAIL, s)
      else if length name = 0 \<or> length name > SIMPLEFS_NAME_MAX then (Inl EFAIL, s)
      else
        let child = unat index;
            s1 = add_child_slot d (FsInode child) (simplefs_set_inode_name child name s) in
        if dk_kind (node_disk s1 child) = SIMPLEFS_INODE_DIR \<and> \<not> populated (runtime_inodes s1 child) then
          (case populate_directory fuel child s1 of
             (Inl e, s2) \<Rightarrow> (Inl e, s2)
           | (Inr _, s2) \<Rightarrow> populate_entries fuel d bytes ks s2)
        else populate_entries fuel d bytes ks s1)"

text \<open>
  A chain of different directories has at most \<open>SIMPLEFS_MAX_MOUNT_INODES\<close> members, so a deeper recursion
  has met a directory twice and never ends.
\<close>

definition DIRECTORY_FUEL :: nat where
  "DIRECTORY_FUEL = 65"

definition simplefs_populate_directory :: "nat \<Rightarrow> 'w simplefs \<Rightarrow> unit result \<times> 'w simplefs" where
  "simplefs_populate_directory d s = populate_directory DIRECTORY_FUEL d s"

text \<open>The name of a child entry is the name of its inode; \<open>ext_name\<close> gives the names of the device inodes.\<close>

definition ext_name :: "inode_ref \<Rightarrow> string" where
  "ext_name r = (case r of ConsoleInode \<Rightarrow> ''console'' | TtyInode \<Rightarrow> ''tty'' | _ \<Rightarrow> ''pipe'')"

definition entry_name :: "'w simplefs \<Rightarrow> inode_ref option \<Rightarrow> string option" where
  "entry_name s e =
     (case e of None \<Rightarrow> None | Some (FsInode i) \<Rightarrow> Some (iname (node_vfs s i)) | Some r \<Rightarrow> Some (ext_name r))"

definition child_entry :: "'w simplefs \<Rightarrow> vfs_inode \<Rightarrow> nat \<Rightarrow> inode_ref option" where
  "child_entry s v k = (case children v of None \<Rightarrow> None | Some base \<Rightarrow> runtime_dir_entries s (base + k))"

definition simplefs_find_child :: "nat \<Rightarrow> string \<Rightarrow> 'w simplefs \<Rightarrow> nat result \<times> 'w simplefs" where
  "simplefs_find_child d name s =
     bind_r (simplefs_populate_directory d) (\<lambda>_ s1.
       case find (\<lambda>k. entry_name s1 (child_entry s1 (node_vfs s1 d) k) = Some name)
              [0..<unat (child_count (node_vfs s1 d))] of
         None \<Rightarrow> (Inl EFAIL, s1)
       | Some k \<Rightarrow> (Inr k, s1)) s"

definition simplefs_alloc_inode :: "'w simplefs \<Rightarrow> nat result \<times> 'w simplefs" where
  "simplefs_alloc_inode s =
     (case find (\<lambda>i. \<not> simplefs_inode_used s i) [0..<unat (mounted_inode_count s)] of
        None \<Rightarrow> (Inl EFAIL, s)
      | Some i \<Rightarrow> (Inr i, simplefs_set_inode_used i True s))"

definition reset_vfs_inode :: vfs_inode where
  "reset_vfs_inode = \<lparr>iname = [], kind = VFS_INODE_NONE, ops = None, inode_ops = True, iref_count = 0,
     isize = 0, children = None, child_count = 0, child_capacity = 0, imode = 0, iuid = 0, igid = 0, ilinks = 0\<rparr>"

definition simplefs_reset_runtime_inode :: "nat \<Rightarrow> 'w simplefs \<Rightarrow> 'w simplefs" where
  "simplefs_reset_runtime_inode i s =
     upd_node i (\<lambda>_. \<lparr>disk = zero_inode, vfs = reset_vfs_inode, populated = False,
                      dir_slot_base = SIMPLEFS_INVALID_DIR_SLOT\<rparr>) s"

section \<open>Creating and removing\<close>

text \<open>The runtime inode of a new child.\<close>

definition new_child :: "string \<Rightarrow> inode_kind \<Rightarrow> u32 \<Rightarrow> vfs_credentials option \<Rightarrow> simplefs_runtime_inode" where
  "new_child name knd mode cred =
     (let uid = (case cred of None \<Rightarrow> 0 | Some c \<Rightarrow> cuid c); gid = (case cred of None \<Rightarrow> 0 | Some c \<Rightarrow> cgid c) in
      \<lparr>disk = zero_inode\<lparr>dk_kind := (if knd = VFS_INODE_DIR then SIMPLEFS_INODE_DIR else SIMPLEFS_INODE_FILE),
                          dk_mode := mode, dk_uid := uid, dk_gid := gid\<rparr>,
       vfs = reset_vfs_inode\<lparr>iname := name, kind := knd,
               ops := (if knd = VFS_INODE_REG then Some SimplefsOps else None),
               imode := mode, iuid := uid, igid := gid, ilinks := 1\<rparr>,
       populated = False, dir_slot_base = SIMPLEFS_INVALID_DIR_SLOT\<rparr>)"

definition simplefs_create_child ::
  "nat \<Rightarrow> string \<Rightarrow> inode_kind \<Rightarrow> u32 \<Rightarrow> vfs_credentials option \<Rightarrow> 'w simplefs \<Rightarrow> nat result \<times> 'w simplefs" where
  "simplefs_create_child d name knd mode cred s =
     (if dk_kind (node_disk s d) \<noteq> SIMPLEFS_INODE_DIR \<or> \<not> simplefs_writable s then (Inl EFAIL, s)
      else if length name = 0 \<or> length name > SIMPLEFS_NAME_MAX then (Inl EFAIL, s)
      else
        case simplefs_find_child d name s of
          (Inr k, s1) \<Rightarrow> (Inl EFAIL, s1)
        | (Inl ENOTERM, s1) \<Rightarrow> (Inl ENOTERM, s1)
        | (Inl _, s1) \<Rightarrow>
            let count = dk_child_count (node_disk s1 d) in
            if count \<ge> SIMPLEFS_DIRECTORY_CAPACITY then (Inl EFAIL, s1)
            else
              case simplefs_read_dir_entries d count s1 of
                Inl e \<Rightarrow> (Inl EFAIL, s1)
              | Inr entries \<Rightarrow>
                  bind_r simplefs_alloc_inode (\<lambda>child s2.
                    let s3 = upd_node child (\<lambda>_. new_child name knd mode cred) s2;
                        entries' = put_bytes (32 * unat count + 4) (text_bytes name)
                                    (put_bytes (32 * unat count) (enc32 (of_nat child)) entries) in
                    case simplefs_write_dir_entries d entries' (count + 1) s3 of
                      (Inl e, s4) \<Rightarrow>
                        (Inl EFAIL, simplefs_reset_runtime_inode child (simplefs_set_inode_used child False s4))
                    | (Inr _, s4) \<Rightarrow>
                        bind_r simplefs_flush_metadata (\<lambda>_ s5. (Inr child, s5))
                          (add_child_slot d (FsInode child) s4)) s1)"

text \<open>
  Removing the entry \<open>k\<close> of \<open>count\<close> from the entry buffer and from the children: the later ones move down
  and the last is cleared.
\<close>

definition remove_entry_bytes :: "nat \<Rightarrow> nat \<Rightarrow> u8 list \<Rightarrow> u8 list" where
  "remove_entry_bytes k count entries =
     take (32 * k) entries @ take (32 * (count - Suc k)) (drop (32 * Suc k) entries)
       @ replicate 32 0 @ drop (32 * count) entries"

definition remove_child_slot :: "nat \<Rightarrow> nat \<Rightarrow> nat \<Rightarrow> 'w simplefs \<Rightarrow> 'w simplefs" where
  "remove_child_slot d k count s =
     (case children (node_vfs s d) of
        None \<Rightarrow> s
      | Some base \<Rightarrow>
          s\<lparr>runtime_dir_entries := (\<lambda>j.
              if base + k \<le> j \<and> j + 1 < base + count then runtime_dir_entries s (j + 1)
              else if j + 1 = base + count then None
              else runtime_dir_entries s j)\<rparr>)"

definition finish_remove :: "nat \<Rightarrow> nat \<Rightarrow> nat \<Rightarrow> u8 list \<Rightarrow> 'w simplefs \<Rightarrow> unit result \<times> 'w simplefs" where
  "finish_remove d k child entries s =
     (let count = dk_child_count (node_disk s d);
          s1 = upd_node child (\<lambda>n. n\<lparr>disk := (disk n)\<lparr>dk_size := 0, dk_child_count := 0\<rparr>,
                                      vfs := (vfs n)\<lparr>isize := 0\<rparr>\<rparr>) (simplefs_release_extent child s);
          s2 = remove_child_slot d k (unat count) s1 in
      bind_r (simplefs_write_dir_entries d (remove_entry_bytes k (unat count) entries) (count - 1)) (\<lambda>_ s3.
        let s4 = (if child_count (node_vfs s3 d) \<noteq> 0
                  then upd_vfs d (\<lambda>v. v\<lparr>child_count := child_count v - 1\<rparr>) s3 else s3) in
        simplefs_flush_metadata (simplefs_reset_runtime_inode child (simplefs_set_inode_used child False s4))) s2)"

definition simplefs_remove_child :: "nat \<Rightarrow> string \<Rightarrow> 'w simplefs \<Rightarrow> unit result \<times> 'w simplefs" where
  "simplefs_remove_child d name s =
     (if dk_kind (node_disk s d) \<noteq> SIMPLEFS_INODE_DIR \<or> \<not> simplefs_writable s then (Inl EFAIL, s)
      else
        bind_r (simplefs_populate_directory d) (\<lambda>_.
        bind_r (simplefs_find_child d name) (\<lambda>k s1.
          let count = dk_child_count (node_disk s1 d) in
          if k \<ge> unat count then (Inl EFAIL, s1)
          else
            case simplefs_read_dir_entries d count s1 of
              Inl e \<Rightarrow> (Inl EFAIL, s1)
            | Inr entries \<Rightarrow>
                let index = rd32 entries (32 * k); child = unat index in
                if index \<ge> mounted_inode_count s1 \<or> \<not> simplefs_inode_used s1 child then (Inl EFAIL, s1)
                else if iref_count (node_vfs s1 child) \<noteq> 0 then (Inl EFAIL, s1)
                else if dk_kind (node_disk s1 child) = SIMPLEFS_INODE_DIR then
                  bind_r (simplefs_populate_directory child) (\<lambda>_ s2.
                    if child_count (node_vfs s2 child) \<noteq> 0 then (Inl EFAIL, s2)
                    else finish_remove d k child entries s2) s1
                else finish_remove d k child entries s1)) s)"

section \<open>Mounting\<close>

definition superblock_ok :: "'w block_device \<Rightarrow> simplefs_superblock \<Rightarrow> bool" where
  "superblock_ok device sb \<longleftrightarrow>
     \<not> (magic sb \<noteq> SIMPLEFS_MAGIC \<or> version sb \<noteq> SIMPLEFS_VERSION \<or> sb_block_size sb \<noteq> SIMPLEFS_BLOCK_SIZE)
     \<and> \<not> (total_blocks sb = 0 \<or> total_blocks sb > block_count device \<or> total_blocks sb > SIMPLEFS_MAX_MOUNT_BLOCKS)
     \<and> \<not> (inode_count sb = 0 \<or> inode_count sb > 64 \<or> root_inode_index sb \<ge> inode_count sb)
     \<and> \<not> (sfs_align_up (inode_count sb * 32) SIMPLEFS_BLOCK_SIZE div SIMPLEFS_BLOCK_SIZE \<noteq> inode_table_blocks sb
          \<or> inode_bitmap_blocks sb \<noteq> 1)
     \<and> block_bitmap_blocks sb = sfs_align_up (sfs_align_up (total_blocks sb) 8 div 8) SIMPLEFS_BLOCK_SIZE div SIMPLEFS_BLOCK_SIZE"

text \<open>The runtime inode of entry \<open>i\<close> of the inode table, \<open>None\<close> for a used inode of unknown kind.\<close>

definition mount_inode :: "simplefs_inode_disk \<Rightarrow> bool \<Rightarrow> simplefs_runtime_inode option" where
  "mount_inode d used =
     (let v = reset_vfs_inode\<lparr>isize := dk_size d, imode := dk_mode d, iuid := dk_uid d, igid := dk_gid d, ilinks := 1\<rparr>;
          node = \<lparr>disk = d, vfs = v, populated = False, dir_slot_base = SIMPLEFS_INVALID_DIR_SLOT\<rparr> in
      if \<not> used then Some node
      else if dk_kind d = SIMPLEFS_INODE_DIR then Some (node\<lparr>vfs := v\<lparr>kind := VFS_INODE_DIR\<rparr>\<rparr>)
      else if dk_kind d = SIMPLEFS_INODE_FILE then
        Some (node\<lparr>vfs := v\<lparr>kind := VFS_INODE_REG, ops := Some SimplefsOps\<rparr>\<rparr>)
      else None)"

fun mount_inodes :: "u8 list \<Rightarrow> nat list \<Rightarrow> 'w simplefs \<Rightarrow> unit result \<times> 'w simplefs" where
  "mount_inodes table [] s = (Inr (), s)"
| "mount_inodes table (i # is) s =
     (case mount_inode (decode_inode table (32 * i)) (simplefs_inode_used s i) of
        None \<Rightarrow> (Inl EFAIL, s)
      | Some n \<Rightarrow> mount_inodes table is (upd_node i (\<lambda>_. n) s))"

text \<open>A byte array filled from a buffer and zero beyond it.\<close>

definition bytes_array :: "u8 list \<Rightarrow> nat \<Rightarrow> u8" where
  "bytes_array b i = (if i < length b then b ! i else 0)"

definition blank_node :: simplefs_runtime_inode where
  "blank_node = \<lparr>disk = zero_inode, vfs = reset_vfs_inode\<lparr>inode_ops := False\<rparr>, populated = False, dir_slot_base = 0\<rparr>"

definition simplefs_mount :: "'w block_device \<Rightarrow> 'w simplefs \<Rightarrow> inode_ref result \<times> 'w simplefs" where
  "simplefs_mount device s =
     (if block_size device \<noteq> SIMPLEFS_BLOCK_SIZE then (Inl EFAIL, s)
      else
        case block_read device 0 1 (hw s) of
          Inl e \<Rightarrow> (Inl EFAIL, s)
        | Inr b0 \<Rightarrow>
            let sb = decode_superblock b0; s1 = s\<lparr>mounted_superblock := sb\<rparr> in
            if \<not> superblock_ok device sb then (Inl EFAIL, s1)
            else
              case block_read device (inode_table_start sb) (inode_table_blocks sb) (hw s) of
                Inl e \<Rightarrow> (Inl EFAIL, s1)
              | Inr table \<Rightarrow>
                 (case block_read device (inode_bitmap_start sb) (inode_bitmap_blocks sb) (hw s) of
                    Inl e \<Rightarrow> (Inl EFAIL, s1\<lparr>inode_bitmap := (\<lambda>_. 0)\<rparr>)
                  | Inr ib \<Rightarrow>
                     (case block_read device (block_bitmap_start sb) (block_bitmap_blocks sb) (hw s) of
                        Inl e \<Rightarrow> (Inl EFAIL, s1\<lparr>inode_bitmap := bytes_array ib, block_bitmap := (\<lambda>_. 0)\<rparr>)
                      | Inr bb \<Rightarrow>
                          let s2 = s1\<lparr>inode_bitmap := bytes_array ib, block_bitmap := bytes_array bb,
                                      mounted_device := Some device, mounted_inode_count := inode_count sb,
                                      next_dir_entry_slot := 0, runtime_inodes := (\<lambda>_. blank_node),
                                      runtime_dir_entries := (\<lambda>_. None)\<rparr>;
                              root = unat (root_inode_index sb) in
                          bind_r (mount_inodes table [0..<unat (inode_count sb)]) (\<lambda>_.
                          bind_r (\<lambda>s. simplefs_populate_directory root (simplefs_set_inode_name root ''/'' s)) (\<lambda>_ s.
                            (Inr (FsInode root), s))) s2)))"

end
