(* ===== verification/Simplefs_Image.thy ===== *)
theory Simplefs_Image
  imports Simplefs
begin

text \<open>
  What the transfer loops of the file system do to the blocks of a disk. The disk is a parameter: a
  device with the behaviour \<open>disk_ok\<close>. The image of an extent is the concatenation of its blocks; reading
  returns a slice of it, writing overwrites a slice, zeroing overwrites with zeros, and no loop touches a
  block outside the extent.
\<close>

section \<open>Images of extents\<close>

definition on_disk :: "'w simplefs \<Rightarrow> 'w block_device \<Rightarrow> ('w \<Rightarrow> nat \<Rightarrow> u8 list) \<Rightarrow> bool" where
  "on_disk s dev img \<longleftrightarrow> mounted_device s = Some dev \<and> disk_ok dev img"

definition extent_image :: "(nat \<Rightarrow> u8 list) \<Rightarrow> nat \<Rightarrow> nat \<Rightarrow> u8 list" where
  "extent_image m data n = concat (map m [data..<data + n])"

definition blocks_ok :: "(nat \<Rightarrow> u8 list) \<Rightarrow> nat \<Rightarrow> nat \<Rightarrow> bool" where
  "blocks_ok m data n \<longleftrightarrow> (\<forall>b. data \<le> b \<longrightarrow> b < data + n \<longrightarrow> length (m b) = 512)"

lemma blocks_okD: "blocks_ok m data n \<Longrightarrow> k < n \<Longrightarrow> length (m (data + k)) = 512"
  by (simp add: blocks_ok_def)

lemma length_extent_image [simp]: "blocks_ok m data n \<Longrightarrow> length (extent_image m data n) = 512 * n"
  unfolding extent_image_def using length_concat_const [of "[data..<data + n]" m 512] by (simp add: blocks_ok_def)

lemma nth_extent_image:
  assumes "blocks_ok m data n" "j < 512 * n"
  shows "extent_image m data n ! j = m (data + j div 512) ! (j mod 512)"
  using assms
proof (induction n)
  case (Suc n)
  have ok: "blocks_ok m data n" using Suc.prems(1) by (simp add: blocks_ok_def)
  have split: "extent_image m data (Suc n) = extent_image m data n @ m (data + n)" by (simp add: extent_image_def)
  show ?case
  proof (cases "j < 512 * n")
    case True
    then show ?thesis using Suc.IH [OF ok] by (simp add: split nth_append ok)
  next
    case False
    then have d: "j div 512 = n" using Suc.prems(2) by (intro div_nat_eqI) simp_all
    moreover have "j mod 512 = j - 512 * n" using mult_div_mod_eq [of 512 j] d by simp
    ultimately show ?thesis using False by (simp add: split nth_append ok)
  qed
qed simp

lemma extent_image_cong:
  "(\<And>b. data \<le> b \<Longrightarrow> b < data + n \<Longrightarrow> m b = m' b) \<Longrightarrow> extent_image m data n = extent_image m' data n"
  unfolding extent_image_def by (intro arg_cong [where f = concat] map_cong) auto

lemma blocks_ok_le: "blocks_ok m data n \<Longrightarrow> k \<le> n \<Longrightarrow> blocks_ok m data k"
  by (simp add: blocks_ok_def)

lemma take_extent_image:
  assumes "blocks_ok m data n" "k \<le> n"
  shows "take (512 * k) (extent_image m data n) = extent_image m data k"
proof -
  have "[data..<data + n] = [data..<data + k] @ [data + k..<data + n]"
    using assms(2) upt_add_eq_append [of data "data + k" "n - k"] by simp
  then have "extent_image m data n = extent_image m data k @ concat (map m [data + k..<data + n])"
    by (simp add: extent_image_def)
  then show ?thesis using blocks_ok_le [OF assms] by simp
qed

text \<open>A chunk of the image lies in one block.\<close>

lemma same_block:
  assumes "off mod 512 + i < (512 :: nat)"
  shows "(off + i) div 512 = off div 512" "(off + i) mod 512 = off mod 512 + i"
proof -
  have "off + i = (off mod 512 + i) + 512 * (off div 512)" using mult_div_mod_eq [of 512 off] by linarith
  then have "(off + i) div 512 = (off mod 512 + i) div 512 + off div 512"
    "(off + i) mod 512 = (off mod 512 + i) mod 512" by (metis div_mult_self2 zero_neq_numeral add.commute, metis mod_mult_self2)
  with assms show "(off + i) div 512 = off div 512" "(off + i) mod 512 = off mod 512 + i" by simp_all
qed

lemma image_chunk:
  assumes "blocks_ok m data n" "off div 512 < n" "c \<le> 512 - off mod 512"
  shows "take c (drop off (extent_image m data n)) = take c (drop (off mod 512) (m (data + off div 512)))"
proof -
  have b: "off + c \<le> 512 * n"
  proof -
    have "off + c \<le> 512 * (off div 512) + 512" using assms(3) mult_div_mod_eq [of 512 off] mod_less_divisor [of 512 off] by linarith
    also have "\<dots> = 512 * Suc (off div 512)" by simp
    also have "\<dots> \<le> 512 * n" using assms(2) by (intro mult_le_mono2) simp
    finally show ?thesis .
  qed
  have l: "length (m (data + off div 512)) = 512" using blocks_okD [OF assms(1,2)] .
  show ?thesis
  proof (rule nth_equalityI)
    show "length (take c (drop off (extent_image m data n))) = length (take c (drop (off mod 512) (m (data + off div 512))))"
      using b assms(1,3) l by simp
  next
    fix i assume "i < length (take c (drop off (extent_image m data n)))"
    then have i: "i < c" "off + i < 512 * n" using b assms(1) by simp_all
    have "off mod 512 + i < 512" using i(1) assms(3) mod_less_divisor [of 512 off] by linarith
    then have d: "(off + i) div 512 = off div 512" "(off + i) mod 512 = off mod 512 + i"
      by (rule same_block)+
    show "take c (drop off (extent_image m data n)) ! i = take c (drop (off mod 512) (m (data + off div 512))) ! i"
      using i nth_extent_image [OF assms(1) i(2)] l by (simp add: d assms(1))
  qed
qed

text \<open>Patching a block of the extent patches the image.\<close>

lemma image_patch:
  assumes ok: "blocks_ok m data n" and k: "off div 512 < n" and c: "length bs \<le> 512 - off mod 512"
  shows "extent_image (m(data + off div 512 := put_bytes (off mod 512) bs (m (data + off div 512)))) data n
    = put_bytes off bs (extent_image m data n)"
    "blocks_ok (m(data + off div 512 := put_bytes (off mod 512) bs (m (data + off div 512)))) data n"
    "off + length bs \<le> 512 * n"
proof -
  let ?m = "m(data + off div 512 := put_bytes (off mod 512) bs (m (data + off div 512)))"
  have l: "length (m (data + off div 512)) = 512" using blocks_okD [OF ok k] .
  have mod: "off mod 512 < 512" by simp
  have fit: "off mod 512 + length bs \<le> length (m (data + off div 512))" using c mod l by linarith
  show ok': "blocks_ok ?m data n"
    using ok length_put_bytes [OF fit] l by (simp add: blocks_ok_def)
  show b: "off + length bs \<le> 512 * n"
  proof -
    have "off + length bs \<le> 512 * (off div 512) + 512" using c mod mult_div_mod_eq [of 512 off] by linarith
    also have "\<dots> \<le> 512 * n" using k by simp
    finally show ?thesis .
  qed
  show "extent_image ?m data n = put_bytes off bs (extent_image m data n)"
  proof (rule nth_equalityI)
    show "length (extent_image ?m data n) = length (put_bytes off bs (extent_image m data n))"
      using ok ok' b by simp
  next
    fix j assume "j < length (extent_image ?m data n)"
    then have j: "j < 512 * n" using ok' by simp
    have dj: "j = 512 * (j div 512) + j mod 512" and d0: "off = 512 * (off div 512) + off mod 512" by simp_all
    have mj: "j mod 512 < 512" by simp
    show "extent_image ?m data n ! j = put_bytes off bs (extent_image m data n) ! j"
    proof (cases "j div 512 = off div 512")
      case True
      have eq: "j mod 512 = off mod 512 + (j - off)" if "off \<le> j" using that dj d0 True by linarith
      have rng: "off \<le> j \<and> j < off + length bs \<longleftrightarrow> off mod 512 \<le> j mod 512 \<and> j mod 512 < off mod 512 + length bs"
        using dj d0 True by linarith
      show ?thesis
        using nth_extent_image [OF ok' j] nth_extent_image [OF ok j] True fit l mj j b rng
        by (auto simp: nth_put_bytes ok dest!: eq)
    next
      case False
      have "\<not> (off \<le> j \<and> j < off + length bs)"
      proof
        assume h: "off \<le> j \<and> j < off + length bs"
        then have "off div 512 \<le> j div 512" by (simp add: div_le_mono)
        with False have "off div 512 < j div 512" by simp
        then have "512 * (off div 512) + 512 \<le> 512 * (j div 512)" by simp
        then show False using h dj d0 c mod by linarith
      qed
      then show ?thesis
        using nth_extent_image [OF ok' j] nth_extent_image [OF ok j] False j b by (auto simp: nth_put_bytes ok)
    qed
  qed
qed

section \<open>Single transfers\<close>

lemma on_diskD: "on_disk s dev img \<Longrightarrow> mounted_device s = Some dev" "on_disk s dev img \<Longrightarrow> disk_ok dev img"
  by (simp_all add: on_disk_def)

lemma on_disk_hw [simp]: "on_disk (s\<lparr>hw := w\<rparr>) dev img = on_disk s dev img"
  by (simp add: on_disk_def)

lemma on_disk_writable: "on_disk s dev img \<Longrightarrow> simplefs_writable s"
  by (auto simp: on_disk_def simplefs_writable_def dest: disk_ok_simps(2))

lemma on_disk_blocks_ok: "on_disk s dev img \<Longrightarrow> data + n \<le> unat (block_count dev) \<Longrightarrow> blocks_ok (img (hw s)) data n"
  by (auto simp: blocks_ok_def on_disk_def intro: disk_ok_simps(3))

lemma read_blocks_ok:
  assumes "on_disk s dev img" "n \<noteq> 0" "unat b + unat n \<le> unat (block_count dev)"
  shows "simplefs_read_blocks b n s = Inr (extent_image (img (hw s)) (unat b) (unat n))"
  using disk_okD(1) [OF on_diskD(2) [OF assms(1)] assms(2,3)] on_diskD(1) [OF assms(1)]
  by (simp add: simplefs_read_blocks_def extent_image_def)

lemma read_block_ok:
  assumes "on_disk s dev img" "unat b < unat (block_count dev)"
  shows "simplefs_read_blocks b 1 s = Inr (img (hw s) (unat b))"
  using read_blocks_ok [OF assms(1), of 1 b] assms(2) by (simp add: extent_image_def)

lemma write_blocks_ok:
  assumes "on_disk s dev img" "n \<noteq> 0" "unat b + unat n \<le> unat (block_count dev)" "512 * unat n \<le> length bytes"
  obtains w' where "simplefs_write_blocks b n bytes s = (Inr (), s\<lparr>hw := w'\<rparr>)"
    "img w' = write_blocks_img (unat b) (unat n) bytes (img (hw s))"
proof -
  obtain w' where w: "block_write dev b n bytes (hw s) = (Inr (), w')"
    "img w' = write_blocks_img (unat b) (unat n) bytes (img (hw s))"
    using disk_okD(2) [OF on_diskD(2) [OF assms(1)] assms(2,3,4)] by blast
  have "simplefs_write_blocks b n bytes s = (Inr (), s\<lparr>hw := w'\<rparr>)"
    using on_diskD(1) [OF assms(1)] disk_ok_simps(2) [OF on_diskD(2) [OF assms(1)]] w(1)
    by (simp add: simplefs_write_blocks_def)
  then show ?thesis using w(2) by (rule that)
qed

lemma write_block_ok:
  assumes "on_disk s dev img" "unat b < unat (block_count dev)" "length bytes = 512"
  obtains w' where "simplefs_write_blocks b 1 bytes s = (Inr (), s\<lparr>hw := w'\<rparr>)"
    "img w' = (img (hw s))(unat b := bytes)"
proof -
  obtain w' where w: "simplefs_write_blocks b 1 bytes s = (Inr (), s\<lparr>hw := w'\<rparr>)"
    "img w' = write_blocks_img (unat b) (unat (1 :: u32)) bytes (img (hw s))"
    using write_blocks_ok [OF assms(1), of 1 b bytes] assms(2,3) by auto
  have "img w' = (img (hw s))(unat b := bytes)"
    unfolding w(2) using assms(3) by (auto simp: write_blocks_img_def fun_eq_iff)
  with w(1) show ?thesis by (rule that)
qed

section \<open>The loops\<close>

text \<open>The address of the block of an extent that holds a byte offset.\<close>

lemma extent_block_addr:
  fixes data c :: u32
  assumes "unat data + n \<le> unat c" "k < n"
  shows "unat (data + of_nat k) = unat data + k" "unat (data + of_nat k) < unat c"
proof -
  have c: "unat c < 4294967296" by simp
  have k: "unat (of_nat k :: u32) = k" using assms c by (intro unat_of_nat_u32) linarith
  have "unat data + unat (of_nat k :: u32) < 4294967296" unfolding k using assms c by linarith
  from unat_add_u32 [OF this] show "unat (data + of_nat k) = unat data + k" by (simp only: k)
  then show "unat (data + of_nat k) < unat c" using assms by linarith
qed

lemma chunk_at_bound: "chunk_at off r \<le> 512 - off mod 512"
  by (simp add: chunk_at_def)

lemma offset_block: "off + r \<le> 512 * n \<Longrightarrow> 0 < r \<Longrightarrow> off div 512 < (n :: nat)"
  by (rule less_mult_imp_div_less) linarith

lemma read_loop_ok:
  assumes disk: "on_disk s dev img" and fits: "unat (dk_data_block d) + unat (dk_block_count d) \<le> unat (block_count dev)"
  shows "off + r \<le> 512 * unat (dk_block_count d) \<Longrightarrow>
    read_loop d off r acc s =
      (acc @ take r (drop off (extent_image (img (hw s)) (unat (dk_data_block d)) (unat (dk_block_count d)))), True)"
proof (induction r arbitrary: off acc rule: less_induct)
  case (less r)
  let ?n = "unat (dk_block_count d)" and ?data = "unat (dk_data_block d)"
  let ?im = "extent_image (img (hw s)) ?data ?n"
  show ?case
  proof (cases "r = 0")
    case False
    let ?c = "chunk_at off r"
    have c: "0 < ?c" "?c \<le> r" using False by (simp_all add: chunk_at_le)
    have k: "off div 512 < ?n" using offset_block [OF less.prems] False by simp
    note addr = extent_block_addr [OF fits k]
    have rd: "simplefs_read_blocks (dk_data_block d + of_nat (off div 512)) 1 s = Inr (img (hw s) (?data + off div 512))"
      using read_block_ok [OF disk addr(2)] by (simp add: addr(1))
    have ck: "take ?c (drop (off mod 512) (img (hw s) (?data + off div 512))) = take ?c (drop off ?im)"
      using image_chunk [OF on_disk_blocks_ok [OF disk fits] k chunk_at_bound] by simp
    have "read_loop d off r acc s = read_loop d (off + ?c) (r - ?c) (acc @ take ?c (drop off ?im)) s"
      using False k rd ck by (subst read_loop.simps) (simp add: Let_def)
    also have "\<dots> = (acc @ take ?c (drop off ?im) @ take (r - ?c) (drop (off + ?c) ?im), True)"
      using less.IH [of "r - ?c" "off + ?c"] c less.prems by simp
    also have "take ?c (drop off ?im) @ take (r - ?c) (drop (off + ?c) ?im) = take r (drop off ?im)"
      using c(2) take_add [of ?c "r - ?c" "drop off ?im"] by (simp add: add.commute)
    finally show ?thesis .
  qed (simp add: read_loop.simps)
qed

text \<open>What a loop that rewrites a slice of an extent guarantees.\<close>

definition extent_updated ::
  "('w \<Rightarrow> nat \<Rightarrow> u8 list) \<Rightarrow> nat \<Rightarrow> nat \<Rightarrow> nat \<Rightarrow> u8 list \<Rightarrow> 'w simplefs \<Rightarrow> 'w simplefs \<Rightarrow> bool" where
  "extent_updated img data n off bs s s' \<longleftrightarrow> (\<exists>w. s' = s\<lparr>hw := w\<rparr>
     \<and> extent_image (img w) data n = put_bytes off bs (extent_image (img (hw s)) data n)
     \<and> (\<forall>b. b < data \<or> data + n \<le> b \<longrightarrow> img w b = img (hw s) b))"

lemma put_bytes_append:
  "off + length xs + length ys \<le> length b \<Longrightarrow>
   put_bytes (off + length xs) ys (put_bytes off xs b) = put_bytes off (xs @ ys) b"
  by (simp add: put_bytes_def ac_simps)

lemma put_bytes_Nil [simp]: "put_bytes off [] b = b"
  by (simp add: put_bytes_def)

lemma extent_updated_trans:
  assumes "extent_updated img data n off xs s s1" "extent_updated img data n (off + length xs) ys s1 s2"
    "off + length xs + length ys \<le> length (extent_image (img (hw s)) data n)"
  shows "extent_updated img data n off (xs @ ys) s s2"
  using assms put_bytes_append [OF assms(3)] unfolding extent_updated_def by fastforce

lemma patch_block:
  assumes disk: "on_disk s dev img" and fits: "unat data + n \<le> unat (block_count dev)"
    and k: "off div 512 < n" and c: "length bs \<le> 512 - off mod 512"
  obtains s' where "simplefs_write_blocks (data + of_nat (off div 512)) 1
      (put_bytes (off mod 512) bs (img (hw s) (unat data + off div 512))) s = (Inr (), s')"
    "extent_updated img (unat data) n off bs s s'"
proof -
  note addr = extent_block_addr [OF fits k] and ok = on_disk_blocks_ok [OF disk fits]
  let ?b = "put_bytes (off mod 512) bs (img (hw s) (unat data + off div 512))"
  have l: "length (img (hw s) (unat data + off div 512)) = 512" using blocks_okD [OF ok k] .
  have "off mod 512 < 512" by simp
  then have "length ?b = 512" using c l by (subst length_put_bytes) linarith+
  then obtain w where w: "simplefs_write_blocks (data + of_nat (off div 512)) 1 ?b s = (Inr (), s\<lparr>hw := w\<rparr>)"
    "img w = (img (hw s))(unat data + off div 512 := ?b)"
    using write_block_ok [OF disk addr(2)] unfolding addr(1) by blast
  have "extent_updated img (unat data) n off bs s (s\<lparr>hw := w\<rparr>)"
    unfolding extent_updated_def using image_patch(1) [OF ok k c] w(2) k by (intro exI [of _ w]) auto
  with w(1) show ?thesis by (rule that)
qed

lemma zero_range_loop_ok:
  assumes "on_disk s dev img" "unat data + n \<le> unat (block_count dev)" "off + r \<le> 512 * n"
  shows "\<exists>s'. zero_range_loop data off r s = (Inr (), s') \<and> extent_updated img (unat data) n off (replicate r 0) s s'"
  using assms
proof (induction r arbitrary: off s rule: less_induct)
  case (less r)
  show ?case
  proof (cases "r = 0")
    case True
    then show ?thesis by (auto simp: zero_range_loop.simps extent_updated_def intro!: exI [of _ "hw s"])
  next
    case False
    let ?c = "chunk_at off r"
    have c: "0 < ?c" "?c \<le> r" "?c \<le> 512 - off mod 512" using False by (simp_all add: chunk_at_le chunk_at_bound)
    have k: "off div 512 < n" using offset_block [OF less.prems(3)] False by simp
    note addr = extent_block_addr [OF less.prems(2) k]
    have rd: "simplefs_read_blocks (data + of_nat (off div 512)) 1 s = Inr (img (hw s) (unat data + off div 512))"
      using read_block_ok [OF less.prems(1) addr(2)] by (simp add: addr(1))
    obtain s1 where s1: "simplefs_write_blocks (data + of_nat (off div 512)) 1
        (put_bytes (off mod 512) (replicate ?c 0) (img (hw s) (unat data + off div 512))) s = (Inr (), s1)"
      "extent_updated img (unat data) n off (replicate ?c 0) s s1"
      using patch_block [OF less.prems(1,2) k, of "replicate ?c 0"] c(3) by auto
    have d1: "on_disk s1 dev img" using s1(2) less.prems(1) by (auto simp: extent_updated_def)
    obtain s2 where s2: "zero_range_loop data (off + ?c) (r - ?c) s1 = (Inr (), s2)"
      "extent_updated img (unat data) n (off + ?c) (replicate (r - ?c) 0) s1 s2"
      using less.IH [of "r - ?c" s1 "off + ?c"] d1 less.prems c by auto
    have "zero_range_loop data off r s = (Inr (), s2)"
      using False rd s1(1) s2(1) by (subst zero_range_loop.simps) (simp add: Let_def)
    moreover have "extent_updated img (unat data) n off (replicate ?c 0 @ replicate (r - ?c) 0) s s2"
      using extent_updated_trans [OF s1(2), of "replicate (r - ?c) 0" s2] s2(2) less.prems(3) c(2)
        on_disk_blocks_ok [OF less.prems(1,2)] by simp
    ultimately show ?thesis using c(2) by (simp flip: replicate_add)
  qed
qed

lemma write_loop_ok:
  assumes "on_disk s dev img" "unat data + n \<le> unat (block_count dev)" "off + length bs \<le> 512 * n"
  shows "\<exists>s'. write_loop data off bs w s = ((w + length bs, True), s') \<and> extent_updated img (unat data) n off bs s s'"
  using assms
proof (induction "length bs" arbitrary: off bs w s rule: less_induct)
  case (less bs)
  show ?case
  proof (cases "bs = []")
    case True
    then show ?thesis by (auto simp: write_loop.simps extent_updated_def intro!: exI [of _ "hw s"])
  next
    case False
    let ?c = "chunk_at off (length bs)"
    have c: "0 < ?c" "?c \<le> length bs" "?c \<le> 512 - off mod 512"
      using False by (simp_all add: chunk_at_le chunk_at_bound)
    have k: "off div 512 < n" using offset_block [OF less.prems(3)] False by simp
    note addr = extent_block_addr [OF less.prems(2) k]
    let ?blk = "data + of_nat (off div 512)" and ?old = "img (hw s) (unat data + off div 512)"
    have rd: "simplefs_read_blocks ?blk 1 s = Inr ?old"
      using read_block_ok [OF less.prems(1) addr(2)] by (simp add: addr(1))
    have l: "length ?old = 512" using blocks_okD [OF on_disk_blocks_ok [OF less.prems(1,2)] k] .
    obtain s1 where s1: "simplefs_write_blocks ?blk 1 (put_bytes (off mod 512) (take ?c bs) ?old) s = (Inr (), s1)"
      "extent_updated img (unat data) n off (take ?c bs) s s1"
      using patch_block [OF less.prems(1,2) k, of "take ?c bs"] c(2,3) by auto
    have full: "put_bytes (off mod 512) (take ?c bs) ?old = take ?c bs" if "off mod 512 = 0" "?c = 512"
      using that l c(2) by (simp add: put_bytes_def)
    have wf: "simplefs_write_blocks ?blk 1 (take 512 bs) s = (Inr (), s1)" if "off mod 512 = 0" "?c = 512"
      using s1(1) full [OF that] that by simp
    have d1: "on_disk s1 dev img" using s1(2) less.prems(1) by (auto simp: extent_updated_def)
    have lt: "length bs - ?c < length bs" using c(1) False by (intro diff_less) simp_all
    obtain s2 where s2: "write_loop data (off + ?c) (drop ?c bs) (w + ?c) s1 = ((w + ?c + length (drop ?c bs), True), s2)"
      "extent_updated img (unat data) n (off + ?c) (drop ?c bs) s1 s2"
      using less.hyps [of "drop ?c bs" s1 "off + ?c" "w + ?c"] d1 less.prems c lt by auto
    have "write_loop data off bs w s = ((w + length bs, True), s2)"
      using False rd s1(1) s2(1) wf c(2) by (subst write_loop.simps) (auto simp: Let_def)
    moreover have "extent_updated img (unat data) n off (take ?c bs @ drop ?c bs) s s2"
      using extent_updated_trans [OF s1(2), of "drop ?c bs" s2] s2(2) less.prems(3) c(2)
        on_disk_blocks_ok [OF less.prems(1,2)] by simp
    ultimately show ?thesis by simp
  qed
qed

lemma zero_blocks_ok:
  assumes "on_disk s dev img" "\<forall>b\<in>set bs. unat b < unat (block_count dev)"
  shows "\<exists>w. zero_blocks bs s = (Inr (), s\<lparr>hw := w\<rparr>) \<and>
    img w = (\<lambda>b. if b \<in> unat ` set bs then replicate 512 0 else img (hw s) b)"
  using assms
proof (induction bs arbitrary: s)
  case Nil
  then show ?case by (auto intro!: exI [of _ "hw s"])
next
  case (Cons b bs)
  obtain w1 where w1: "simplefs_write_blocks b 1 (replicate 512 0) s = (Inr (), s\<lparr>hw := w1\<rparr>)"
    "img w1 = (img (hw s))(unat b := replicate 512 0)"
    using write_block_ok [OF Cons.prems(1), of b "replicate 512 0"] Cons.prems(2) by auto
  obtain w2 where w2: "zero_blocks bs (s\<lparr>hw := w1\<rparr>) = (Inr (), s\<lparr>hw := w2\<rparr>)"
    "img w2 = (\<lambda>b. if b \<in> unat ` set bs then replicate 512 0 else img w1 b)"
    using Cons.IH [of "s\<lparr>hw := w1\<rparr>"] Cons.prems by (auto cong: if_cong)
  have "zero_blocks (b # bs) s = (Inr (), s\<lparr>hw := w2\<rparr>)"
    using w1(1) w2(1) by (simp add: bind_r_def simplefs_zero_block_def)
  moreover have "img w2 = (\<lambda>c. if c \<in> unat ` set (b # bs) then replicate 512 0 else img (hw s) c)"
    using w2(2) w1(2) by (auto simp: fun_eq_iff)
  ultimately show ?case by blast
qed

lemma copy_extent_loop_ok:
  fixes src dst :: u32
  assumes "on_disk s dev img" "unat src + n \<le> unat (block_count dev)" "unat dst + n \<le> unat (block_count dev)"
    "unat src + n \<le> unat dst \<or> unat dst + n \<le> unat src" "\<forall>k\<in>set ks. k < n"
  shows "\<exists>w. copy_extent_loop src dst ks s = (Inr (), s\<lparr>hw := w\<rparr>) \<and>
    (\<forall>k\<in>set ks. img w (unat dst + k) = img (hw s) (unat src + k)) \<and>
    (\<forall>b. b \<notin> (+) (unat dst) ` set ks \<longrightarrow> img w b = img (hw s) b)"
  using assms(1,5)
proof (induction ks arbitrary: s)
  case Nil
  then show ?case by (auto intro!: exI [of _ "hw s"])
next
  case (Cons k ks)
  have k: "k < n" using Cons.prems(2) by simp
  note a = extent_block_addr [OF assms(2) k] and b = extent_block_addr [OF assms(3) k]
  have rd: "simplefs_read_blocks (src + of_nat k) 1 s = Inr (img (hw s) (unat src + k))"
    using read_block_ok [OF Cons.prems(1) a(2)] by (simp add: a(1))
  have "length (img (hw s) (unat src + k)) = 512"
    using blocks_okD [OF on_disk_blocks_ok [OF Cons.prems(1) assms(2)] k] .
  then obtain w1 where w1: "simplefs_write_blocks (dst + of_nat k) 1 (img (hw s) (unat src + k)) s = (Inr (), s\<lparr>hw := w1\<rparr>)"
    "img w1 = (img (hw s))(unat dst + k := img (hw s) (unat src + k))"
    using write_block_ok [OF Cons.prems(1) b(2)] unfolding b(1) by blast
  obtain w2 where w2: "copy_extent_loop src dst ks (s\<lparr>hw := w1\<rparr>) = (Inr (), s\<lparr>hw := w2\<rparr>)"
    "\<forall>k\<in>set ks. img w2 (unat dst + k) = img w1 (unat src + k)"
    "\<forall>b. b \<notin> (+) (unat dst) ` set ks \<longrightarrow> img w2 b = img w1 b"
    using Cons.IH [of "s\<lparr>hw := w1\<rparr>"] Cons.prems by auto
  have src: "img w1 (unat src + j) = img (hw s) (unat src + j)" if "j < n" for j
    using assms(4) k that by (auto simp: w1(2))
  have "copy_extent_loop src dst (k # ks) s = (Inr (), s\<lparr>hw := w2\<rparr>)"
    using rd w1(1) w2(1) by (simp add: bind_r_def)
  moreover have "img w2 (unat dst + j) = img (hw s) (unat src + j)" if "j \<in> set (k # ks)" for j
  proof (cases "j \<in> set ks")
    case True
    then show ?thesis using w2(2) src [of j] Cons.prems(2) by simp
  next
    case False
    then have "unat dst + j \<notin> (+) (unat dst) ` set ks" "j = k" using that by auto
    then show ?thesis using w2(3) w1(2) by simp
  qed
  moreover have "img w2 b = img (hw s) b" if "b \<notin> (+) (unat dst) ` set (k # ks)" for b
    using that w2(3) w1(2) by auto
  ultimately show ?case by blast
qed

end
