(* ===== verification/Simplefs_Inv.thy ===== *)
theory Simplefs_Inv
  imports Simplefs_Image
begin

text \<open>
  The storage invariant of \<^verbatim>\<open>simplefs.c\<close>: the extents of the files and directories in use lie in the
  data area, are marked in the block bitmap and do not overlap. Allocation, growth, truncation, reading
  and writing keep it, and the contents of the other files with it.
\<close>

section \<open>The byte bitmaps\<close>

interpretation byte_bm: bitmap bit8_used bit8_set bit8_clear
  unfolding bit8_used_def bit8_set_def bit8_clear_def
  by (unfold_locales; rule word_bitmap_set word_bitmap_clear; simp)

lemma block_addr_nowrap:
  fixes a n :: u32
  assumes "unat a + unat n < 4294967296" "k < unat n"
  shows "unat (a + of_nat k) = unat a + k"
proof -
  have k: "unat (of_nat k :: u32) = k" using assms by (intro unat_of_nat_u32) linarith
  show ?thesis using assms k by (subst unat_add_u32) linarith+
qed

text \<open>A run of free blocks in the data area, on natural numbers.\<close>

definition free_run :: "'w simplefs \<Rightarrow> nat \<Rightarrow> nat \<Rightarrow> bool" where
  "free_run s a n \<longleftrightarrow> unat (data_block_start (mounted_superblock s)) \<le> a
     \<and> a + n \<le> unat (total_blocks (mounted_superblock s))
     \<and> (\<forall>b. a \<le> b \<longrightarrow> b < a + n \<longrightarrow> \<not> bit8_used (block_bitmap s) b)"

lemma extent_is_free_iff:
  assumes "unat a + unat n < 4294967296"
  shows "simplefs_extent_is_free a n s \<longleftrightarrow> free_run s (unat a) (unat n)"
proof -
  have "unat (a + n) = unat a + unat n" using assms by (rule unat_add_u32)
  moreover have "list_all (\<lambda>k. \<not> simplefs_block_used s (a + of_nat k)) [0..<unat n] \<longleftrightarrow>
      (\<forall>k < unat n. \<not> bit8_used (block_bitmap s) (unat a + k))"
    using block_addr_nowrap [OF assms] by (auto simp: list_all_iff simplefs_block_used_def)
  moreover have "(\<forall>k < unat n. \<not> bit8_used (block_bitmap s) (unat a + k)) \<longleftrightarrow>
      (\<forall>b. unat a \<le> b \<longrightarrow> b < unat a + unat n \<longrightarrow> \<not> bit8_used (block_bitmap s) b)"
    by (metis add_diff_inverse_nat le_add1 nat_add_left_cancel_less not_less)
  ultimately show ?thesis
    by (auto simp: simplefs_extent_is_free_def free_run_def word_le_nat_alt word_less_nat_alt)
qed

definition marked :: "bool \<Rightarrow> nat \<Rightarrow> nat \<Rightarrow> (nat \<Rightarrow> u8) \<Rightarrow> nat \<Rightarrow> u8" where
  "marked used a n bm = fold (if used then bit8_set else bit8_clear) [a..<a + n] bm"

lemma marked_used:
  "bit8_used (marked True a n bm) b \<longleftrightarrow> bit8_used bm b \<or> a \<le> b \<and> b < a + n"
  "bit8_used (marked False a n bm) b \<longleftrightarrow> bit8_used bm b \<and> \<not> (a \<le> b \<and> b < a + n)"
  by (auto simp: marked_def byte_bm.used_fold_set_used byte_bm.used_fold_set_free)

lemma mark_extent_marked:
  assumes "unat a + unat n < 4294967296"
  shows "simplefs_mark_extent a n used s = s\<lparr>block_bitmap := marked used (unat a) (unat n) (block_bitmap s)\<rparr>"
proof -
  have "fold (\<lambda>k. simplefs_set_block_used (a + of_nat k) used) [0..<m] s =
      s\<lparr>block_bitmap := marked used (unat a) m (block_bitmap s)\<rparr>" if "m \<le> unat n" for m
    using that
  proof (induction m)
    case (Suc m)
    then show ?case using block_addr_nowrap [OF assms, of m]
      by (simp add: simplefs_set_block_used_def marked_def)
  qed (simp add: marked_def)
  then show ?thesis by (simp add: simplefs_mark_extent_def)
qed

lemma map_upt_shift: "map f [a..<a + n] = map (\<lambda>k. f (a + k)) [0..<n]"
  by (rule nth_equalityI) simp_all

lemma takeWhile_map_upt_Nil: "(m < n \<Longrightarrow> \<not> P (f m)) \<Longrightarrow> takeWhile P (map f [m..<n]) = []"
  by (cases "m < n") (simp_all add: upt_conv_Cons)

lemma extent_candidates_set:
  fixes n :: u32
  assumes sb: "unat (data_block_start sb) \<le> unat (total_blocks sb)" "unat (total_blocks sb) \<le> 32768"
    and n: "unat n \<le> 16777216"
  shows "set (extent_candidates n sb) =
    {a. unat (data_block_start sb) \<le> unat a \<and> unat a + unat n \<le> unat (total_blocks sb)}" (is "_ = ?A")
proof
  let ?d = "data_block_start sb" and ?t = "total_blocks sb"
  let ?c = "\<lambda>k. ?d + of_nat k :: u32"
  have c: "unat (?c k) = unat ?d + k" "unat (?c k + n) = unat ?d + k + unat n" if "k \<le> unat ?t" for k
  proof -
    have k: "unat (of_nat k :: u32) = k" using that sb by (intro unat_of_nat_u32) linarith
    show 1: "unat (?c k) = unat ?d + k" using that sb k by (subst unat_add_u32) linarith+
    show "unat (?c k + n) = unat ?d + k + unat n" using that sb n 1 by (subst unat_add_u32) linarith+
  qed
  let ?m = "Suc (unat ?t) - (unat ?d + unat n)"
  have len: "[0..<Suc (unat ?t)] = [0..<?m] @ [?m..<Suc (unat ?t)]"
    using upt_add_eq_append [of 0 ?m "Suc (unat ?t) - ?m"] by simp
  have tk: "takeWhile (\<lambda>st. st + n \<le> ?t) (map ?c [0..<Suc (unat ?t)]) = map ?c [0..<?m]"
    unfolding len map_append
  proof (subst takeWhile_append2)
    show "x + n \<le> ?t" if "x \<in> set (map ?c [0..<?m])" for x
      using that c by (auto simp: word_le_nat_alt)
    have "\<not> ?c ?m + n \<le> ?t" if "?m < Suc (unat ?t)"
      using c(2) [of ?m] that by (simp add: word_le_nat_alt)
    then show "map ?c [0..<?m] @ takeWhile (\<lambda>st. st + n \<le> ?t) (map ?c [?m..<Suc (unat ?t)]) = map ?c [0..<?m]"
      by (subst takeWhile_map_upt_Nil) auto
  qed
  show "set (extent_candidates n sb) \<subseteq> ?A"
    unfolding extent_candidates_def tk using c by auto
  show "?A \<subseteq> set (extent_candidates n sb)"
  proof
    fix a assume a: "a \<in> ?A"
    then have "unat a - unat ?d < ?m" by auto
    moreover have "a = ?c (unat a - unat ?d)"
      using a c(1) [of "unat a - unat ?d"] by (auto simp: word_unat_eq_iff)
    ultimately show "a \<in> set (extent_candidates n sb)"
      unfolding extent_candidates_def tk by auto
  qed
qed

lemma allocate_extent_cases:
  assumes sb: "unat (data_block_start (mounted_superblock s)) \<le> unat (total_blocks (mounted_superblock s))"
      "unat (total_blocks (mounted_superblock s)) \<le> 32768"
    and n: "n \<noteq> 0" "unat n \<le> 16777216"
  obtains (found) a where "free_run s (unat a) (unat n)"
      "simplefs_allocate_extent n s = (Inr a, s\<lparr>block_bitmap := marked True (unat a) (unat n) (block_bitmap s)\<rparr>)"
    | (full) "\<And>a. \<not> free_run s a (unat n)" "simplefs_allocate_extent n s = (Inl EFAIL, s)"
proof (cases "find (\<lambda>start. simplefs_extent_is_free start n s) (extent_candidates n (mounted_superblock s))")
  case (Some a)
  then have a: "a \<in> set (extent_candidates n (mounted_superblock s))" "simplefs_extent_is_free a n s"
    by (auto simp: find_Some_iff)
  then have "unat a + unat n < 4294967296" using sb unfolding extent_candidates_set [OF sb n(2)] by auto
  with a(2) Some n show ?thesis
    by (intro found [of a]) (simp_all add: extent_is_free_iff simplefs_allocate_extent_def mark_extent_marked)
next
  case None
  have "\<not> free_run s a (unat n)" for a
  proof
    assume f: "free_run s a (unat n)"
    then have "a + unat n \<le> 32768" using sb by (simp add: free_run_def)
    then have a: "unat (of_nat a :: u32) = a" by (intro unat_of_nat_u32) linarith
    then have "simplefs_extent_is_free (of_nat a) n s"
      using f \<open>a + unat n \<le> 32768\<close> by (subst extent_is_free_iff) simp_all
    moreover have "of_nat a \<in> set (extent_candidates n (mounted_superblock s))"
      using f unfolding extent_candidates_set [OF sb n(2)] by (simp add: a free_run_def)
    ultimately show False using None by (auto simp: find_None_iff)
  qed
  with None n show ?thesis by (intro full) (simp_all add: simplefs_allocate_extent_def)
qed

section \<open>The storage invariant\<close>

text \<open>
  Where the superblock places the metadata: after block 0 the inode table, the inode bitmap and the block
  bitmap, each before the next, and the data area last. The mount code does not check this order;
  \<^verbatim>\<open>tools/mkfs_rootfs.c\<close> writes it.
\<close>

definition layout_ok :: "simplefs_superblock \<Rightarrow> bool" where
  "layout_ok sb \<longleftrightarrow> 1 \<le> unat (inode_table_start sb)
     \<and> unat (inode_table_start sb) + unat (inode_table_blocks sb) \<le> unat (inode_bitmap_start sb)
     \<and> unat (inode_bitmap_start sb) + unat (inode_bitmap_blocks sb) \<le> unat (block_bitmap_start sb)
     \<and> unat (block_bitmap_start sb) + unat (block_bitmap_blocks sb) \<le> unat (data_block_start sb)
     \<and> unat (data_block_start sb) \<le> unat (total_blocks sb)"

definition node_blocks :: "'w simplefs \<Rightarrow> nat \<Rightarrow> nat set" where
  "node_blocks s i = {unat (dk_data_block (node_disk s i))..<
     unat (dk_data_block (node_disk s i)) + unat (dk_block_count (node_disk s i))}"

definition live :: "'w simplefs \<Rightarrow> nat \<Rightarrow> bool" where
  "live s i \<longleftrightarrow> i < unat (mounted_inode_count s) \<and> simplefs_inode_used s i"

definition extents_ok :: "'w simplefs \<Rightarrow> bool" where
  "extents_ok s \<longleftrightarrow>
     (\<forall>i. live s i \<longrightarrow> node_blocks s i \<subseteq> {unat (data_block_start (mounted_superblock s))..<
                                          unat (total_blocks (mounted_superblock s))}
        \<and> node_blocks s i \<subseteq> {b. bit8_used (block_bitmap s) b}
        \<and> unat (dk_size (node_disk s i)) \<le> 512 * unat (dk_block_count (node_disk s i)))
     \<and> (\<forall>i j. live s i \<longrightarrow> live s j \<longrightarrow> i \<noteq> j \<longrightarrow> node_blocks s i \<inter> node_blocks s j = {})"

definition mount_inv :: "'w simplefs \<Rightarrow> 'w block_device \<Rightarrow> ('w \<Rightarrow> nat \<Rightarrow> u8 list) \<Rightarrow> bool" where
  "mount_inv s dev img \<longleftrightarrow> on_disk s dev img \<and> superblock_ok dev (mounted_superblock s)
     \<and> layout_ok (mounted_superblock s) \<and> mounted_inode_count s = inode_count (mounted_superblock s)"

definition fs_inv :: "'w simplefs \<Rightarrow> 'w block_device \<Rightarrow> ('w \<Rightarrow> nat \<Rightarrow> u8 list) \<Rightarrow> bool" where
  "fs_inv s dev img \<longleftrightarrow> mount_inv s dev img \<and> extents_ok s"

text \<open>The bytes of an extent, and the contents of a file: the first \<open>size\<close> of them.\<close>

definition raw :: "('w \<Rightarrow> nat \<Rightarrow> u8 list) \<Rightarrow> 'w simplefs \<Rightarrow> nat \<Rightarrow> u8 list" where
  "raw img s i = extent_image (img (hw s)) (unat (dk_data_block (node_disk s i))) (unat (dk_block_count (node_disk s i)))"

definition contents :: "('w \<Rightarrow> nat \<Rightarrow> u8 list) \<Rightarrow> 'w simplefs \<Rightarrow> nat \<Rightarrow> u8 list" where
  "contents img s i = take (unat (dk_size (node_disk s i))) (raw img s i)"

lemma mount_invD:
  assumes "mount_inv s dev img"
  shows "on_disk s dev img" "layout_ok (mounted_superblock s)"
    "unat (total_blocks (mounted_superblock s)) \<le> unat (block_count dev)"
    "unat (total_blocks (mounted_superblock s)) \<le> 32768"
    "unat (data_block_start (mounted_superblock s)) \<le> unat (total_blocks (mounted_superblock s))"
    "simplefs_writable s" "disk_ok dev img" "mounted_device s = Some dev"
  using assms on_disk_writable [of s dev img]
  by (auto simp: mount_inv_def superblock_ok_def layout_ok_def word_le_nat_alt word_less_nat_alt on_disk_def)

lemma fs_invD:
  assumes "fs_inv s dev img"
  shows "on_disk s dev img" "mount_inv s dev img" "extents_ok s"
    "unat (total_blocks (mounted_superblock s)) \<le> unat (block_count dev)"
    "unat (total_blocks (mounted_superblock s)) \<le> 32768"
    "unat (data_block_start (mounted_superblock s)) \<le> unat (total_blocks (mounted_superblock s))"
    "simplefs_writable s" "disk_ok dev img" "mounted_device s = Some dev"
  using assms mount_invD [of s dev img] by (auto simp: fs_inv_def)

lemma live_extent:
  assumes "fs_inv s dev img" "live s i"
  shows "unat (dk_data_block (node_disk s i)) + unat (dk_block_count (node_disk s i)) \<le> unat (block_count dev)
      \<or> dk_block_count (node_disk s i) = 0"
    "unat (dk_size (node_disk s i)) \<le> 512 * unat (dk_block_count (node_disk s i))"
    "unat (dk_block_count (node_disk s i)) \<le> 32768"
    "dk_block_count (node_disk s i) \<noteq> 0 \<Longrightarrow>
       unat (data_block_start (mounted_superblock s)) \<le> unat (dk_data_block (node_disk s i)) \<and>
       unat (dk_data_block (node_disk s i)) + unat (dk_block_count (node_disk s i)) \<le> unat (total_blocks (mounted_superblock s))"
    "length (raw img s i) = 512 * unat (dk_block_count (node_disk s i))"
proof -
  let ?d = "node_disk s i"
  have e: "node_blocks s i \<subseteq> {unat (data_block_start (mounted_superblock s))..<unat (total_blocks (mounted_superblock s))}"
    "unat (dk_size ?d) \<le> 512 * unat (dk_block_count ?d)"
    using fs_invD(3) [OF assms(1)] assms(2) by (auto simp: extents_ok_def)
  show r: "dk_block_count ?d \<noteq> 0 \<Longrightarrow> unat (data_block_start (mounted_superblock s)) \<le> unat (dk_data_block ?d) \<and>
      unat (dk_data_block ?d) + unat (dk_block_count ?d) \<le> unat (total_blocks (mounted_superblock s))"
    using e(1) by (simp add: node_blocks_def unat_eq_zero ivl_subset)
  show "unat (dk_size ?d) \<le> 512 * unat (dk_block_count ?d)" by (rule e(2))
  show c: "unat (dk_data_block ?d) + unat (dk_block_count ?d) \<le> unat (block_count dev) \<or> dk_block_count ?d = 0"
    using r fs_invD(4) [OF assms(1)] by auto
  show "unat (dk_block_count ?d) \<le> 32768"
    using r fs_invD(5) [OF assms(1)] by (cases "dk_block_count ?d = 0") auto
  show "length (raw img s i) = 512 * unat (dk_block_count ?d)"
    using c on_disk_blocks_ok [OF fs_invD(1) [OF assms(1)]]
    by (auto simp: raw_def extent_image_def length_extent_image [unfolded extent_image_def])
qed

text \<open>
  The step every operation on an extent makes: node \<open>i\<close> gets the extent \<open>x\<close>, \<open>y\<close> and the size \<open>z\<close>, the block
  bitmap and the disk change with it.
\<close>

definition with_extent :: "nat \<Rightarrow> u32 \<Rightarrow> u32 \<Rightarrow> u32 \<Rightarrow> (nat \<Rightarrow> u8) \<Rightarrow> 'w \<Rightarrow> 'w simplefs \<Rightarrow> 'w simplefs" where
  "with_extent i x y z bm w s =
     (upd_disk i (\<lambda>d. d\<lparr>dk_size := z, dk_data_block := x, dk_block_count := y\<rparr>) s)\<lparr>block_bitmap := bm, hw := w\<rparr>"

lemma with_extent_sel [simp]:
  "mounted_device (with_extent i x y z bm w s) = mounted_device s"
  "mounted_superblock (with_extent i x y z bm w s) = mounted_superblock s"
  "mounted_inode_count (with_extent i x y z bm w s) = mounted_inode_count s"
  "inode_bitmap (with_extent i x y z bm w s) = inode_bitmap s"
  "block_bitmap (with_extent i x y z bm w s) = bm" "hw (with_extent i x y z bm w s) = w"
  "node_disk (with_extent i x y z bm w s) j =
     (if j = i then (node_disk s i)\<lparr>dk_size := z, dk_data_block := x, dk_block_count := y\<rparr> else node_disk s j)"
  "node_vfs (with_extent i x y z bm w s) j = node_vfs s j"
  by (simp_all add: with_extent_def upd_node_def)

lemma fs_inv_with_extent:
  assumes inv: "fs_inv s dev img"
    and new: "y \<noteq> 0 \<Longrightarrow> unat (data_block_start (mounted_superblock s)) \<le> unat x \<and>
        unat x + unat y \<le> unat (total_blocks (mounted_superblock s))"
    and used: "\<And>b. unat x \<le> b \<Longrightarrow> b < unat x + unat y \<Longrightarrow> bit8_used bm b"
    and others: "\<And>j b. live s j \<Longrightarrow> j \<noteq> i \<Longrightarrow> b \<in> node_blocks s j \<Longrightarrow>
        bit8_used bm b \<and> \<not> (unat x \<le> b \<and> b < unat x + unat y)"
    and z: "unat z \<le> 512 * unat y"
  shows "fs_inv (with_extent i x y z bm w s) dev img"
proof -
  let ?s = "with_extent i x y z bm w s"
  have lv: "live ?s j = live s j" for j by (simp add: live_def simplefs_inode_used_def)
  have nb: "node_blocks ?s j = (if j = i then {unat x..<unat x + unat y} else node_blocks s j)" for j
    by (simp add: node_blocks_def)
  have old: "extents_ok s" using inv by (rule fs_invD)
  have "{unat x..<unat x + unat y} \<subseteq> {unat (data_block_start (mounted_superblock s))..<unat (total_blocks (mounted_superblock s))}"
    using new by (cases "y = 0") auto
  then have "extents_ok ?s"
    unfolding extents_ok_def lv nb using old used others z
    by (auto simp: extents_ok_def)
  then show ?thesis using inv by (simp add: fs_inv_def mount_inv_def on_disk_def)
qed

section \<open>Growing an extent\<close>

lemma extent_image_append: "extent_image m a (n + k) = extent_image m a n @ extent_image m (a + n) k"
  using upt_add_eq_append [of a "a + n" k] by (simp add: extent_image_def add.assoc)

lemma extent_image_zero:
  "(\<And>b. a \<le> b \<Longrightarrow> b < a + n \<Longrightarrow> m b = replicate 512 0) \<Longrightarrow> extent_image m a n = replicate (512 * n) 0"
proof (induction n)
  case (Suc n)
  then have "extent_image m a n = replicate (512 * n) 0" "m (a + n) = replicate 512 0" by auto
  then show ?case using extent_image_append [of m a n 1]
    by (simp add: extent_image_def replicate_add [symmetric] add.commute)
qed (simp add: extent_image_def)

lemma raw_other:
  assumes "j \<noteq> i" "\<And>b. b \<in> node_blocks s j \<Longrightarrow> img w b = img (hw s) b"
  shows "raw img (with_extent i x y z bm w s) j = raw img s j"
  using assms by (auto simp: raw_def node_blocks_def intro!: extent_image_cong)

lemma with_extent_keep:
  "(upd_disk i (\<lambda>d. d\<lparr>dk_data_block := x, dk_block_count := y\<rparr>) (s\<lparr>block_bitmap := bm\<rparr>))\<lparr>hw := w\<rparr>
     = with_extent i x y (dk_size (node_disk s i)) bm w s"
  "upd_disk i (\<lambda>d. d\<lparr>dk_data_block := x, dk_block_count := y\<rparr>) (s\<lparr>hw := w, block_bitmap := bm\<rparr>)
     = with_extent i x y (dk_size (node_disk s i)) bm w s"
  "upd_disk i (\<lambda>d. d\<lparr>dk_block_count := y\<rparr>) (s\<lparr>block_bitmap := bm, hw := w\<rparr>)
     = with_extent i (dk_data_block (node_disk s i)) y (dk_size (node_disk s i)) bm w s"
  by (cases "runtime_inodes s i"; cases "node_disk s i"; simp add: with_extent_def upd_node_def)+

text \<open>What growing node \<open>i\<close> to \<open>required\<close> blocks promises.\<close>

definition grown :: "'w simplefs \<Rightarrow> 'w block_device \<Rightarrow> ('w \<Rightarrow> nat \<Rightarrow> u8 list) \<Rightarrow> nat \<Rightarrow> u32 \<Rightarrow> 'w simplefs \<Rightarrow> bool" where
  "grown s dev img i required s' \<longleftrightarrow>
     (\<exists>x bm w. s' = with_extent i x required (dk_size (node_disk s i)) bm w s) \<and> fs_inv s' dev img
     \<and> raw img s' i = raw img s i @ replicate (512 * (unat required - unat (dk_block_count (node_disk s i)))) 0
     \<and> (\<forall>j. live s j \<longrightarrow> j \<noteq> i \<longrightarrow> raw img s' j = raw img s j)"

lemma live_not_free:
  assumes "fs_inv s dev img" "live s j" "b \<in> node_blocks s j"
  shows "bit8_used (block_bitmap s) b" "free_run s a n \<Longrightarrow> \<not> (a \<le> b \<and> b < a + n)"
proof -
  show u: "bit8_used (block_bitmap s) b" using fs_invD(3) [OF assms(1)] assms(2,3) by (auto simp: extents_ok_def)
  show "free_run s a n \<Longrightarrow> \<not> (a \<le> b \<and> b < a + n)" using u by (auto simp: free_run_def)
qed

lemma live_disjoint:
  assumes "fs_inv s dev img" "live s i" "live s j" "i \<noteq> j" "b \<in> node_blocks s j"
  shows "b \<notin> node_blocks s i"
  using fs_invD(3) [OF assms(1)] assms(2-5) unfolding extents_ok_def by blast

lemma run_addresses:
  fixes a n :: u32
  assumes "unat a + unat n \<le> 32768"
  shows "unat ` set (map (\<lambda>k. a + of_nat k) [m..<unat n]) = {unat a + m..<unat a + unat n}"
proof -
  have "unat (a + of_nat k) = unat a + k" if "k < unat n" for k
    using assms that by (intro block_addr_nowrap [of a n]) linarith+
  then have "unat ` set (map (\<lambda>k. a + of_nat k) [m..<unat n]) = (+) (unat a) ` {m..<unat n}"
    unfolding set_map image_image set_upt by (intro image_cong) auto
  then show ?thesis by (simp add: add.commute)
qed

lemma zero_run:
  fixes a n :: u32
  assumes "fs_inv s0 dev img" "on_disk s dev img" "unat a + unat n \<le> unat (total_blocks (mounted_superblock s0))"
    and "set bs = set (map (\<lambda>k. a + of_nat k) [m..<unat n])"
  obtains w where "zero_blocks bs s = (Inr (), s\<lparr>hw := w\<rparr>)"
    "\<And>b. img w b = (if unat a + m \<le> b \<and> b < unat a + unat n then replicate 512 0 else img (hw s) b)"
proof -
  have r: "unat ` set bs = {unat a + m..<unat a + unat n}"
    unfolding assms(4) using assms(3) fs_invD(5) [OF assms(1)] by (intro run_addresses) linarith
  have "\<forall>b\<in>set bs. unat b < unat (block_count dev)"
  proof
    fix b assume "b \<in> set bs"
    then have "unat b \<in> {unat a + m..<unat a + unat n}" using r by blast
    then show "unat b < unat (block_count dev)" using assms(3) fs_invD(4) [OF assms(1)] by simp
  qed
  from zero_blocks_ok [OF assms(2) this] obtain w where "zero_blocks bs s = (Inr (), s\<lparr>hw := w\<rparr>)"
    "img w = (\<lambda>b. if b \<in> unat ` set bs then replicate 512 0 else img (hw s) b)" by blast
  then show ?thesis by (intro that [of w]) (auto simp: r)
qed

lemma on_disk_frame [simp]:
  "on_disk (s\<lparr>block_bitmap := bm\<rparr>) dev img = on_disk s dev img"
  "on_disk (upd_node i f s) dev img = on_disk s dev img"
  "hw (upd_node i f s) = hw s"
  by (simp_all add: on_disk_def upd_node_def)

lemma ensure_extent_new:
  assumes inv: "fs_inv s dev img" and i: "live s i" and bc: "dk_block_count (node_disk s i) = 0"
    and req: "required \<noteq> 0" "unat required \<le> 16777216"
  shows "(\<exists>s'. simplefs_ensure_extent i required s = (Inr (), s') \<and> grown s dev img i required s') \<or>
    (simplefs_ensure_extent i required s = (Inl EFAIL, s) \<and> (\<forall>a. \<not> free_run s a (unat required)))"
proof -
  have e: "simplefs_ensure_extent i required s =
     bind_r (simplefs_allocate_extent required) (\<lambda>new_start s1.
          zero_blocks (map (\<lambda>k. new_start + of_nat k) (rev [0..<unat required]))
            (upd_disk i (\<lambda>d. d\<lparr>dk_data_block := new_start, dk_block_count := required\<rparr>) s1)) s"
    using req(1) by (simp add: simplefs_ensure_extent_def bc)
  from fs_invD(6,5) [OF inv] req show ?thesis
  proof (cases rule: allocate_extent_cases)
    case (found a)
    let ?bm = "marked True (unat a) (unat required) (block_bitmap s)"
    let ?u = "upd_disk i (\<lambda>d. d\<lparr>dk_data_block := a, dk_block_count := required\<rparr>) (s\<lparr>block_bitmap := ?bm\<rparr>)"
    have fr: "unat a + unat required \<le> unat (total_blocks (mounted_superblock s))"
      "unat (data_block_start (mounted_superblock s)) \<le> unat a" using found(1) by (auto simp: free_run_def)
    have od: "on_disk ?u dev img" using fs_invD(1) [OF inv] by simp
    obtain w where w: "zero_blocks (map (\<lambda>k. a + of_nat k) (rev [0..<unat required])) ?u = (Inr (), ?u\<lparr>hw := w\<rparr>)"
      "\<And>b. img w b = (if unat a + 0 \<le> b \<and> b < unat a + unat required then replicate 512 0 else img (hw ?u) b)"
      by (rule zero_run [OF inv od fr(1), of "map (\<lambda>k. a + of_nat k) (rev [0..<unat required])" 0]) auto
    let ?s' = "with_extent i a required (dk_size (node_disk s i)) ?bm w s"
    have r: "simplefs_ensure_extent i required s = (Inr (), ?s')"
      unfolding e bind_r_simps(2) [where m = "simplefs_allocate_extent required", OF found(2)] w(1) with_extent_keep(1) ..
    have "fs_inv ?s' dev img"
      using fr live_not_free [OF inv] found(1) live_extent(2) [OF inv i] bc
      by (intro fs_inv_with_extent [OF inv]) (auto simp: marked_used)
    moreover have "raw img ?s' i = raw img s i @ replicate (512 * (unat required - unat (dk_block_count (node_disk s i)))) 0"
      using extent_image_zero [of "unat a" "unat required" "img w"] w(2) bc
      by (simp add: raw_def extent_image_def)
    moreover have "raw img ?s' j = raw img s j" if "live s j" "j \<noteq> i" for j
      using w(2) live_not_free(2) [OF inv that(1) _ found(1)] that(2) by (intro raw_other) auto
    ultimately show ?thesis using r unfolding grown_def by blast
  next
    case full
    then show ?thesis unfolding e by (auto simp: bind_r_simps(1))
  qed
qed

lemma ensure_extent_tail:
  assumes inv: "fs_inv s dev img" and i: "live s i" and bc: "dk_block_count (node_disk s i) \<noteq> 0"
    and req: "dk_block_count (node_disk s i) < required" "unat required \<le> 16777216"
    and tail: "simplefs_extent_is_free (dk_data_block (node_disk s i) + dk_block_count (node_disk s i))
        (required - dk_block_count (node_disk s i)) s"
  shows "\<exists>s'. simplefs_ensure_extent i required s = (Inr (), s') \<and> grown s dev img i required s'"
proof -
  let ?x = "dk_data_block (node_disk s i)" and ?c = "dk_block_count (node_disk s i)"
  let ?t = "?x + ?c" and ?k = "required - ?c"
  have xc: "unat ?x + unat ?c \<le> unat (total_blocks (mounted_superblock s))"
    "unat (data_block_start (mounted_superblock s)) \<le> unat ?x" using live_extent(4) [OF inv i bc] by auto
  have k: "unat ?k = unat required - unat ?c" using req(1) by (simp add: unat_sub_if' word_less_nat_alt word_le_nat_alt)
  have t: "unat ?t = unat ?x + unat ?c" using xc fs_invD(5) [OF inv] by (intro unat_add_u32) linarith
  have nw: "unat ?t + unat ?k < 4294967296" using xc t k req(2) fs_invD(5) [OF inv] by linarith
  have fr: "free_run s (unat ?t) (unat ?k)" using tail unfolding extent_is_free_iff [OF nw] .
  then have tk: "unat ?t + unat ?k \<le> unat (total_blocks (mounted_superblock s))" by (simp add: free_run_def)
  have end_eq: "unat ?t + unat ?k = unat ?x + unat required" using t k req(1) by (simp add: word_less_nat_alt)
  let ?bm = "marked True (unat ?t) (unat ?k) (block_bitmap s)"
  have od: "on_disk (s\<lparr>block_bitmap := ?bm\<rparr>) dev img" using fs_invD(1) [OF inv] by simp
  obtain w where w: "zero_blocks (map (\<lambda>k. ?t + of_nat k) [0..<unat ?k]) (s\<lparr>block_bitmap := ?bm\<rparr>)
        = (Inr (), s\<lparr>block_bitmap := ?bm, hw := w\<rparr>)"
      "\<And>b. img w b = (if unat ?t + 0 \<le> b \<and> b < unat ?t + unat ?k then replicate 512 0 else img (hw (s\<lparr>block_bitmap := ?bm\<rparr>)) b)"
    by (rule zero_run [where m = 0, OF inv od tk refl]) simp
  let ?s' = "with_extent i ?x required (dk_size (node_disk s i)) ?bm w s"
  have r: "simplefs_ensure_extent i required s = (Inr (), ?s')"
    using req(1) bc tail w(1) mark_extent_marked [OF nw, of True s]
    by (simp add: simplefs_ensure_extent_def Let_def bind_r_def with_extent_keep(3) not_le)
  have o: "bit8_used ?bm b \<and> \<not> (unat ?x \<le> b \<and> b < unat ?x + unat required)"
    if "live s j" "j \<noteq> i" "b \<in> node_blocks s j" for j b
    using live_not_free [OF inv that(1,3)] fr live_disjoint [OF inv i that(1) _ that(3)] that(2) t end_eq
    by (fastforce simp: marked_used node_blocks_def)
  have "fs_inv ?s' dev img"
  proof (rule fs_inv_with_extent [OF inv _ _ o])
    show "bit8_used ?bm b" if "unat ?x \<le> b" "b < unat ?x + unat required" for b
      using that live_not_free(1) [OF inv i, of b] t end_eq by (auto simp: marked_used node_blocks_def)
  qed (use xc tk end_eq live_extent(2) [OF inv i] req(1) in \<open>auto simp: word_less_nat_alt\<close>)
  moreover have "raw img ?s' i = raw img s i @ replicate (512 * (unat required - unat ?c)) 0"
  proof -
    have "extent_image (img w) (unat ?x) (unat ?c + unat ?k) = extent_image (img (hw s)) (unat ?x) (unat ?c) @ replicate (512 * unat ?k) 0"
      unfolding extent_image_append using w(2) t
      by (intro arg_cong2 [where f = append] extent_image_cong extent_image_zero) auto
    then show ?thesis using k req(1) by (simp add: raw_def word_less_nat_alt)
  qed
  moreover have "raw img ?s' j = raw img s j" if "live s j" "j \<noteq> i" for j
    using w(2) live_not_free(2) [OF inv that(1) _ fr] that(2) by (intro raw_other) auto
  ultimately show ?thesis using r unfolding grown_def by blast
qed

lemma ensure_extent_move:
  assumes inv: "fs_inv s dev img" and i: "live s i" and bc: "dk_block_count (node_disk s i) \<noteq> 0"
    and req: "dk_block_count (node_disk s i) < required" "unat required \<le> 16777216"
    and tail: "\<not> simplefs_extent_is_free (dk_data_block (node_disk s i) + dk_block_count (node_disk s i))
        (required - dk_block_count (node_disk s i)) s"
    and found: "free_run s (unat a) (unat required)" "simplefs_allocate_extent required s
        = (Inr a, s\<lparr>block_bitmap := marked True (unat a) (unat required) (block_bitmap s)\<rparr>)"
  shows "\<exists>s'. simplefs_ensure_extent i required s = (Inr (), s') \<and> grown s dev img i required s'"
proof -
  let ?x = "dk_data_block (node_disk s i)" and ?c = "dk_block_count (node_disk s i)"
  let ?bm1 = "marked True (unat a) (unat required) (block_bitmap s)"
  let ?bm = "marked False (unat ?x) (unat ?c) ?bm1"
  have cr: "unat ?c < unat required" using req(1) by (simp add: word_less_nat_alt)
  have xc: "unat ?x + unat ?c \<le> unat (total_blocks (mounted_superblock s))"
    "unat (data_block_start (mounted_superblock s)) \<le> unat ?x" using live_extent(4) [OF inv i bc] by auto
  have ar: "unat a + unat required \<le> unat (total_blocks (mounted_superblock s))"
    "unat (data_block_start (mounted_superblock s)) \<le> unat a" using found(1) by (auto simp: free_run_def)
  have nb: "b \<in> node_blocks s i \<longleftrightarrow> unat ?x \<le> b \<and> b < unat ?x + unat ?c" for b by (simp add: node_blocks_def)
  have apart: "\<not> (unat a \<le> b \<and> b < unat a + unat required)" if "unat ?x \<le> b" "b < unat ?x + unat ?c" for b
    using live_not_free(2) [OF inv i _ found(1), of b] that by (simp add: nb)
  have c0: "0 < unat ?c" using bc by (simp add: unat_gt_0)
  have sep: "unat ?x + unat ?c \<le> unat a \<or> unat a + unat ?c \<le> unat ?x"
    using apart [of "unat ?x"] apart [of "unat ?x + unat ?c - 1"] c0 cr by linarith
  have nw: "unat ?x + unat ?c < 4294967296" using xc fs_invD(5) [OF inv] by linarith
  have od: "on_disk (s\<lparr>block_bitmap := ?bm1\<rparr>) dev img" using fs_invD(1) [OF inv] by simp
  have xd: "unat ?x + unat ?c \<le> unat (block_count dev)" and ad: "unat a + unat ?c \<le> unat (block_count dev)"
    using xc ar cr fs_invD(4) [OF inv] by linarith+
  obtain w1 where w1: "copy_extent_loop ?x a [0..<unat ?c] (s\<lparr>block_bitmap := ?bm1\<rparr>) = (Inr (), s\<lparr>block_bitmap := ?bm1, hw := w1\<rparr>)"
    "\<forall>k\<in>set [0..<unat ?c]. img w1 (unat a + k) = img (hw s) (unat ?x + k)"
    "\<forall>b. b \<notin> (+) (unat a) ` set [0..<unat ?c] \<longrightarrow> img w1 b = img (hw s) b"
    using copy_extent_loop_ok [OF od xd ad sep, of "[0..<unat ?c]"] by auto
  have od1: "on_disk (s\<lparr>block_bitmap := ?bm1, hw := w1\<rparr>) dev img" using od by simp
  obtain w where w: "zero_blocks (map (\<lambda>k. a + of_nat k) [unat ?c..<unat required]) (s\<lparr>block_bitmap := ?bm1, hw := w1\<rparr>)
      = (Inr (), s\<lparr>block_bitmap := ?bm1, hw := w\<rparr>)"
    "\<And>b. img w b = (if unat a + unat ?c \<le> b \<and> b < unat a + unat required then replicate 512 0 else img w1 b)"
    by (rule zero_run [where m = "unat ?c", OF inv od1 ar(1) refl]) simp
  let ?s' = "with_extent i a required (dk_size (node_disk s i)) ?bm w s"
  have cp: "simplefs_copy_extent ?x a ?c (s\<lparr>block_bitmap := ?bm1\<rparr>) = (Inr (), s\<lparr>block_bitmap := ?bm1, hw := w1\<rparr>)"
    using w1(1) by (simp add: simplefs_copy_extent_def)
  have mk: "simplefs_mark_extent ?x ?c False (s\<lparr>block_bitmap := ?bm1, hw := w\<rparr>) = s\<lparr>hw := w, block_bitmap := ?bm\<rparr>"
    unfolding mark_extent_marked [OF nw] by simp
  have r: "simplefs_ensure_extent i required s = (Inr (), ?s')"
    using req(1) bc tail
    by (simp add: simplefs_ensure_extent_def Let_def bind_r_simps(2) [where m = "simplefs_allocate_extent required", OF found(2)]
        cp w(1) mk with_extent_keep(2) not_le)
  have o: "bit8_used ?bm b \<and> \<not> (unat a \<le> b \<and> b < unat a + unat required)"
    if "live s j" "j \<noteq> i" "b \<in> node_blocks s j" for j b
    using live_not_free [OF inv that(1,3)] found(1) live_disjoint [OF inv i that(1) _ that(3)] that(2)
    by (auto simp: marked_used nb)
  have "fs_inv ?s' dev img"
    using ar apart live_extent(2) [OF inv i] cr o
    by (intro fs_inv_with_extent [OF inv _ _ o]) (auto simp: marked_used)
  moreover have "raw img ?s' i = raw img s i @ replicate (512 * (unat required - unat ?c)) 0"
  proof -
    have cpd: "img w (unat a + k) = img (hw s) (unat ?x + k)" if "k < unat ?c" for k
      using w1(2) w(2) that by auto
    have "map (img w) [unat a..<unat a + unat ?c] = map (img (hw s)) [unat ?x..<unat ?x + unat ?c]"
      using cpd by (intro nth_equalityI) auto
    moreover have "extent_image (img w) (unat a + unat ?c) (unat required - unat ?c) = replicate (512 * (unat required - unat ?c)) 0"
      using w(2) cr by (intro extent_image_zero) auto
    ultimately show ?thesis
      using extent_image_append [of "img w" "unat a" "unat ?c" "unat required - unat ?c"] cr
      by (simp add: raw_def extent_image_def)
  qed
  moreover have "raw img ?s' j = raw img s j" if "live s j" "j \<noteq> i" for j
  proof (rule raw_other [OF that(2)])
    fix b assume b: "b \<in> node_blocks s j"
    from live_not_free(2) [OF inv that(1) b found(1)] have "\<not> (unat a \<le> b \<and> b < unat a + unat required)" .
    moreover from this have "b \<notin> (+) (unat a) ` set [0..<unat ?c]" using cr by auto
    ultimately show "img w b = img (hw s) b" using w(2) w1(3) by auto
  qed
  ultimately show ?thesis using r unfolding grown_def by blast
qed

lemma ensure_extent_cases:
  assumes inv: "fs_inv s dev img" and i: "live s i"
    and req: "dk_block_count (node_disk s i) < required" "unat required \<le> 16777216"
  obtains (ok) s' where "simplefs_ensure_extent i required s = (Inr (), s')" "grown s dev img i required s'"
    | (full) "simplefs_ensure_extent i required s = (Inl EFAIL, s)" "\<forall>a. \<not> free_run s a (unat required)"
proof -
  let ?c = "dk_block_count (node_disk s i)"
  let ?t = "simplefs_extent_is_free (dk_data_block (node_disk s i) + ?c) (required - ?c) s"
  have r0: "required \<noteq> 0" using req(1) by auto
  consider "?c = 0" | "?c \<noteq> 0" "?t" | "?c \<noteq> 0" "\<not> ?t" by blast
  then show ?thesis
  proof cases
    case 1
    then show ?thesis using ensure_extent_new [OF inv i 1 r0 req(2)] ok full by blast
  next
    case 2
    then show ?thesis using ensure_extent_tail [OF inv i 2(1) req 2(2)] ok by blast
  next
    case 3
    from fs_invD(6,5) [OF inv] r0 req(2) show ?thesis
    proof (cases rule: allocate_extent_cases)
      case (found a)
      then show ?thesis using ensure_extent_move [OF inv i 3(1) req 3(2) found] ok by blast
    next
      case nospace: full
      have "simplefs_ensure_extent i required s = (Inl EFAIL, s)"
        using req(1) 3 by (simp add: simplefs_ensure_extent_def Let_def bind_r_simps(1) [where m = "simplefs_allocate_extent required", OF nospace(2)] not_le)
      with nospace(1) show ?thesis by (intro full) auto
    qed
  qed
qed

section \<open>Writing the metadata\<close>

lemma required_blocks_div:
  assumes "unat v \<le> 4294966784"
  shows "unat (sfs_align_up v 512 div 512) = (unat v + 511) div 512"
proof -
  have "unat (sfs_align_up v 512) = (unat v + 511) div 512 * 512"
    using unat_align_up [of 512 9 v] assms by (simp add: sfs_align_up_def)
  then show ?thesis by (simp add: unat_div)
qed

lemma superblock_dims:
  assumes "mount_inv s dev img"
  defines "sb \<equiv> mounted_superblock s"
  shows "unat (inode_count sb) \<le> 64" "inode_table_blocks sb \<noteq> 0" "unat (inode_table_blocks sb) \<le> 4"
    "inode_bitmap_blocks sb = 1" "block_bitmap_blocks sb \<noteq> 0" "unat (block_bitmap_blocks sb) \<le> 8"
    "32 * unat (inode_count sb) \<le> 512 * unat (inode_table_blocks sb)"
    "unat (total_blocks sb) \<le> 8 * (512 * unat (block_bitmap_blocks sb))"
proof -
  have ok: "superblock_ok dev sb" using assms by (simp add: mount_inv_def)
  have ic: "unat (inode_count sb) \<le> 64" "0 < unat (inode_count sb)"
    using ok by (auto simp: superblock_ok_def word_less_nat_alt unat_gt_0)
  have tb: "unat (total_blocks sb) \<le> 32768" "0 < unat (total_blocks sb)"
    using ok by (auto simp: superblock_ok_def word_less_nat_alt unat_gt_0)
  have "unat (inode_count sb * 32) = 32 * unat (inode_count sb)" using ic by (simp add: unat_word_ariths)
  then have it: "unat (inode_table_blocks sb) = (32 * unat (inode_count sb) + 511) div 512"
    using ok ic required_blocks_div [of "inode_count sb * 32"] by (auto simp: superblock_ok_def)
  have "unat (sfs_align_up (total_blocks sb) 8) = (unat (total_blocks sb) + 7) div 8 * 8"
    using unat_align_up [of 8 3 "total_blocks sb"] tb by (simp add: sfs_align_up_def)
  then have "unat (sfs_align_up (total_blocks sb) 8 div 8) = (unat (total_blocks sb) + 7) div 8"
    by (simp add: unat_div)
  then have bb: "unat (block_bitmap_blocks sb) = ((unat (total_blocks sb) + 7) div 8 + 511) div 512"
    using ok tb required_blocks_div [of "sfs_align_up (total_blocks sb) 8 div 8"] by (auto simp: superblock_ok_def)
  show "unat (inode_count sb) \<le> 64" by (rule ic)
  show "inode_table_blocks sb \<noteq> 0" using it ic by (intro notI) simp
  show "unat (inode_table_blocks sb) \<le> 4" unfolding it using ic by linarith
  show "inode_bitmap_blocks sb = 1" using ok by (simp add: superblock_ok_def)
  show "block_bitmap_blocks sb \<noteq> 0" using bb tb by (intro notI) simp
  show "unat (block_bitmap_blocks sb) \<le> 8" unfolding bb using tb by linarith
  show "32 * unat (inode_count sb) \<le> 512 * unat (inode_table_blocks sb)" unfolding it by linarith
  show "unat (total_blocks sb) \<le> 8 * (512 * unat (block_bitmap_blocks sb))" unfolding bb by linarith
qed

lemma extent_image_write:
  assumes "512 * n \<le> length bytes"
  shows "extent_image (write_blocks_img a n bytes m) a n = take (512 * n) bytes"
  using assms
proof (induction n arbitrary: a bytes)
  case (Suc n)
  have m1: "write_blocks_img a (Suc n) bytes m b = write_blocks_img (Suc a) n (drop 512 bytes) m b" if "a < b" for b
    using that by (auto simp: write_blocks_img_def algebra_simps)
  have "extent_image (write_blocks_img a (Suc n) bytes m) (Suc a) n = take (512 * n) (drop 512 bytes)"
    using Suc.IH [of "drop 512 bytes" "Suc a"] Suc.prems m1
    by (subst extent_image_cong [where m' = "write_blocks_img (Suc a) n (drop 512 bytes) m"]) auto
  moreover have "extent_image (write_blocks_img a (Suc n) bytes m) a 1 = take 512 bytes"
    by (simp add: extent_image_def write_blocks_img_def)
  ultimately show ?case using extent_image_append [of "write_blocks_img a (Suc n) bytes m" a 1 n]
    by (simp add: take_add)
qed (simp add: extent_image_def)

lemma extent_image_other:
  "b + k \<le> a \<or> a + n \<le> b \<Longrightarrow> extent_image (write_blocks_img a n bytes m) b k = extent_image m b k"
  by (rule extent_image_cong) (auto simp: write_blocks_img_def)

definition saved_table :: "'w simplefs \<Rightarrow> nat \<Rightarrow> simplefs_inode_disk" where
  "saved_table s i = (if i < unat (mounted_inode_count s) then node_disk s i else inode_table_image s i)"

text \<open>The metadata of \<open>s\<close> as the metadata blocks of a disk image.\<close>

definition meta_image :: "'w simplefs \<Rightarrow> (nat \<Rightarrow> u8 list) \<Rightarrow> bool" where
  "meta_image s m \<longleftrightarrow> (let sb = mounted_superblock s in
     m 0 = put_bytes 0 (encode_superblock sb) (replicate 512 0)
     \<and> extent_image m (unat (inode_table_start sb)) (unat (inode_table_blocks sb)) =
         take (512 * unat (inode_table_blocks sb)) (concat (map (\<lambda>i. encode_inode (saved_table s i)) [0..<64]))
     \<and> extent_image m (unat (inode_bitmap_start sb)) 1 = map (inode_bitmap s) [0..<512]
     \<and> extent_image m (unat (block_bitmap_start sb)) (unat (block_bitmap_blocks sb)) =
         take (512 * unat (block_bitmap_blocks sb)) (map (block_bitmap s) [0..<4096]))"

lemma length_encode_inode [simp]: "length (encode_inode d) = 32"
  by (simp add: encode_inode_def)

lemma length_encode_superblock [simp]: "length (encode_superblock d) = 56"
  by (simp add: encode_superblock_def)

lemma saved_table_hw [simp]: "saved_table (s\<lparr>hw := w\<rparr>) = saved_table s"
  by (simp add: saved_table_def fun_eq_iff)

lemma flush_inode_table_saved:
  "simplefs_flush_inode_table s =
     simplefs_write_blocks (inode_table_start (mounted_superblock s)) (inode_table_blocks (mounted_superblock s))
       (concat (map (\<lambda>i. encode_inode (saved_table s i)) [0..<64])) (s\<lparr>inode_table_image := saved_table s\<rparr>)"
  by (simp add: simplefs_flush_inode_table_def Let_def saved_table_def [abs_def])

lemma flush_metadata_ok:
  assumes inv: "mount_inv s dev img"
  obtains w where "simplefs_flush_metadata s = (Inr (), s\<lparr>inode_table_image := saved_table s, hw := w\<rparr>)"
    "meta_image s (img w)"
    "\<And>b. unat (data_block_start (mounted_superblock s)) \<le> b \<Longrightarrow> img w b = img (hw s) b"
proof -
  let ?sb = "mounted_superblock s"
  let ?tab = "concat (map (\<lambda>i. encode_inode (saved_table s i)) [0..<64])"
  note dims = superblock_dims [OF inv]
  have lay: "layout_ok ?sb" using inv by (rule mount_invD)
  have fits: "unat (data_block_start ?sb) \<le> unat (block_count dev)" using mount_invD(3,5) [OF inv] by linarith
  have one: "unat (1 :: u32) = 1" by simp
  have len: "length ?tab = 2048" using length_concat_const [of "[0..<64]" "\<lambda>i. encode_inode (saved_table s i)" 32] by simp
  have od: "on_disk s dev img" using inv by (rule mount_invD)
  obtain w0 where w0: "simplefs_write_blocks 0 1 (put_bytes 0 (encode_superblock ?sb) (replicate 512 0)) s = (Inr (), s\<lparr>hw := w0\<rparr>)"
      "img w0 = (img (hw s))(unat (0 :: u32) := put_bytes 0 (encode_superblock ?sb) (replicate 512 0))"
    by (rule write_block_ok [OF od, of 0 "put_bytes 0 (encode_superblock ?sb) (replicate 512 0)"])
      (use lay fits in \<open>auto simp: layout_ok_def\<close>)
  let ?s1 = "s\<lparr>hw := w0, inode_table_image := saved_table s\<rparr>"
  have od1: "on_disk ?s1 dev img" using od by (simp add: on_disk_def)
  have "unat (inode_table_start ?sb) + unat (inode_table_blocks ?sb) \<le> unat (block_count dev)"
    using lay fits by (simp add: layout_ok_def)
  moreover have "512 * unat (inode_table_blocks ?sb) \<le> length ?tab" using dims(3) len by linarith
  ultimately obtain w1 where
    w1: "simplefs_write_blocks (inode_table_start ?sb) (inode_table_blocks ?sb) ?tab ?s1 = (Inr (), ?s1\<lparr>hw := w1\<rparr>)"
      "img w1 = write_blocks_img (unat (inode_table_start ?sb)) (unat (inode_table_blocks ?sb)) ?tab (img (hw ?s1))"
    by (rule write_blocks_ok [OF od1 dims(2)])
  have od2: "on_disk (?s1\<lparr>hw := w1\<rparr>) dev img" using od1 by (simp add: on_disk_def)
  have "inode_bitmap_blocks ?sb \<noteq> 0" "unat (inode_bitmap_start ?sb) + unat (inode_bitmap_blocks ?sb) \<le> unat (block_count dev)"
    using lay fits dims(4) by (simp_all add: layout_ok_def)
  moreover have "512 * unat (inode_bitmap_blocks ?sb) \<le> length (map (inode_bitmap s) [0..<512])"
    unfolding dims(4) length_map length_upt by simp
  ultimately obtain w2 where
    w2: "simplefs_write_blocks (inode_bitmap_start ?sb) (inode_bitmap_blocks ?sb) (map (inode_bitmap s) [0..<512]) (?s1\<lparr>hw := w1\<rparr>)
        = (Inr (), ?s1\<lparr>hw := w1, hw := w2\<rparr>)"
      "img w2 = write_blocks_img (unat (inode_bitmap_start ?sb)) (unat (inode_bitmap_blocks ?sb)) (map (inode_bitmap s) [0..<512]) (img (hw (?s1\<lparr>hw := w1\<rparr>)))"
    by (rule write_blocks_ok [OF od2])
  have od3: "on_disk (?s1\<lparr>hw := w2\<rparr>) dev img" using od1 by (simp add: on_disk_def)
  have "unat (block_bitmap_start ?sb) + unat (block_bitmap_blocks ?sb) \<le> unat (block_count dev)"
    using lay fits by (simp add: layout_ok_def)
  moreover have "512 * unat (block_bitmap_blocks ?sb) \<le> length (map (block_bitmap s) [0..<4096])"
    unfolding length_map length_upt using dims(6) by linarith
  ultimately obtain w3 where
    w3: "simplefs_write_blocks (block_bitmap_start ?sb) (block_bitmap_blocks ?sb) (map (block_bitmap s) [0..<4096]) (?s1\<lparr>hw := w2\<rparr>)
        = (Inr (), ?s1\<lparr>hw := w2, hw := w3\<rparr>)"
      "img w3 = write_blocks_img (unat (block_bitmap_start ?sb)) (unat (block_bitmap_blocks ?sb)) (map (block_bitmap s) [0..<4096]) (img (hw (?s1\<lparr>hw := w2\<rparr>)))"
    by (rule write_blocks_ok [OF od3 dims(5)])
  have run: "simplefs_flush_metadata s = (Inr (), s\<lparr>inode_table_image := saved_table s, hw := w3\<rparr>)"
    using mount_invD(6) [OF inv] w0(1) w1(1) w2(1) w3(1)
    by (simp add: simplefs_flush_metadata_def bind_r_def simplefs_flush_superblock_def flush_inode_table_saved
        simplefs_flush_inode_bitmap_def simplefs_flush_block_bitmap_def Let_def)
  let ?bbm = "map (block_bitmap s) [0..<4096]" and ?ibm = "map (inode_bitmap s) [0..<512]"
  define T IB BB where "T = ?tab" and "IB = ?ibm" and "BB = ?bbm"
  have m: "img w3 = write_blocks_img (unat (block_bitmap_start ?sb)) (unat (block_bitmap_blocks ?sb)) BB (img w2)"
    "img w2 = write_blocks_img (unat (inode_bitmap_start ?sb)) 1 IB (img w1)"
    "img w1 = write_blocks_img (unat (inode_table_start ?sb)) (unat (inode_table_blocks ?sb)) T (img w0)"
    using w3(2) w2(2) w1(2) dims(4) unfolding T_def [symmetric] IB_def [symmetric] BB_def [symmetric] by simp_all
  have l: "length T = 2048" "length IB = 512" "length BB = 4096"
    using len by (simp_all only: T_def IB_def BB_def length_map length_upt)
  have "img w3 0 = put_bytes 0 (encode_superblock ?sb) (replicate 512 0)"
    using lay by (simp add: m w0(2) write_blocks_img_def layout_ok_def)
  moreover have "extent_image (img w3) (unat (inode_table_start ?sb)) (unat (inode_table_blocks ?sb)) = take (512 * unat (inode_table_blocks ?sb)) T"
    using lay dims(3,4) l unfolding m layout_ok_def by (simp add: extent_image_other extent_image_write)
  moreover have "extent_image (img w3) (unat (inode_bitmap_start ?sb)) 1 = IB"
    using lay dims(4) l extent_image_write [of 1 IB] unfolding m layout_ok_def by (simp add: extent_image_other)
  moreover have "extent_image (img w3) (unat (block_bitmap_start ?sb)) (unat (block_bitmap_blocks ?sb)) = take (512 * unat (block_bitmap_blocks ?sb)) BB"
    using dims(6) l unfolding m by (simp add: extent_image_write)
  ultimately have "meta_image s (img w3)" unfolding meta_image_def Let_def T_def IB_def BB_def by blast
  moreover have "img w3 b = img (hw s) b" if "unat (data_block_start ?sb) \<le> b" for b
    using that lay dims(4) by (simp add: m w0(2) write_blocks_img_def layout_ok_def)
  ultimately show ?thesis using run that by blast
qed

end
