(* ===== verification/Simplefs_File.thy ===== *)
theory Simplefs_File
  imports Simplefs_Inv
begin

text \<open>
  Regular files of \<^verbatim>\<open>simplefs.c\<close>: changing the size, reading and writing, as operations on the
  contents of a file, with the storage invariant and the contents of the other files.
\<close>

section \<open>Frames\<close>

lemma fs_inv_frame:
  assumes "mounted_device s' = mounted_device s" "mounted_superblock s' = mounted_superblock s"
    "mounted_inode_count s' = mounted_inode_count s" "inode_bitmap s' = inode_bitmap s"
    "block_bitmap s' = block_bitmap s" "\<And>j. node_disk s' j = node_disk s j"
  shows "fs_inv s' dev img = fs_inv s dev img" "live s' = live s"
proof -
  show lv: "live s' = live s" by (rule ext) (simp add: live_def simplefs_inode_used_def assms)
  have nb: "node_blocks s' = node_blocks s" by (rule ext) (simp add: node_blocks_def assms)
  show "fs_inv s' dev img = fs_inv s dev img"
    by (simp only: fs_inv_def mount_inv_def on_disk_def extents_ok_def lv nb assms)
qed

lemma fs_inv_hw [simp]:
  "fs_inv (s\<lparr>hw := w\<rparr>) dev img = fs_inv s dev img" "live (s\<lparr>hw := w\<rparr>) = live s"
  "fs_inv (s\<lparr>inode_table_image := t\<rparr>) dev img = fs_inv s dev img" "live (s\<lparr>inode_table_image := t\<rparr>) = live s"
  by (simp_all add: fs_inv_frame [of "s\<lparr>hw := w\<rparr>" s] fs_inv_frame [of "s\<lparr>inode_table_image := t\<rparr>" s])

text \<open>The other files: their inodes and the bytes of their extents do not change.\<close>

definition others_kept :: "('w \<Rightarrow> nat \<Rightarrow> u8 list) \<Rightarrow> nat \<Rightarrow> 'w simplefs \<Rightarrow> 'w simplefs \<Rightarrow> bool" where
  "others_kept img i s s' \<longleftrightarrow> live s' = live s \<and>
     (\<forall>j. live s j \<longrightarrow> j \<noteq> i \<longrightarrow> node_disk s' j = node_disk s j \<and> raw img s' j = raw img s j)"

lemma others_kept_refl [simp]: "others_kept img i s s"
  by (simp add: others_kept_def)

lemma others_kept_trans: "others_kept img i s t \<Longrightarrow> others_kept img i t u \<Longrightarrow> others_kept img i s u"
  by (simp add: others_kept_def)

lemma others_kept_contents:
  "others_kept img i s s' \<Longrightarrow> live s j \<Longrightarrow> j \<noteq> i \<Longrightarrow> contents img s' j = contents img s j"
  by (simp add: others_kept_def contents_def)

lemma extent_updated_kept:
  assumes inv: "fs_inv s dev img" and i: "live s i"
    and u: "extent_updated img (unat (dk_data_block (node_disk s i))) (unat (dk_block_count (node_disk s i))) off bs s s'"
  shows "\<exists>w. s' = s\<lparr>hw := w\<rparr>" "fs_inv s' dev img" "others_kept img i s s'" "raw img s' i = put_bytes off bs (raw img s i)"
    "node_disk s' = node_disk s"
proof -
  from u obtain w where s': "s' = s\<lparr>hw := w\<rparr>" and u':
    "extent_image (img w) (unat (dk_data_block (node_disk s i))) (unat (dk_block_count (node_disk s i))) =
      put_bytes off bs (extent_image (img (hw s)) (unat (dk_data_block (node_disk s i))) (unat (dk_block_count (node_disk s i))))"
    "\<forall>b. b < unat (dk_data_block (node_disk s i)) \<or>
      unat (dk_data_block (node_disk s i)) + unat (dk_block_count (node_disk s i)) \<le> b \<longrightarrow> img w b = img (hw s) b"
    unfolding extent_updated_def by blast
  have "\<forall>b. b \<notin> node_blocks s i \<longrightarrow> img w b = img (hw s) b" using u'(2) by (auto simp: node_blocks_def not_le not_less)
  with s' u'(1) have w: "s' = s\<lparr>hw := w\<rparr>" "raw img s' i = put_bytes off bs (raw img s i)"
    "\<forall>b. b \<notin> node_blocks s i \<longrightarrow> img w b = img (hw s) b" by (simp_all add: raw_def)
  show "\<exists>w. s' = s\<lparr>hw := w\<rparr>" "fs_inv s' dev img" "raw img s' i = put_bytes off bs (raw img s i)" "node_disk s' = node_disk s"
    using w inv by auto
  have "raw img s' j = raw img s j" if j: "live s j" "j \<noteq> i" for j
    unfolding raw_def w(1)
  proof (simp, rule extent_image_cong)
    fix b assume "unat (dk_data_block (node_disk s j)) \<le> b"
      "b < unat (dk_data_block (node_disk s j)) + unat (dk_block_count (node_disk s j))"
    then have "b \<in> node_blocks s j" by (simp add: node_blocks_def)
    from live_disjoint [OF inv i j(1) _ this] j(2) w(3) show "img w b = img (hw s) b" by simp
  qed
  then show "others_kept img i s s'" using w(1) by (simp add: others_kept_def)
qed

lemma zero_range_ok:
  assumes inv: "fs_inv s dev img" and i: "live s i" and bc: "dk_block_count (node_disk s i) \<noteq> 0"
    and r: "unat off + unat len \<le> 512 * unat (dk_block_count (node_disk s i))"
  obtains s' where "simplefs_zero_range i off len s = (Inr (), s')" "fs_inv s' dev img" "others_kept img i s s'"
    "raw img s' i = put_bytes (unat off) (replicate (unat len) 0) (raw img s i)" "\<exists>w. s' = s\<lparr>hw := w\<rparr>"
proof -
  have "unat (dk_data_block (node_disk s i)) + unat (dk_block_count (node_disk s i)) \<le> unat (block_count dev)"
    using live_extent(1) [OF inv i] bc by simp
  from zero_range_loop_ok [OF fs_invD(1) [OF inv] this r] obtain s' where
    "zero_range_loop (dk_data_block (node_disk s i)) (unat off) (unat len) s = (Inr (), s')"
    "extent_updated img (unat (dk_data_block (node_disk s i))) (unat (dk_block_count (node_disk s i))) (unat off) (replicate (unat len) 0) s s'"
    by blast
  then show ?thesis using extent_updated_kept [OF inv i] that by (metis simplefs_zero_range_def)
qed

section \<open>Changing the size\<close>

definition set_size :: "nat \<Rightarrow> u32 \<Rightarrow> 'w simplefs \<Rightarrow> 'w simplefs" where
  "set_size i n s = upd_vfs i (\<lambda>v. v\<lparr>isize := n\<rparr>) (upd_disk i (\<lambda>d. d\<lparr>dk_size := n\<rparr>) s)"

lemma set_size_sel [simp]:
  "mounted_device (set_size i n s) = mounted_device s" "mounted_superblock (set_size i n s) = mounted_superblock s"
  "mounted_inode_count (set_size i n s) = mounted_inode_count s" "inode_bitmap (set_size i n s) = inode_bitmap s"
  "block_bitmap (set_size i n s) = block_bitmap s" "hw (set_size i n s) = hw s"
  "node_disk (set_size i n s) j = (if j = i then (node_disk s i)\<lparr>dk_size := n\<rparr> else node_disk s j)"
  "node_vfs (set_size i n s) j = (if j = i then (node_vfs s i)\<lparr>isize := n\<rparr> else node_vfs s j)"
  by (simp_all add: set_size_def upd_node_def)

lemma fs_inv_set_size:
  assumes "fs_inv s dev img" "unat n \<le> 512 * unat (dk_block_count (node_disk s i))"
  shows "fs_inv (set_size i n s) dev img" "live (set_size i n s) = live s"
proof -
  have nb: "node_blocks (set_size i n s) j = node_blocks s j" for j by (simp add: node_blocks_def)
  show lv: "live (set_size i n s) = live s" by (simp add: live_def simplefs_inode_used_def fun_eq_iff)
  show "fs_inv (set_size i n s) dev img"
    using assms by (simp add: fs_inv_def mount_inv_def on_disk_def extents_ok_def lv nb)
qed

lemma finish_resize:
  assumes inv: "fs_inv s dev img" and i: "live s i" and n: "unat n \<le> 512 * unat (dk_block_count (node_disk s i))"
  obtains s' where "simplefs_flush_metadata (set_size i n s) = (Inr (), s')" "fs_inv s' dev img"
    "others_kept img i s s'" "raw img s' i = raw img s i" "node_disk s' i = (node_disk s i)\<lparr>dk_size := n\<rparr>"
    "isize (node_vfs s' i) = n" "meta_image s' (img (hw s'))"
proof -
  note t = fs_inv_set_size [OF inv n]
  obtain w where w: "simplefs_flush_metadata (set_size i n s) =
      (Inr (), (set_size i n s)\<lparr>inode_table_image := saved_table (set_size i n s), hw := w\<rparr>)"
    "meta_image (set_size i n s) (img w)"
    "\<And>b. unat (data_block_start (mounted_superblock (set_size i n s))) \<le> b \<Longrightarrow> img w b = img (hw (set_size i n s)) b"
    by (rule flush_metadata_ok [OF fs_invD(2) [OF t(1)]]) blast
  let ?s = "(set_size i n s)\<lparr>inode_table_image := saved_table (set_size i n s), hw := w\<rparr>"
  have f: "fs_inv ?s dev img" "live ?s = live s"
    using t by simp_all
  have r: "raw img ?s j = raw img s j" if "live s j" for j
  proof -
    have "dk_block_count (node_disk s j) = 0 \<or> unat (data_block_start (mounted_superblock s)) \<le> unat (dk_data_block (node_disk s j))"
      using live_extent(4) [OF inv that] by auto
    then show ?thesis using w(3) by (auto simp: raw_def intro!: extent_image_cong)
  qed
  have st: "saved_table ?s = saved_table (set_size i n s)" by (auto simp: saved_table_def fun_eq_iff)
  have "meta_image ?s (img (hw ?s))" using w(2) unfolding meta_image_def st by simp
  then show ?thesis using f r i by (intro that [OF w(1)]) (simp_all add: others_kept_def)
qed


lemma unat_required_blocks:
  "unat n \<le> 4294966784 \<Longrightarrow> unat (simplefs_required_blocks n) = (unat n + 511) div 512"
  by (cases "n = 0") (simp_all add: simplefs_required_blocks_def required_blocks_div)

lemma resize_node_unfold:
  fixes n :: u32
  assumes "simplefs_writable s" "dk_kind (node_disk s i) = SIMPLEFS_INODE_FILE"
  defines "d \<equiv> node_disk s i" and "req \<equiv> simplefs_required_blocks n"
  shows "simplefs_resize_node i n s =
     (if req > dk_block_count d then
        bind_r (simplefs_ensure_extent i req) (\<lambda>_ s1.
          if n > dk_size d
          then bind_r (simplefs_zero_range i (dk_size d) (n - dk_size d)) (\<lambda>_ s. simplefs_flush_metadata (set_size i n s)) s1
          else simplefs_flush_metadata (set_size i n s1)) s
      else if req < dk_block_count d then
        if req = 0 then simplefs_flush_metadata (set_size i n (simplefs_release_extent i s))
        else
          let s1 = upd_disk i (\<lambda>d. d\<lparr>dk_block_count := req\<rparr>)
                     (simplefs_mark_extent (dk_data_block d + req) (dk_block_count d - req) False s) in
          if n mod 512 \<noteq> 0
          then bind_r (simplefs_zero_range i n (512 - n mod 512)) (\<lambda>_ s. simplefs_flush_metadata (set_size i n s)) s1
          else simplefs_flush_metadata (set_size i n s1)
      else simplefs_flush_metadata (set_size i n s))"
  unfolding simplefs_resize_node_def Let_def set_size_def d_def req_def using assms(1,2) by simp

text \<open>
  The contents after a change of size. New blocks are zero. Where the number of blocks does not grow, the
  bytes after the old end of the file are whatever the last block holds.
\<close>

definition resized :: "('w \<Rightarrow> nat \<Rightarrow> u8 list) \<Rightarrow> nat \<Rightarrow> u32 \<Rightarrow> 'w simplefs \<Rightarrow> u8 list" where
  "resized img i n s = take (unat n)
     (if dk_block_count (node_disk s i) < simplefs_required_blocks n then contents img s i @ replicate (unat n) 0
      else raw img s i)"

definition resize_done ::
  "'w block_device \<Rightarrow> ('w \<Rightarrow> nat \<Rightarrow> u8 list) \<Rightarrow> nat \<Rightarrow> u32 \<Rightarrow> 'w simplefs \<Rightarrow> 'w simplefs \<Rightarrow> bool" where
  "resize_done dev img i n s s' \<longleftrightarrow> fs_inv s' dev img \<and> others_kept img i s s'
     \<and> dk_size (node_disk s' i) = n \<and> isize (node_vfs s' i) = n \<and> dk_kind (node_disk s' i) = dk_kind (node_disk s i)
     \<and> meta_image s' (img (hw s')) \<and> contents img s' i = resized img i n s"

lemma resize_finish:
  assumes inv: "fs_inv t dev img" and i: "live t i" and kept: "others_kept img i s t"
    and knd: "dk_kind (node_disk t i) = dk_kind (node_disk s i)"
    and n: "unat n \<le> 512 * unat (dk_block_count (node_disk t i))"
    and c: "take (unat n) (raw img t i) = resized img i n s"
  shows "\<exists>s'. simplefs_flush_metadata (set_size i n t) = (Inr (), s') \<and> resize_done dev img i n s s'"
proof -
  obtain s' where s': "simplefs_flush_metadata (set_size i n t) = (Inr (), s')" "fs_inv s' dev img"
    "others_kept img i t s'" "raw img s' i = raw img t i" "node_disk s' i = (node_disk t i)\<lparr>dk_size := n\<rparr>"
    "isize (node_vfs s' i) = n" "meta_image s' (img (hw s'))"
    by (rule finish_resize [OF inv i n]) blast
  then have "resize_done dev img i n s s'"
    using others_kept_trans [OF kept s'(3)] knd c by (simp add: resize_done_def contents_def)
  then show ?thesis using s'(1) by blast
qed

lemma live_with_extent [simp]: "live (with_extent i x y z bm w s) = live s"
  by (rule ext) (simp add: live_def simplefs_inode_used_def)

lemma resize_grow:
  assumes inv: "fs_inv s dev img" and i: "live s i" and knd: "dk_kind (node_disk s i) = SIMPLEFS_INODE_FILE"
    and n: "unat n \<le> 4294966784" and grow: "dk_block_count (node_disk s i) < simplefs_required_blocks n"
  shows "(\<exists>s'. simplefs_resize_node i n s = (Inr (), s') \<and> resize_done dev img i n s s') \<or>
    (simplefs_resize_node i n s = (Inl EFAIL, s) \<and> (\<forall>a. \<not> free_run s a (unat (simplefs_required_blocks n))))"
proof -
  let ?req = "simplefs_required_blocks n" and ?d = "node_disk s i"
  have req: "unat ?req = (unat n + 511) div 512" using n by (rule unat_required_blocks)
  have req': "unat ?req \<le> 16777216" unfolding req using n by linarith
  have sz: "unat (dk_size ?d) \<le> 512 * unat (dk_block_count ?d)" using inv i by (rule live_extent)
  have gr: "unat (dk_block_count ?d) < unat ?req" using grow by (simp add: word_less_nat_alt)
  have lt: "unat (dk_size ?d) < unat n" using sz gr unfolding req by linarith
  have le: "unat n \<le> 512 * unat ?req" unfolding req by linarith
  note unf = resize_node_unfold [OF fs_invD(7) [OF inv] knd, of n]
  from inv i grow req' show ?thesis
  proof (cases rule: ensure_extent_cases)
    case (ok s1)
    then obtain x bm w where s1: "s1 = with_extent i x ?req (dk_size ?d) bm w s" "fs_inv s1 dev img"
      "raw img s1 i = raw img s i @ replicate (512 * (unat ?req - unat (dk_block_count ?d))) 0"
      "\<forall>j. live s j \<longrightarrow> j \<noteq> i \<longrightarrow> raw img s1 j = raw img s j"
      unfolding grown_def by blast
    have l1: "live s1 = live s" "others_kept img i s s1" using s1 by (simp_all add: others_kept_def)
    have d1: "dk_block_count (node_disk s1 i) = ?req" "dk_kind (node_disk s1 i) = dk_kind ?d" by (simp_all add: s1(1))
    have nsz: "unat (n - dk_size ?d) = unat n - unat (dk_size ?d)"
      using lt by (simp add: unat_sub_if' word_le_nat_alt)
    obtain s2 where s2: "simplefs_zero_range i (dk_size ?d) (n - dk_size ?d) s1 = (Inr (), s2)" "fs_inv s2 dev img"
      "others_kept img i s1 s2"
      "raw img s2 i = put_bytes (unat (dk_size ?d)) (replicate (unat (n - dk_size ?d)) 0) (raw img s1 i)" "\<exists>w. s2 = s1\<lparr>hw := w\<rparr>"
      by (rule zero_range_ok [OF s1(2), of i "dk_size ?d" "n - dk_size ?d"]) (use l1 i d1 le nsz lt gr in \<open>auto simp: word_less_nat_alt\<close>)
    have "take (unat n) (raw img s2 i) = resized img i n s"
      using lt nsz sz le gr live_extent(5) [OF inv i] grow
      by (simp add: resized_def s2(4) s1(3) contents_def put_bytes_def)
    moreover have "others_kept img i s s2" by (rule others_kept_trans [OF l1(2) s2(3)])
    moreover have "node_disk s2 i = node_disk s1 i" "live s2 = live s" using s2(5) l1 by auto
    ultimately have "\<exists>s'. simplefs_flush_metadata (set_size i n s2) = (Inr (), s') \<and> resize_done dev img i n s s'"
      using i d1 le by (intro resize_finish [OF s2(2)]) simp_all
    moreover have "simplefs_resize_node i n s = simplefs_flush_metadata (set_size i n s2)"
      unfolding unf using grow lt
      by (simp add: word_less_nat_alt bind_r_simps(2) [where m = "simplefs_ensure_extent i ?req", OF ok(1)]
          bind_r_simps(2) [where m = "simplefs_zero_range i (dk_size ?d) (n - dk_size ?d)", OF s2(1)])
    ultimately show ?thesis by simp
  next
    case full
    then show ?thesis unfolding unf using grow by (simp add: bind_r_simps(1))
  qed
qed


lemma raw_with_extent [simp]: "raw img (with_extent i x y z bm w s) i = extent_image (img w) (unat x) (unat y)"
  by (simp add: raw_def)

lemma set_size_with_extent:
  "set_size i n ((upd_disk i (\<lambda>d. d\<lparr>dk_block_count := y\<rparr>) (s\<lparr>block_bitmap := bm\<rparr>))\<lparr>hw := w\<rparr>)
     = set_size i n (with_extent i (dk_data_block (node_disk s i)) y n bm w s)"
  "set_size i n (upd_disk i (\<lambda>d. d\<lparr>dk_data_block := x, dk_block_count := y\<rparr>) (s\<lparr>block_bitmap := bm\<rparr>))
     = set_size i n (with_extent i x y n bm (hw s) s)"
  by (cases "runtime_inodes s i"; cases "node_disk s i"; simp add: set_size_def with_extent_def upd_node_def)+

text \<open>Giving blocks back: the blocks after the first \<open>req\<close> become free, the others stay.\<close>

lemma shrink_inv:
  assumes inv: "fs_inv s dev img" and i: "live s i" and c: "dk_block_count (node_disk s i) \<noteq> 0"
    and req: "unat req \<le> unat (dk_block_count (node_disk s i))" "unat n \<le> 512 * unat req"
    and x: "req \<noteq> 0 \<Longrightarrow> x = dk_data_block (node_disk s i)"
    and w: "\<And>b. b \<notin> node_blocks s i \<Longrightarrow> img w b = img (hw s) b"
  defines "bm \<equiv> marked False (unat (dk_data_block (node_disk s i)) + unat req)
      (unat (dk_block_count (node_disk s i)) - unat req) (block_bitmap s)"
  shows "fs_inv (with_extent i x req n bm w s) dev img" "others_kept img i s (with_extent i x req n bm w s)"
proof -
  let ?d = "node_disk s i"
  have nb: "b \<in> node_blocks s i \<longleftrightarrow> unat (dk_data_block ?d) \<le> b \<and> b < unat (dk_data_block ?d) + unat (dk_block_count ?d)" for b
    by (simp add: node_blocks_def)
  have o: "bit8_used bm b \<and> \<not> (unat x \<le> b \<and> b < unat x + unat req)"
    if "live s j" "j \<noteq> i" "b \<in> node_blocks s j" for j b
    using live_not_free(1) [OF inv that(1,3)] live_disjoint [OF inv i that(1) _ that(3)] that(2) req x
    by (cases "req = 0") (auto simp: bm_def marked_used nb)
  show "fs_inv (with_extent i x req n bm w s) dev img"
  proof (rule fs_inv_with_extent [OF inv _ _ o req(2)])
    show "bit8_used bm b" if "unat x \<le> b" "b < unat x + unat req" for b
      using that live_not_free(1) [OF inv i, of b] req x by (cases "req = 0") (auto simp: bm_def marked_used nb)
  qed (use live_extent(4) [OF inv i c] req x in auto)
  show "others_kept img i s (with_extent i x req n bm w s)"
    using raw_other [where i = i and s = s and img = img and w = w] w live_disjoint [OF inv i]
    unfolding others_kept_def by (auto simp: node_blocks_def [symmetric])
qed

lemma round_block: "0 < k mod 512 \<Longrightarrow> k + (512 - k mod 512) \<le> 512 * ((k + 511) div 512)" for k :: nat
proof -
  assume k: "0 < k mod 512"
  have "k = 512 * (k div 512) + k mod 512" "k mod 512 < 512" by simp_all
  moreover from this k have "k div 512 < (k + 511) div 512" by linarith
  ultimately show ?thesis by linarith
qed

lemma resize_shrink:
  assumes inv: "fs_inv s dev img" and i: "live s i" and knd: "dk_kind (node_disk s i) = SIMPLEFS_INODE_FILE"
    and n: "unat n \<le> 4294966784" and shrink: "simplefs_required_blocks n < dk_block_count (node_disk s i)"
  shows "\<exists>s'. simplefs_resize_node i n s = (Inr (), s') \<and> resize_done dev img i n s s'"
proof -
  let ?req = "simplefs_required_blocks n" and ?d = "node_disk s i"
  let ?x = "dk_data_block ?d" and ?c = "dk_block_count ?d"
  let ?bm = "marked False (unat ?x + unat ?req) (unat ?c - unat ?req) (block_bitmap s)"
  have req: "unat ?req = (unat n + 511) div 512" using n by (rule unat_required_blocks)
  have lt: "unat ?req < unat ?c" using shrink by (simp add: word_less_nat_alt)
  have c0: "?c \<noteq> 0" using lt by (intro notI) simp
  have le: "unat n \<le> 512 * unat ?req" unfolding req by linarith
  have ext: "unat ?x + unat ?c \<le> 32768" using live_extent(4) [OF inv i c0] fs_invD(5) [OF inv] by linarith
  have cr: "unat (?c - ?req) = unat ?c - unat ?req" using lt by (simp add: unat_sub_if' word_le_nat_alt)
  note unf = resize_node_unfold [OF fs_invD(7) [OF inv] knd, of n]
  have nz: "\<not> dk_block_count ?d < ?req" using lt by (simp add: word_less_nat_alt)
  have rlen: "length (raw img s i) = 512 * unat ?c" using inv i by (rule live_extent)
  have goal: "\<exists>s'. simplefs_flush_metadata (set_size i n (with_extent i x ?req n ?bm w s)) = (Inr (), s') \<and> resize_done dev img i n s s'"
    if "?req \<noteq> 0 \<Longrightarrow> x = ?x" "\<And>b. b \<notin> node_blocks s i \<Longrightarrow> img w b = img (hw s) b"
      "?req \<noteq> 0 \<Longrightarrow> take (unat n) (extent_image (img w) (unat ?x) (unat ?req)) = take (unat n) (raw img s i)" for x w
  proof (rule resize_finish)
    note sh = shrink_inv [where img = img and w = w and n = n and req = ?req and x = x, OF inv i c0 less_imp_le [OF lt] le that(1,2)]
    show "fs_inv (with_extent i x ?req n ?bm w s) dev img" "others_kept img i s (with_extent i x ?req n ?bm w s)"
      using sh by auto
    show "take (unat n) (raw img (with_extent i x ?req n ?bm w s) i) = resized img i n s"
      using that(1,3) le by (cases "?req = 0") (simp_all add: resized_def nz)
  qed (use i le in simp_all)
  show ?thesis
  proof (cases "?req = 0")
    case True
    have u: "simplefs_release_extent i s = upd_disk i (\<lambda>d. d\<lparr>dk_data_block := 0, dk_block_count := ?req\<rparr>) (s\<lparr>block_bitmap := ?bm\<rparr>)"
      using c0 True ext by (simp add: simplefs_release_extent_def Let_def mark_extent_marked)
    have "simplefs_resize_node i n s = simplefs_flush_metadata (set_size i n (with_extent i 0 ?req n ?bm (hw s) s))"
      unfolding unf using shrink nz True unfolding set_size_with_extent(2) [symmetric] u [symmetric] by simp
    then show ?thesis using goal [of 0 "hw s"] True by simp
  next
    case False
    have xr: "unat (?x + ?req) = unat ?x + unat ?req" using ext lt by (intro unat_add_u32) linarith
    have nw: "unat (?x + ?req) + unat (?c - ?req) < 4294967296" using xr cr ext lt by linarith
    let ?s1 = "upd_disk i (\<lambda>d. d\<lparr>dk_block_count := ?req\<rparr>) (s\<lparr>block_bitmap := ?bm\<rparr>)"
    have mk: "simplefs_mark_extent (?x + ?req) (?c - ?req) False s = s\<lparr>block_bitmap := ?bm\<rparr>"
      unfolding mark_extent_marked [OF nw] xr cr ..
    have s1: "?s1\<lparr>hw := hw s\<rparr> = ?s1" "node_disk ?s1 i = ?d\<lparr>dk_block_count := ?req\<rparr>" by (simp_all add: upd_node_def)
    have rawt: "extent_image (img (hw s)) (unat ?x) (unat ?req) = take (512 * unat ?req) (raw img s i)"
      unfolding raw_def using take_extent_image [of "img (hw s)" "unat ?x" "unat ?c" "unat ?req"] lt
        on_disk_blocks_ok [OF fs_invD(1) [OF inv], of "unat ?x" "unat ?c"] live_extent(1) [OF inv i] c0 by simp
    show ?thesis
    proof (cases "n mod 512 = 0")
      case True
      have "simplefs_resize_node i n s = simplefs_flush_metadata (set_size i n ?s1)"
        unfolding unf Let_def mk using shrink nz False True by simp
      also have "set_size i n ?s1 = set_size i n (with_extent i ?x ?req n ?bm (hw s) s)"
        using set_size_with_extent(1) [where i = i and n = n and y = ?req and s = s and bm = ?bm and w = "hw s"] s1(1) by simp
      finally show ?thesis using goal [of ?x "hw s"] le rawt by simp
    next
      case nm: False
      have um: "unat (n mod 512) = unat n mod 512" by (simp add: unat_mod)
      moreover have "unat (512 - n mod 512) = 512 - unat n mod 512" using um by (simp add: unat_sub_if' word_le_nat_alt)
      moreover have "0 < unat n mod 512" using nm um by (simp add: word_unat_eq_iff)
      ultimately have zr: "unat n + unat (512 - n mod 512) \<le> 512 * unat ?req"
        unfolding req using round_block [of "unat n"] by simp
      have od: "on_disk ?s1 dev img" using fs_invD(1) [OF inv] by simp
      have "unat ?x + unat ?req \<le> unat (block_count dev)" using live_extent(1) [OF inv i] c0 lt by simp
      from zero_range_loop_ok [OF od this zr] obtain w where
        w: "simplefs_zero_range i n (512 - n mod 512) ?s1 = (Inr (), ?s1\<lparr>hw := w\<rparr>)"
          "extent_image (img w) (unat ?x) (unat ?req) = put_bytes (unat n) (replicate (unat (512 - n mod 512)) 0) (extent_image (img (hw s)) (unat ?x) (unat ?req))"
          "\<forall>b. b < unat ?x \<or> unat ?x + unat ?req \<le> b \<longrightarrow> img w b = img (hw s) b"
        unfolding extent_updated_def by (auto simp: simplefs_zero_range_def s1(2))
      have "simplefs_resize_node i n s = simplefs_flush_metadata (set_size i n (?s1\<lparr>hw := w\<rparr>))"
        unfolding unf Let_def mk using shrink nz False nm
        by (simp add: bind_r_simps(2) [where m = "simplefs_zero_range i n (512 - n mod 512)", OF w(1)])
      then have "simplefs_resize_node i n s = simplefs_flush_metadata (set_size i n (with_extent i ?x ?req n ?bm w s))"
        unfolding set_size_with_extent(1) .
      moreover have "img w b = img (hw s) b" if "b \<notin> node_blocks s i" for b
        using w(3) that lt by (auto simp: node_blocks_def)
      moreover have "take (unat n) (extent_image (img w) (unat ?x) (unat ?req)) = take (unat n) (raw img s i)"
        using w(2) le lt rlen unfolding rawt by (simp add: put_bytes_def)
      ultimately show ?thesis using goal [of ?x w] by simp
    qed
  qed
qed

section \<open>A small file system\<close>

text \<open>Inode 0 is an empty root directory, inode 1 a file of five bytes in block 4.\<close>

definition sample_superblock :: simplefs_superblock where
  "sample_superblock = \<lparr>magic = SIMPLEFS_MAGIC, version = SIMPLEFS_VERSION, sb_block_size = 512, total_blocks = 64,
     inode_count = 2, inode_table_start = 1, inode_table_blocks = 1, inode_bitmap_start = 2, inode_bitmap_blocks = 1,
     block_bitmap_start = 3, block_bitmap_blocks = 1, data_block_start = 4, root_inode_index = 0, reserved = 0\<rparr>"

definition sample_node :: "u32 \<Rightarrow> u32 \<Rightarrow> u32 \<Rightarrow> u32 \<Rightarrow> simplefs_runtime_inode" where
  "sample_node knd sz block count = blank_node\<lparr>disk := zero_inode\<lparr>dk_kind := knd, dk_size := sz,
     dk_data_block := block, dk_block_count := count\<rparr>\<rparr>"

definition sample_fs :: "(nat \<Rightarrow> u8 list) simplefs" where
  "sample_fs = \<lparr>runtime_inodes = (\<lambda>i. if i = 0 then sample_node SIMPLEFS_INODE_DIR 0 0 0 else sample_node SIMPLEFS_INODE_FILE 5 4 1),
     runtime_dir_entries = (\<lambda>_. None), inode_table_image = (\<lambda>_. zero_inode), mounted_device = Some (memory_disk 64),
     mounted_superblock = sample_superblock, inode_bitmap = (\<lambda>i. if i = 0 then 3 else 0),
     block_bitmap = (\<lambda>i. if i = 0 then 31 else 0), mounted_inode_count = 2, next_dir_entry_slot = 0,
     hw = (\<lambda>b. if b = 4 then text_bytes ''hello'' else [])\<rparr>"

abbreviation sample_img :: "(nat \<Rightarrow> u8 list) \<Rightarrow> nat \<Rightarrow> u8 list" where
  "sample_img \<equiv> \<lambda>w b. pad_block (w b)"

lemma sample_superblock_ok: "superblock_ok (memory_disk 64) sample_superblock"
  by code_simp

lemma sample_live: "live sample_fs i \<longleftrightarrow> i < 2"
proof -
  have "bit8_used (inode_bitmap sample_fs) 0" "bit8_used (inode_bitmap sample_fs) 1" by code_simp+
  then show ?thesis
    by (auto simp: live_def simplefs_inode_used_def sample_fs_def less_2_cases_iff)
qed

lemma sample_fs_inv: "fs_inv sample_fs (memory_disk 64) sample_img"
proof -
  have b: "bit8_used (block_bitmap sample_fs) 4" by code_simp
  have n: "node_blocks sample_fs i = (if i = 0 then {} else {4})" for i
    by (auto simp: node_blocks_def sample_fs_def sample_node_def zero_inode_def)
  have "extents_ok sample_fs"
    unfolding extents_ok_def sample_live n using b
    by (auto simp: sample_fs_def sample_superblock_def sample_node_def zero_inode_def)
  moreover have "layout_ok (mounted_superblock sample_fs)"
    by (simp add: layout_ok_def sample_fs_def sample_superblock_def)
  moreover have "mounted_superblock sample_fs = sample_superblock" "mounted_device sample_fs = Some (memory_disk 64)"
    "mounted_inode_count sample_fs = 2" "inode_count sample_superblock = 2"
    by (simp_all add: sample_fs_def sample_superblock_def)
  ultimately show ?thesis
    using sample_superblock_ok memory_disk_ok by (simp add: fs_inv_def mount_inv_def on_disk_def)
qed

lemma sample_file: "live sample_fs 1" "dk_kind (node_disk sample_fs 1) = SIMPLEFS_INODE_FILE"
    "dk_size (node_disk sample_fs 1) = 5" "dk_block_count (node_disk sample_fs 1) = 1"
  by (simp_all add: sample_live) (simp_all add: sample_fs_def sample_node_def zero_inode_def)

section \<open>Properties of files\<close>

lemma length_contents:
  "fs_inv s dev img \<Longrightarrow> live s i \<Longrightarrow> length (contents img s i) = unat (dk_size (node_disk s i))"
  using live_extent(2,5) [of s dev img i] by (simp add: contents_def)

lemma resize_same:
  assumes inv: "fs_inv s dev img" and i: "live s i" and knd: "dk_kind (node_disk s i) = SIMPLEFS_INODE_FILE"
    and n: "unat n \<le> 4294966784" and same: "simplefs_required_blocks n = dk_block_count (node_disk s i)"
  shows "\<exists>s'. simplefs_resize_node i n s = (Inr (), s') \<and> resize_done dev img i n s s'"
proof -
  have "unat n \<le> 512 * unat (dk_block_count (node_disk s i))"
    using unat_required_blocks [OF n] unfolding same by linarith
  from resize_finish [OF inv i others_kept_refl refl this] show ?thesis
    unfolding resize_node_unfold [OF fs_invD(7) [OF inv] knd, of n] by (simp add: same resized_def)
qed

lemma resize_cases:
  assumes "fs_inv s dev img" "live s i" "dk_kind (node_disk s i) = SIMPLEFS_INODE_FILE" "unat n \<le> 4294966784"
  shows "(\<exists>s'. simplefs_resize_node i n s = (Inr (), s') \<and> resize_done dev img i n s s') \<or>
    (simplefs_resize_node i n s = (Inl EFAIL, s) \<and> dk_block_count (node_disk s i) < simplefs_required_blocks n \<and>
     (\<forall>a. \<not> free_run s a (unat (simplefs_required_blocks n))))"
  using resize_grow [OF assms] resize_shrink [OF assms] resize_same [OF assms] by (meson linorder_neqE)

text \<open>
  C16. Changing the size of a file. On a working disk the operation succeeds, or there is no run of enough free
  blocks and nothing changes. After success the invariant holds, the other files have their contents, the
  new metadata is on the disk, and the file has the new size: its old bytes up to the new size, then, when
  new blocks were needed, zeros.
\<close>

theorem simplefs_resize_node_correct:
  assumes "fs_inv s dev img" "live s i" "dk_kind (node_disk s i) = SIMPLEFS_INODE_FILE" "unat n \<le> 4294966784"
  shows "case simplefs_resize_node i n s of
      (Inr _, s') \<Rightarrow> fs_inv s' dev img \<and> (\<forall>j. live s j \<longrightarrow> j \<noteq> i \<longrightarrow> contents img s' j = contents img s j) \<and>
        meta_image s' (img (hw s')) \<and> isize (node_vfs s' i) = n \<and> length (contents img s' i) = unat n \<and>
        (if dk_block_count (node_disk s i) < simplefs_required_blocks n
         then contents img s' i = contents img s i @ replicate (unat n - unat (dk_size (node_disk s i))) 0
         else contents img s' i = take (unat n) (raw img s i))
    | (Inl e, s') \<Rightarrow> e = EFAIL \<and> s' = s \<and> (\<forall>a. \<not> free_run s a (unat (simplefs_required_blocks n)))"
  using resize_cases [OF assms]
proof (elim disjE exE conjE)
  fix s' assume s': "simplefs_resize_node i n s = (Inr (), s')" "resize_done dev img i n s s'"
  then have d: "fs_inv s' dev img" "others_kept img i s s'" "dk_size (node_disk s' i) = n" "isize (node_vfs s' i) = n"
    "meta_image s' (img (hw s'))" "contents img s' i = resized img i n s" by (auto simp: resize_done_def)
  have "live s' i" using d(2) assms(2) by (simp add: others_kept_def)
  from length_contents [OF d(1) this] d(3) have l: "length (contents img s' i) = unat n" by simp
  have lc: "length (contents img s i) = unat (dk_size (node_disk s i))" using assms(1,2) by (rule length_contents)
  have "unat (dk_size (node_disk s i)) \<le> unat n" if "dk_block_count (node_disk s i) < simplefs_required_blocks n"
  proof -
    have "unat (dk_block_count (node_disk s i)) < (unat n + 511) div 512"
      using that unat_required_blocks [OF assms(4)] by (simp add: word_less_nat_alt)
    then show ?thesis using live_extent(2) [OF assms(1,2)] by linarith
  qed
  then show ?thesis
    using d l lc others_kept_contents [OF d(2)] unfolding s'(1) by (simp add: resized_def)
qed simp

theorem simplefs_resize_node_correct_witness:
  "case simplefs_resize_node 1 600 sample_fs of
      (Inr _, s') \<Rightarrow> length (contents sample_img s' 1) = 600 \<and>
        contents sample_img s' 1 = contents sample_img sample_fs 1 @ replicate 595 0
    | (Inl e, s') \<Rightarrow> e = EFAIL \<and> (\<forall>a. \<not> free_run sample_fs a 2)"
proof -
  have r: "simplefs_required_blocks 600 = 2" by code_simp
  show ?thesis
    using simplefs_resize_node_correct [OF sample_fs_inv sample_file(1,2), of 600] sample_file(3,4)
      length_contents [OF sample_fs_inv sample_file(1)]
    by (simp add: r split: prod.splits sum.splits)
qed


lemma regular_read_contents:
  assumes inv: "fs_inv s dev img" and i: "live s i"
  shows "simplefs_regular_read i off len s =
    Inr (take (unat len) (drop (unat off) (contents img s i)),
         off + of_nat (length (take (unat len) (drop (unat off) (contents img s i)))))"
proof (cases "dk_size (node_disk s i) \<le> off")
  case True
  then have "drop (unat off) (contents img s i) = []"
    using length_contents [OF inv i] by (simp add: word_le_nat_alt)
  then show ?thesis using True by (simp add: simplefs_regular_read_def Let_def)
next
  case False
  let ?d = "node_disk s i"
  let ?l = "if len > dk_size ?d - off then dk_size ?d - off else len"
  have lt: "unat off < unat (dk_size ?d)" using False by (simp add: word_le_nat_alt)
  have sub: "unat (dk_size ?d - off) = unat (dk_size ?d) - unat off"
    using lt by (simp add: unat_sub_if' word_le_nat_alt)
  have l: "unat ?l = min (unat len) (unat (dk_size ?d) - unat off)"
    using sub by (simp add: word_less_nat_alt min_def)
  have sz: "unat (dk_size ?d) \<le> 512 * unat (dk_block_count ?d)" using inv i by (rule live_extent)
  have bc: "dk_block_count ?d \<noteq> 0" using lt sz by (intro notI) simp
  have "read_loop ?d (unat off) (unat ?l) [] s = ([] @ take (unat ?l) (drop (unat off) (raw img s i)), True)"
    unfolding raw_def using live_extent(1) [OF inv i] bc sz l lt
    by (intro read_loop_ok [OF fs_invD(1) [OF inv]]) auto
  moreover have "take (unat ?l) (drop (unat off) (raw img s i)) = take (unat len) (drop (unat off) (contents img s i))"
    unfolding l contents_def using lt by (auto simp: take_drop min_def)
  ultimately show ?thesis using False by (simp add: simplefs_regular_read_def Let_def)
qed

text \<open>
  C17. Reading a file returns the bytes of its contents from the offset, cut off at the end of the file, and
  moves the offset behind them. Reading at or after the end returns no bytes.
\<close>

theorem simplefs_regular_read_correct:
  assumes "fs_inv s dev img" "live s i"
  shows "\<exists>bytes. simplefs_regular_read i off len s = Inr (bytes, off + of_nat (length bytes)) \<and>
    bytes = take (unat len) (drop (unat off) (contents img s i))"
  using regular_read_contents [OF assms] by simp

theorem simplefs_regular_read_correct_witness:
  "simplefs_regular_read 1 1 100 sample_fs = Inr (text_bytes ''ello'', 5)"
proof -
  have "take (unat (100 :: u32)) (drop (unat (1 :: u32)) (contents sample_img sample_fs 1)) = text_bytes ''ello''"
    by code_simp
  then show ?thesis using simplefs_regular_read_correct [OF sample_fs_inv sample_file(1), of 1 100] by simp
qed

lemma put_bytes_take:
  "off \<le> length c \<Longrightarrow> length r = off + length bs \<Longrightarrow> take off r = take off c \<Longrightarrow> put_bytes off bs r = take off c @ bs"
  by (simp add: put_bytes_def)

lemma take_put_bytes: "off + length bs \<le> n \<Longrightarrow> n \<le> length r \<Longrightarrow> take n (put_bytes off bs r) = put_bytes off bs (take n r)"
proof (cases "bs = []")
  case False
  assume "off + length bs \<le> n" "n \<le> length r"
  moreover from this False have "off < n" by (cases bs) auto
  ultimately show ?thesis by (simp add: put_bytes_def take_drop min_def)
qed simp

lemma write_done:
  assumes inv: "fs_inv t dev img" and i: "live t i" and fit: "unat off + length bytes \<le> unat (dk_size (node_disk t i))"
    and ne: "bytes \<noteq> []"
  obtains s' where "write_loop (dk_data_block (node_disk t i)) (unat off) bytes 0 t = ((length bytes, True), s')"
    "fs_inv s' dev img" "others_kept img i t s'" "contents img s' i = put_bytes (unat off) bytes (contents img t i)"
    "node_disk s' = node_disk t"
proof -
  let ?d = "node_disk t i"
  have sz: "unat (dk_size ?d) \<le> 512 * unat (dk_block_count ?d)" using inv i by (rule live_extent)
  have bc: "dk_block_count ?d \<noteq> 0" using fit sz ne by (intro notI) simp
  have "unat (dk_data_block ?d) + unat (dk_block_count ?d) \<le> unat (block_count dev)" using live_extent(1) [OF inv i] bc by simp
  moreover have "unat off + length bytes \<le> 512 * unat (dk_block_count ?d)" using fit sz by linarith
  ultimately obtain s' where s': "write_loop (dk_data_block ?d) (unat off) bytes 0 t = ((length bytes, True), s')"
    "extent_updated img (unat (dk_data_block ?d)) (unat (dk_block_count ?d)) (unat off) bytes t s'"
    using write_loop_ok [OF fs_invD(1) [OF inv], of "dk_data_block ?d" "unat (dk_block_count ?d)" "unat off" bytes 0] by auto
  note k = extent_updated_kept [OF inv i s'(2)]
  have "contents img s' i = put_bytes (unat off) bytes (contents img t i)"
    using fit take_put_bytes [of "unat off" bytes "unat (dk_size ?d)" "raw img t i"] sz live_extent(5) [OF inv i] fun_cong [OF k(5), of i] by (simp add: contents_def k(4))
  then show ?thesis using that [OF s'(1) k(2,3) _ k(5)] by blast
qed

lemma regular_write_cases:
  assumes inv: "fs_inv s dev img" and i: "live s i" and knd: "dk_kind (node_disk s i) = SIMPLEFS_INODE_FILE"
    and off: "unat off \<le> unat (dk_size (node_disk s i))" and len: "unat off + length bytes \<le> 4294966784"
  obtains (ok) s' where
      "simplefs_regular_write i off bytes s = (Inr (of_nat (length bytes), off + of_nat (length bytes)), s')"
      "fs_inv s' dev img" "others_kept img i s s'"
      "contents img s' i = take (unat off) (contents img s i) @ bytes @ drop (unat off + length bytes) (contents img s i)"
    | (full) "simplefs_regular_write i off bytes s = (Inl EFAIL, s)" "unat (dk_size (node_disk s i)) < unat off + length bytes"
      "\<forall>a. \<not> free_run s a (unat (simplefs_required_blocks (off + of_nat (length bytes))))"
proof (cases "bytes = []")
  case True
  then show ?thesis using ok [of s] inv knd fs_invD(7) [OF inv] by (simp add: simplefs_regular_write_def Let_def)
next
  case False
  let ?len = "of_nat (length bytes) :: u32" let ?stop = "off + ?len"
  have ul: "unat ?len = length bytes" using len by (intro unat_of_nat_u32) linarith
  have ue: "unat ?stop = unat off + length bytes" using len ul by (subst unat_add_u32) linarith+
  have l0: "?len \<noteq> 0" using False ul by (intro notI) simp
  have lc: "length (contents img s i) = unat (dk_size (node_disk s i))" using inv i by (rule length_contents)
  have unf: "simplefs_regular_write i off bytes s =
     bind_r (\<lambda>s. if ?stop > dk_size (node_disk s i) then simplefs_resize_node i ?stop s else (Inr (), s))
          (\<lambda>_ s1. case write_loop (dk_data_block (node_disk s1 i)) (unat off) bytes 0 s1 of
               ((written, True), s2) \<Rightarrow> (Inr (of_nat written, off + of_nat written), s2)
             | ((written, False), s2) \<Rightarrow>
                 if written \<noteq> 0 then (Inr (of_nat written, off), s2) else (Inl EFAIL, s2)) s"
  proof -
    have "\<not> ?stop < off" using ue by (simp add: word_less_nat_alt)
    then show ?thesis unfolding simplefs_regular_write_def Let_def using knd fs_invD(7) [OF inv] l0
      by (simp only: not_True_eq_False simp_thms if_False)
  qed
  show ?thesis
  proof (cases "dk_size (node_disk s i) < ?stop")
    case grow: True
    have eb: "unat ?stop \<le> 4294966784" using ue len by simp
    from resize_cases [OF inv i knd eb] show ?thesis
    proof (elim disjE exE conjE)
      fix t assume t: "simplefs_resize_node i ?stop s = (Inr (), t)" "resize_done dev img i ?stop s t"
      then have d: "fs_inv t dev img" "others_kept img i s t" "dk_size (node_disk t i) = ?stop"
        "contents img t i = resized img i ?stop s" by (auto simp: resize_done_def)
      have it: "live t i" using d(2) i by (simp add: others_kept_def)
      obtain s' where s': "write_loop (dk_data_block (node_disk t i)) (unat off) bytes 0 t = ((length bytes, True), s')"
        "fs_inv s' dev img" "others_kept img i t s'" "contents img s' i = put_bytes (unat off) bytes (contents img t i)"
        by (rule write_done [OF d(1) it _ False, of off]) (use ue d(3) in auto)
      have "length (contents img t i) = unat off + length bytes" using length_contents [OF d(1) it] d(3) ue by simp
      moreover have "take (unat off) (contents img t i) = take (unat off) (contents img s i)"
        unfolding d(4) resized_def using off lc ue by (auto simp: contents_def [of img s] min_def)
      ultimately have "contents img s' i = take (unat off) (contents img s i) @ bytes"
        using s'(4) off lc put_bytes_take [of "unat off" "contents img s i"] by simp
      moreover have "drop (unat off + length bytes) (contents img s i) = []" using grow lc ue by (simp add: word_less_nat_alt)
      ultimately show ?thesis
        using others_kept_trans [OF d(2) s'(3)] s'(1,2) grow t(1)
        by (intro ok [of s']) (simp_all add: unf bind_r_def)
    next
      assume "simplefs_resize_node i ?stop s = (Inl EFAIL, s)"
        "\<forall>a. \<not> free_run s a (unat (simplefs_required_blocks ?stop))"
      then show ?thesis using grow ue by (intro full) (simp_all add: unf bind_r_def word_less_nat_alt)
    qed
  next
    case False
    then have fit: "unat off + length bytes \<le> unat (dk_size (node_disk s i))" using ue by (simp add: word_less_nat_alt)
    obtain s' where s': "write_loop (dk_data_block (node_disk s i)) (unat off) bytes 0 s = ((length bytes, True), s')"
      "fs_inv s' dev img" "others_kept img i s s'" "contents img s' i = put_bytes (unat off) bytes (contents img s i)"
      by (rule write_done [OF inv i fit \<open>bytes \<noteq> []\<close>]) auto
    then show ?thesis using False by (intro ok [of s']) (simp_all add: unf bind_r_def put_bytes_def)
  qed
qed


text \<open>
  C15. Writing a file. A write that starts inside the file or at its end either replaces exactly the bytes
  it covers, extends the file where it goes beyond the end, keeps the storage invariant and leaves every other
  file as it was; or it fails without a change, and then there is no run of free blocks for the new size.
\<close>

theorem simplefs_regular_write_correct:
  assumes "fs_inv s dev img" "live s i" "dk_kind (node_disk s i) = SIMPLEFS_INODE_FILE"
    "unat off \<le> unat (dk_size (node_disk s i))" "unat off + length bytes \<le> 4294966784"
  shows "case simplefs_regular_write i off bytes s of
      (Inr (n, off'), s') \<Rightarrow> unat n = length bytes \<and> unat off' = unat off + length bytes \<and> fs_inv s' dev img \<and>
        contents img s' i = take (unat off) (contents img s i) @ bytes @ drop (unat off + length bytes) (contents img s i) \<and>
        (\<forall>j. live s j \<longrightarrow> j \<noteq> i \<longrightarrow> contents img s' j = contents img s j)
    | (Inl e, s') \<Rightarrow> e = EFAIL \<and> s' = s \<and>
        (\<forall>a. \<not> free_run s a (unat (simplefs_required_blocks (off + of_nat (length bytes)))))"
proof -
  have l: "unat (of_nat (length bytes) :: u32) = length bytes" using assms(5) by (intro unat_of_nat_u32) linarith
  then have "unat (off + of_nat (length bytes)) = unat off + length bytes" using assms(5) by (subst unat_add_u32) linarith+
  from assms show ?thesis
    by (cases rule: regular_write_cases)
      (simp_all add: l \<open>unat (off + of_nat (length bytes)) = unat off + length bytes\<close> others_kept_contents)
qed

theorem simplefs_regular_write_correct_witness:
  "case simplefs_regular_write 1 3 (text_bytes ''p, help'') sample_fs of
      (Inr (n, off'), s') \<Rightarrow> contents sample_img s' 1 = text_bytes ''help, help''
    | (Inl e, s') \<Rightarrow> e = EFAIL"
proof -
  have c: "take 3 (contents sample_img sample_fs 1) @ text_bytes ''p, help'' @ drop 10 (contents sample_img sample_fs 1)
      = text_bytes ''help, help''" by code_simp
  show ?thesis
    using simplefs_regular_write_correct [OF sample_fs_inv sample_file(1,2), of 3 "text_bytes ''p, help''"] sample_file(3) c
    by (auto split: prod.splits sum.splits)
qed

text \<open>
  C18. A successful write can be read back: reading as many bytes at the same offset returns the bytes
  written and the same new offset.
\<close>

theorem simplefs_write_then_read:
  assumes "fs_inv s dev img" "live s i" "dk_kind (node_disk s i) = SIMPLEFS_INODE_FILE"
    "unat off \<le> unat (dk_size (node_disk s i))" "unat off + length bytes \<le> 4294966784"
    "simplefs_regular_write i off bytes s = (Inr (n, off'), s')"
  shows "simplefs_regular_read i off n s' = Inr (bytes, off')"
  using assms(1-5)
proof (cases rule: regular_write_cases)
  case (ok t)
  then have eq: "s' = t" "n = of_nat (length bytes)" "off' = off + of_nat (length bytes)" using assms(6) by auto
  have l: "unat n = length bytes" unfolding eq(2) using assms(5) by (intro unat_of_nat_u32) linarith
  have "live s' i" using ok(3) assms(2) by (simp add: others_kept_def eq(1))
  moreover have "length (contents img s i) = unat (dk_size (node_disk s i))" using assms(1,2) by (rule length_contents)
  ultimately show ?thesis
    using regular_read_contents [of s' dev img i off n] ok(2,4) assms(4) by (simp add: eq(1,3) l)
qed (use assms(6) in simp)

lemma sample_write_runs:
  "simplefs_regular_write 1 3 (text_bytes ''p, help'') sample_fs =
     (Inr (7, 10), snd (simplefs_regular_write 1 3 (text_bytes ''p, help'') sample_fs))"
proof -
  have r: "simplefs_required_blocks 10 = 1" by code_simp
  have "unat (3 :: u32) \<le> unat (dk_size (node_disk sample_fs 1))" "unat (3 :: u32) + length (text_bytes ''p, help'') \<le> 4294966784"
    unfolding sample_file(3) by simp_all
  with sample_fs_inv sample_file(1,2) show ?thesis
  proof (cases rule: regular_write_cases)
    case full
    have "free_run sample_fs 5 1"
    proof -
      have u: "\<not> bit8_used (block_bitmap sample_fs) 5" by code_simp
      have b: "b = 5" if "5 \<le> b" "b < 6" for b :: nat using that by linarith
      have "unat (data_block_start (mounted_superblock sample_fs)) = 4" "unat (total_blocks (mounted_superblock sample_fs)) = 64"
        by (simp_all add: sample_fs_def sample_superblock_def)
      then show ?thesis unfolding free_run_def using u by (auto dest!: b)
    qed
    with full(3) r show ?thesis by simp
  qed simp
qed

theorem simplefs_write_then_read_witness:
  "simplefs_regular_read 1 3 7 (snd (simplefs_regular_write 1 3 (text_bytes ''p, help'') sample_fs))
     = Inr (text_bytes ''p, help'', 10)"
  using simplefs_write_then_read [OF sample_fs_inv sample_file(1,2) _ _ sample_write_runs] sample_file(3) by simp

text \<open>
  Truncating a file does not erase what it cuts off while the last block stays: growing the file
  again within its blocks brings the old bytes back, where a reader expects zeros.
\<close>

theorem simplefs_truncate_keeps_bytes:
  assumes inv: "fs_inv s dev img" and i: "live s i" and knd: "dk_kind (node_disk s i) = SIMPLEFS_INODE_FILE"
    and n: "n \<le> dk_size (node_disk s i)" "unat (dk_size (node_disk s i)) \<le> 4294966784"
    and same: "simplefs_required_blocks n = dk_block_count (node_disk s i)"
      "simplefs_required_blocks (dk_size (node_disk s i)) = dk_block_count (node_disk s i)"
  shows "\<exists>s1 s2. simplefs_resize_node i n s = (Inr (), s1) \<and> contents img s1 i = take (unat n) (contents img s i) \<and>
    simplefs_resize_node i (dk_size (node_disk s i)) s1 = (Inr (), s2) \<and> contents img s2 i = contents img s i"
proof -
  let ?d = "node_disk s i"
  have n': "unat n \<le> unat (dk_size ?d)" "unat n \<le> 4294966784" using n by (auto simp: word_le_nat_alt)
  have fit: "unat n \<le> 512 * unat (dk_block_count ?d)" using n'(1) live_extent(2) [OF inv i] by linarith
  obtain s1 where s1: "simplefs_flush_metadata (set_size i n s) = (Inr (), s1)" "fs_inv s1 dev img"
    "others_kept img i s s1" "raw img s1 i = raw img s i" "node_disk s1 i = ?d\<lparr>dk_size := n\<rparr>"
    by (rule finish_resize [OF inv i fit])
  have r1: "simplefs_resize_node i n s = (Inr (), s1)"
    unfolding resize_node_unfold [OF fs_invD(7) [OF inv] knd, of n] using s1(1) by (simp add: same)
  have i1: "live s1 i" using s1(3) i by (simp add: others_kept_def)
  obtain s2 where s2: "simplefs_resize_node i (dk_size ?d) s1 = (Inr (), s2)" "resize_done dev img i (dk_size ?d) s1 s2"
    using resize_same [OF s1(2) i1 _ n(2)] knd same s1(5) by auto
  have "contents img s1 i = take (unat n) (contents img s i)" using n'(1) by (simp add: contents_def s1(4,5))
  moreover have "contents img s2 i = contents img s i"
    using s2(2) s1(4,5) same by (simp add: resize_done_def resized_def contents_def [of img s])
  ultimately show ?thesis using r1 s2(1) by blast
qed

theorem simplefs_truncate_keeps_bytes_witness:
  "\<exists>s1 s2. simplefs_resize_node 1 1 sample_fs = (Inr (), s1) \<and>
    simplefs_resize_node 1 5 s1 = (Inr (), s2) \<and> contents sample_img s2 1 = text_bytes ''hello''"
proof -
  have "simplefs_required_blocks 1 = 1" "simplefs_required_blocks 5 = 1" by code_simp+
  moreover have "contents sample_img sample_fs 1 = text_bytes ''hello''" by code_simp
  ultimately show ?thesis
    using simplefs_truncate_keeps_bytes [OF sample_fs_inv sample_file(1,2), of 1] sample_file(3,4) by auto
qed


lemma required_blocks_wrap: "unat n > 4294966784 \<Longrightarrow> simplefs_required_blocks n = 0"
proof -
  assume n: "unat n > 4294966784"
  have "unat (n + 511) = unat n + 511 - 4294967296"
    using n by (simp add: unat_plus_if')
  then have "unat (n + 511) < 512" using unat_u32_lt [of n] by linarith
  then have "unat (sfs_align_up n 512) = 0"
    using unat_and_not_mask [of "n + 511" 9] by (simp add: sfs_align_up_def mask_eq_exp_minus_1 add.commute)
  then show ?thesis by (simp add: simplefs_required_blocks_def unat_eq_zero)
qed

lemma mount_inv_frame:
  assumes "mounted_device s' = mounted_device s" "mounted_superblock s' = mounted_superblock s"
    "mounted_inode_count s' = mounted_inode_count s"
  shows "mount_inv s' dev img = mount_inv s dev img"
  by (simp only: mount_inv_def on_disk_def assms)

text \<open>
  C22. The rounding of \<open>simplefs_required_blocks\<close> wraps: for a size above \<open>0xFFFFFE00\<close> it asks for no blocks. Such a
  size is accepted, the file loses its blocks, and a write inside the new size then goes to block 0 of the
  device: 512 bytes written at offset 0 replace the superblock.
\<close>

theorem simplefs_size_wrap_overwrites_superblock:
  assumes inv: "fs_inv s dev img" and i: "live s i" and knd: "dk_kind (node_disk s i) = SIMPLEFS_INODE_FILE"
    and d0: "dk_block_count (node_disk s i) = 0 \<Longrightarrow> dk_data_block (node_disk s i) = 0"
    and n: "unat n > 4294966784" and b: "length bytes = 512"
  shows "\<exists>s1 s2. simplefs_resize_node i n s = (Inr (), s1) \<and> dk_size (node_disk s1 i) = n \<and>
    dk_block_count (node_disk s1 i) = 0 \<and> simplefs_regular_write i 0 bytes s1 = (Inr (512, 512), s2) \<and>
    img (hw s2) 0 = bytes"
proof -
  let ?t = "if dk_block_count (node_disk s i) = 0 then s else simplefs_release_extent i s"
  let ?u = "set_size i n ?t"
  have req: "simplefs_required_blocks n = 0" using n by (rule required_blocks_wrap)
  have r: "simplefs_resize_node i n s = simplefs_flush_metadata ?u"
    unfolding resize_node_unfold [OF fs_invD(7) [OF inv] knd, of n] by (simp add: req word_gt_0)
  have t: "mounted_device ?t = mounted_device s" "mounted_superblock ?t = mounted_superblock s"
    "mounted_inode_count ?t = mounted_inode_count s" "dk_block_count (node_disk ?t i) = 0" "dk_data_block (node_disk ?t i) = 0"
    "dk_kind (node_disk ?t i) = SIMPLEFS_INODE_FILE"
    using d0 knd live_extent(4) [OF inv i] fs_invD(5) [OF inv]
    by (auto simp: simplefs_release_extent_def Let_def upd_node_def mark_extent_marked)
  have m: "mount_inv ?u dev img" using fs_invD(2) [OF inv] t mount_inv_frame [of ?u s] by simp
  obtain w where w: "simplefs_flush_metadata ?u = (Inr (), ?u\<lparr>inode_table_image := saved_table ?u, hw := w\<rparr>)"
    by (rule flush_metadata_ok [OF m])
  let ?s1 = "?u\<lparr>inode_table_image := saved_table ?u, hw := w\<rparr>"
  have m1: "mount_inv ?s1 dev img" using m mount_inv_frame [of ?s1 ?u] by simp
  have d1: "node_disk ?s1 i = (node_disk ?t i)\<lparr>dk_size := n\<rparr>" by simp
  have "unat (0 :: u32) < unat (block_count dev)"
    using mount_invD(2,3,5) [OF m1] by (simp add: layout_ok_def)
  from write_block_ok [OF mount_invD(1) [OF m1] this b] obtain w2 where
    w2: "simplefs_write_blocks 0 1 bytes ?s1 = (Inr (), ?s1\<lparr>hw := w2\<rparr>)" "img w2 = (img (hw ?s1))(unat (0 :: u32) := bytes)" by blast
  have ne: "bytes \<noteq> []" using b by auto
  have "write_loop 0 0 bytes 0 ?s1 = ((512, True), ?s1\<lparr>hw := w2\<rparr>)"
    using w2(1) b ne write_loop.simps [of 0 512 "[]" 512 "?s1\<lparr>hw := w2\<rparr>"]
    by (subst write_loop.simps) (simp add: chunk_at_def Let_def)
  moreover have "\<not> n < 512" using n by (simp add: word_less_nat_alt)
  ultimately have "simplefs_regular_write i 0 bytes ?s1 = (Inr (512, 512), ?s1\<lparr>hw := w2\<rparr>)"
    unfolding simplefs_regular_write_def Let_def bind_r_def d1 using t mount_invD(6) [OF m1] b by simp
  then show ?thesis using r w w2(2) d1 t by (intro exI [of _ ?s1] exI [of _ "?s1\<lparr>hw := w2\<rparr>"]) simp
qed

theorem simplefs_size_wrap_overwrites_superblock_witness:
  "\<exists>s1 s2. simplefs_resize_node 1 0xFFFFFFFF sample_fs = (Inr (), s1) \<and>
    simplefs_regular_write 1 0 (replicate 512 65) s1 = (Inr (512, 512), s2) \<and> pad_block (hw s2 0) = replicate 512 65"
  using simplefs_size_wrap_overwrites_superblock [OF sample_fs_inv sample_file(1,2), of "0xFFFFFFFF" "replicate 512 65"]
    sample_file(4) by auto

end
