(* ===== verification/Simplefs_Mount.thy ===== *)
theory Simplefs_Mount
  imports Simplefs_File
begin

text \<open>
  The metadata of \<^verbatim>\<open>simplefs.c\<close> on the disk: the encodings can be read back, mounting restores what
  the last flush wrote, and loading the directory tree ends when the directories form no cycle.
\<close>

section \<open>Encodings\<close>

lemma rd32_append: "off \<ge> length a \<Longrightarrow> rd32 (a @ b) off = rd32 b (off - length a)"
  by (simp add: rd32_def)

lemma rd32_enc32 [simp]: "rd32 (enc32 w @ b) 0 = w" "rd32 (enc32 w) 0 = w"
  by (simp_all add: rd32_def)

lemma decode_superblock_encode: "decode_superblock (encode_superblock sb @ rest) = sb"
  by (simp add: decode_superblock_def encode_superblock_def rd32_append)

lemma decode_inode_encode:
  "decode_inode (concat (map encode_inode ds) @ encode_inode d @ rest) (32 * length ds) = d"
proof -
  have l: "length (concat (map encode_inode ds)) = 32 * length ds"
    using length_concat_const [of ds encode_inode 32] by simp
  show ?thesis by (simp add: decode_inode_def rd32_append l) (simp add: encode_inode_def rd32_append)
qed

lemma decode_inode_table:
  assumes "i < n"
  shows "decode_inode (concat (map (\<lambda>i. encode_inode (f i)) [0..<n]) @ rest) (32 * i) = f i"
proof -
  have "[0..<n] = [0..<i] @ i # [Suc i..<n]"
    using assms upt_add_eq_append [of 0 i "n - i"] by (simp add: upt_conv_Cons)
  then show ?thesis
    using decode_inode_encode [of "map f [0..<i]" "f i" "concat (map (\<lambda>i. encode_inode (f i)) [Suc i..<n]) @ rest"]
    by (simp add: comp_def)
qed

lemma rd32_take: "off + 4 \<le> n \<Longrightarrow> rd32 (take n b) off = rd32 b off"
proof -
  assume "off + 4 \<le> n"
  then obtain k where "n = off + 4 + k" using le_Suc_ex by blast
  then have "n - off = Suc (Suc (Suc (Suc k)))" by simp
  then show ?thesis by (auto simp: rd32_def drop_take dec32_def split: list.splits)
qed

lemma decode_inode_take: "off + 32 \<le> n \<Longrightarrow> decode_inode (take n b) off = decode_inode b off"
  by (simp add: decode_inode_def rd32_take)

lemma length_encode_dir_entry [simp]: "length (encode_dir_entry index name) = 32"
  by (simp add: encode_dir_entry_def)




text \<open>
  C24. A name of 28 characters is accepted by \<open>simplefs_create_child\<close> and fills its field without a
  terminating zero. When another entry follows whose inode number has a nonzero low byte, loading the
  directory takes that byte for a part of the name and fails, and with the root directory the mount fails.
\<close>

theorem simplefs_full_name_unreadable:
  assumes "length name = SIMPLEFS_NAME_MAX" "no_nul name" "ucast next \<noteq> (0 :: u8)"
    "length before = 32 * k"
  shows "populate_entries fuel d (before @ encode_dir_entry index name @ encode_dir_entry next name2 @ after) (k # ks) s
    = (Inl EFAIL, s)"
proof -
  let ?b = "before @ encode_dir_entry index name @ encode_dir_entry next name2 @ after"
  have e: "encode_dir_entry index name = enc32 index @ text_bytes name" using assms(1) by (simp add: encode_dir_entry_def)
  have "text_bytes name = takeWhile (\<lambda>b. b \<noteq> 0) (text_bytes name)"
    using assms(2) by (intro takeWhile_eq_all_conv [THEN iffD2, symmetric]) (auto simp: text_bytes_def no_nul_def list_all_iff byte_of_0)
  moreover obtain t where "encode_dir_entry next name2 = ucast next # t" by (simp add: encode_dir_entry_def enc32_def)
  moreover have "\<forall>b\<in>set (text_bytes name). b \<noteq> 0"
    using assms(2) by (auto simp: text_bytes_def no_nul_def list_all_iff byte_of_0)
  ultimately have "takeWhile (\<lambda>b. b \<noteq> 0) (drop (32 * k + 4) ?b) = text_bytes name @ ucast next # takeWhile (\<lambda>b. b \<noteq> 0) (t @ after)"
    using assms(3,4) by (simp add: e takeWhile_append)
  then have "length (bytes_text (drop (32 * k + 4) ?b)) > SIMPLEFS_NAME_MAX"
    using assms(1) by (simp add: bytes_text_def)
  then show ?thesis by (simp add: Let_def)
qed

theorem simplefs_full_name_unreadable_witness:
  "populate_entries 64 0 (encode_dir_entry 1 ''abcdefghijklmnopqrstuvwxyz01'' @ encode_dir_entry 2 ''x'' @ []) [0, 1] sample_fs
    = (Inl EFAIL, sample_fs)"
  using simplefs_full_name_unreadable [of "''abcdefghijklmnopqrstuvwxyz01''" 2 "[]" 0 64 0 1 "''x''" "[]" "[1]" sample_fs]
  by (simp add: no_nul_def)

section \<open>Loading directories leaves the stored state alone\<close>

definition same_store :: "'w simplefs \<Rightarrow> 'w simplefs \<Rightarrow> bool" where
  "same_store s s' \<longleftrightarrow> mounted_device s' = mounted_device s \<and> mounted_superblock s' = mounted_superblock s
     \<and> mounted_inode_count s' = mounted_inode_count s \<and> inode_bitmap s' = inode_bitmap s
     \<and> block_bitmap s' = block_bitmap s \<and> hw s' = hw s \<and> inode_table_image s' = inode_table_image s
     \<and> (\<forall>i. node_disk s' i = node_disk s i)"

lemma same_store_refl [simp]: "same_store s s"
  by (simp add: same_store_def)

lemma same_storeD:
  assumes "same_store s s'"
  shows "mounted_device s' = mounted_device s" "mounted_superblock s' = mounted_superblock s"
    "mounted_inode_count s' = mounted_inode_count s" "inode_bitmap s' = inode_bitmap s"
    "block_bitmap s' = block_bitmap s" "hw s' = hw s" "inode_table_image s' = inode_table_image s"
    "node_disk s' i = node_disk s i"
  using assms by (simp_all add: same_store_def)

lemma same_store_trans: "same_store s t \<Longrightarrow> same_store t u \<Longrightarrow> same_store s u"
  by (simp add: same_store_def)

lemma same_store_steps [simp]:
  "(\<And>n. disk (f n) = disk n) \<Longrightarrow> same_store s (upd_node i f t) = same_store s t"
  "same_store s (t\<lparr>runtime_dir_entries := e\<rparr>) = same_store s t"
  "same_store s (t\<lparr>next_dir_entry_slot := k\<rparr>) = same_store s t"
  by (auto simp: same_store_def upd_node_def)

lemma same_store_add_child [simp]: "same_store s (add_child_slot d c t) = same_store s t"
  by (simp add: add_child_slot_def split: option.splits)

lemma same_store_set_name [simp]: "same_store s (simplefs_set_inode_name i nm t) = same_store s t"
  by (simp add: simplefs_set_inode_name_def)

lemma alloc_dir_slots_store: "simplefs_alloc_dir_slots d s = (r, s') \<Longrightarrow> same_store s s'"
  by (auto simp: simplefs_alloc_dir_slots_def Let_def split: if_splits)

lemma same_store_clear [simp]: "same_store s (clear_children d t) = same_store s t"
  by (simp add: clear_children_def Let_def)

text \<open>The state in which entry \<open>k\<close> has been added to the children of \<open>d\<close>.\<close>

definition entered :: "nat \<Rightarrow> u8 list \<Rightarrow> nat \<Rightarrow> 'w simplefs \<Rightarrow> 'w simplefs" where
  "entered d bytes k s = (let c = unat (rd32 bytes (32 * k)) in
     add_child_slot d (FsInode c) (simplefs_set_inode_name c (bytes_text (drop (32 * k + 4) bytes)) s))"

lemma same_store_entered [simp]: "same_store s (entered d bytes k t) = same_store s t"
  by (simp add: entered_def Let_def)

lemma populate_entries_Cons:
  "populate_entries fuel d bytes (k # ks) s =
     (if rd32 bytes (32 * k) \<ge> mounted_inode_count s \<or> length (bytes_text (drop (32 * k + 4) bytes)) = 0
         \<or> length (bytes_text (drop (32 * k + 4) bytes)) > SIMPLEFS_NAME_MAX then (Inl EFAIL, s)
      else if dk_kind (node_disk (entered d bytes k s) (unat (rd32 bytes (32 * k)))) = SIMPLEFS_INODE_DIR
           \<and> \<not> populated (runtime_inodes (entered d bytes k s) (unat (rd32 bytes (32 * k)))) then
          (case populate_directory fuel (unat (rd32 bytes (32 * k))) (entered d bytes k s) of
             (Inl e, s2) \<Rightarrow> (Inl e, s2)
           | (Inr _, s2) \<Rightarrow> populate_entries fuel d bytes ks s2)
        else populate_entries fuel d bytes ks (entered d bytes k s))"
  by (simp add: Let_def entered_def)

lemma populate_entries_ConsE:
  assumes run: "populate_entries fuel d bytes (k # ks) s = (r, s')"
  obtains (bad) "r = Inl EFAIL" "s' = s"
    | (fail) e where "rd32 bytes (32 * k) < mounted_inode_count s" "dk_kind (node_disk s (unat (rd32 bytes (32 * k)))) = SIMPLEFS_INODE_DIR"
        "populate_directory fuel (unat (rd32 bytes (32 * k))) (entered d bytes k s) = (Inl e, s')" "r = Inl e"
    | (dir) s2 where "rd32 bytes (32 * k) < mounted_inode_count s" "dk_kind (node_disk s (unat (rd32 bytes (32 * k)))) = SIMPLEFS_INODE_DIR"
        "populate_directory fuel (unat (rd32 bytes (32 * k))) (entered d bytes k s) = (Inr (), s2)"
        "populate_entries fuel d bytes ks s2 = (r, s')"
    | (leaf) "populate_entries fuel d bytes ks (entered d bytes k s) = (r, s')"
proof -
  let ?c = "unat (rd32 bytes (32 * k))" and ?s1 = "entered d bytes k s"
  let ?n = "bytes_text (drop (32 * k + 4) bytes)"
  have d1: "node_disk ?s1 ?c = node_disk s ?c"
    using same_store_entered [of s d bytes k s] unfolding same_store_refl by (simp add: same_store_def)
  show ?thesis
  proof (cases "rd32 bytes (32 * k) \<ge> mounted_inode_count s \<or> length ?n = 0 \<or> length ?n > SIMPLEFS_NAME_MAX")
    case True
    then show ?thesis using run bad unfolding populate_entries_Cons by simp
  next
    case ok: False
    obtain q s2 where q: "populate_directory fuel ?c ?s1 = (q, s2)" by force
    show ?thesis
    proof (cases "dk_kind (node_disk ?s1 ?c) = SIMPLEFS_INODE_DIR \<and> \<not> populated (runtime_inodes ?s1 ?c)")
      case True
      then have "(case (q, s2) of (Inl e, s2) \<Rightarrow> (Inl e, s2) | (Inr _, s2) \<Rightarrow> populate_entries fuel d bytes ks s2) = (r, s')"
        using run ok unfolding populate_entries_Cons by (simp add: q)
      then show ?thesis using q ok True d1 by (cases q) (auto intro: fail dir)
    next
      case False
      then have "populate_entries fuel d bytes ks ?s1 = (r, s')" using run ok unfolding populate_entries_Cons by (simp only: if_False)
      then show ?thesis by (rule leaf)
    qed
  qed
qed

lemma populate_directory_SucE:
  assumes run: "populate_directory (Suc fuel) d s = (r, s')"
  obtains (direct) "r = Inl EFAIL \<or> r = Inr ()" "same_store s s'"
    | (entries) t bytes s3 where "same_store s t" "dk_kind (node_disk s d) = SIMPLEFS_INODE_DIR"
        "simplefs_read_dir_entries d (dk_child_count (node_disk s d)) t = Inr bytes"
        "populate_entries fuel d bytes [0..<unat (dk_child_count (node_disk s d))] t = (r, s3)" "same_store s3 s'"
proof -
  obtain q s1 where q: "simplefs_alloc_dir_slots d s = (q, s1)" by force
  let ?t = "clear_children d s1" let ?n = "dk_child_count (node_disk s d)"
  have s1: "same_store s s1" using q by (rule alloc_dir_slots_store)
  then have t: "same_store s ?t" by simp
  then have n: "dk_child_count (node_disk ?t d) = ?n" by (simp add: same_store_def)
  have st: "same_store s (upd_node d (\<lambda>n. n\<lparr>populated := True\<rparr>) ?t)" using t by simp
  show ?thesis
  proof (cases "dk_kind (node_disk s d) \<noteq> SIMPLEFS_INODE_DIR \<or> populated (runtime_inodes s d) \<or> ?n > 32 \<or> (\<exists>e. q = Inl e) \<or> ?n = 0")
    case True
    then have "(r = Inl EFAIL \<or> r = Inr ()) \<and> (s' = s \<or> s' = s1 \<or> s' = upd_node d (\<lambda>n. n\<lparr>populated := True\<rparr>) ?t)"
      using run n by (auto simp: q Let_def split: if_splits sum.splits)
    then show ?thesis using s1 st by (auto intro: direct)
  next
    case ok: False
    then have q': "simplefs_alloc_dir_slots d s = (Inr (), s1)" using q by (cases q) simp_all
    have ok': "dk_kind (node_disk s d) = SIMPLEFS_INODE_DIR" "\<not> populated (runtime_inodes s d)" "\<not> 32 < ?n" "?n \<noteq> 0"
      using ok by auto
    have unf: "(case simplefs_read_dir_entries d ?n ?t of
          Inl e \<Rightarrow> (Inl EFAIL, ?t)
        | Inr bytes \<Rightarrow> (case populate_entries fuel d bytes [0..<unat ?n] ?t of
              (Inl e, s3) \<Rightarrow> (Inl e, s3)
            | (Inr _, s3) \<Rightarrow> (Inr (), upd_node d (\<lambda>n. n\<lparr>populated := True\<rparr>) s3))) = (r, s')"
      using run ok' unfolding populate_directory.simps q' prod.case sum.case Let_def n by simp
    show ?thesis
    proof (cases "simplefs_read_dir_entries d ?n ?t")
      case (Inr bytes)
      obtain q2 s3 where q2: "populate_entries fuel d bytes [0..<unat ?n] ?t = (q2, s3)" by force
      then have "q2 = r" "same_store s3 s'" using unf by (cases q2; simp add: Inr; auto)+
      then show ?thesis using entries [OF t _ Inr] q2 ok by simp
    qed (use unf t direct in auto)
  qed
qed

lemma populate_entries_store:
  fixes s :: "'w simplefs"
  assumes IH: "\<And>d (s :: 'w simplefs) r s'. populate_directory fuel d s = (r, s') \<Longrightarrow> same_store s s'"
  shows "populate_entries fuel d bytes ks s = (r, s') \<Longrightarrow> same_store s s'"
proof (induction ks arbitrary: s)
  case (Cons k ks)
  from Cons.prems show ?case
  proof (cases rule: populate_entries_ConsE)
    case (fail e)
    then show ?thesis using IH [OF fail(3)] same_store_trans [of s "entered d bytes k s" s'] by simp
  next
    case (dir s2)
    then show ?thesis using IH [OF dir(3)] Cons.IH [OF dir(4)] same_store_trans [of s "entered d bytes k s"] same_store_trans [of s s2 s'] by simp
  next
    case leaf
    then show ?thesis using Cons.IH [OF leaf] same_store_trans [of s "entered d bytes k s" s'] by simp
  qed simp
qed simp

lemma populate_store: "populate_directory fuel d s = (r, s') \<Longrightarrow> same_store s s'"
proof (induction fuel arbitrary: d s r s')
  case (Suc fuel)
  from Suc.prems show ?case
  proof (cases rule: populate_directory_SucE)
    case (entries t bytes s3)
    have "same_store t s3" by (rule populate_entries_store [OF _ entries(4)]) (rule Suc.IH)
    with entries(1,5) show ?thesis by (blast intro: same_store_trans)
  qed
qed simp

section \<open>Loading the tree ends\<close>

text \<open>Directory \<open>c\<close> is an entry of directory \<open>d\<close> on the disk.\<close>

definition dir_edge :: "'w simplefs \<Rightarrow> nat \<Rightarrow> nat \<Rightarrow> bool" where
  "dir_edge s d c \<longleftrightarrow> (\<exists>bytes k. simplefs_read_dir_entries d (dk_child_count (node_disk s d)) s = Inr bytes
     \<and> k < unat (dk_child_count (node_disk s d)) \<and> c = unat (rd32 bytes (32 * k))
     \<and> c < unat (mounted_inode_count s) \<and> dk_kind (node_disk s c) = SIMPLEFS_INODE_DIR)"

lemma read_dir_entries_store: "same_store s t \<Longrightarrow> simplefs_read_dir_entries d n t = simplefs_read_dir_entries d n s"
  by (simp add: simplefs_read_dir_entries_def simplefs_read_blocks_def same_storeD [of s t] Let_def cong: option.case_cong)

lemma populate_entries_ends:
  fixes s :: "'w simplefs"
  assumes IH: "\<And>c (t :: 'w simplefs). rank c < fuel \<Longrightarrow> same_store s t \<Longrightarrow> fst (populate_directory fuel c t) \<noteq> Inl ENOTERM"
    and edges: "\<And>k. k \<in> set ks \<Longrightarrow> unat (rd32 bytes (32 * k)) < unat (mounted_inode_count s) \<Longrightarrow>
        dk_kind (node_disk s (unat (rd32 bytes (32 * k)))) = SIMPLEFS_INODE_DIR \<Longrightarrow> rank (unat (rd32 bytes (32 * k))) < fuel"
  shows "same_store s t \<Longrightarrow> populate_entries fuel d bytes ks t = (r, t') \<Longrightarrow> r \<noteq> Inl ENOTERM"
  using edges
proof (induction ks arbitrary: t)
  case (Cons k ks)
  have kc: "rank (unat (rd32 bytes (32 * k))) < fuel"
    if "rd32 bytes (32 * k) < mounted_inode_count t" "dk_kind (node_disk t (unat (rd32 bytes (32 * k)))) = SIMPLEFS_INODE_DIR"
    using Cons.prems(1,3) that by (auto simp: same_store_def word_less_nat_alt)
  have e: "same_store s (entered d bytes k t)" using Cons.prems(1) by simp
  from Cons.prems(2) show ?case
  proof (cases rule: populate_entries_ConsE)
    case (fail x)
    then show ?thesis using IH [OF kc e] by (metis fst_conv)
  next
    case (dir t2)
    then have "same_store s t2" using populate_store same_store_trans [OF e] by blast
    then show ?thesis using Cons.IH [OF _ dir(4)] Cons.prems(3) by simp
  next
    case leaf
    then show ?thesis using Cons.IH [OF e leaf] Cons.prems(3) by simp
  qed simp
qed auto

lemma populate_directory_ends:
  assumes "\<And>d c. dir_edge s d c \<Longrightarrow> rank c < rank d"
  shows "rank d < fuel \<Longrightarrow> same_store s t \<Longrightarrow> fst (populate_directory fuel d t) \<noteq> Inl ENOTERM"
proof (induction fuel arbitrary: d t)
  case (Suc fuel)
  obtain r t' where run: "populate_directory (Suc fuel) d t = (r, t')" by force
  have "r \<noteq> Inl ENOTERM"
    using run
  proof (cases rule: populate_directory_SucE)
    case direct
    then show ?thesis by auto
  next
    case (entries u bytes t3)
    have u: "same_store s u" using Suc.prems(2) entries(1) by (rule same_store_trans)
    have n: "node_disk t d = node_disk s d" using Suc.prems(2) by (simp add: same_store_def)
    have "dir_edge s d (unat (rd32 bytes (32 * k)))"
      if "k \<in> set [0..<unat (dk_child_count (node_disk t d))]" "unat (rd32 bytes (32 * k)) < unat (mounted_inode_count s)"
        "dk_kind (node_disk s (unat (rd32 bytes (32 * k)))) = SIMPLEFS_INODE_DIR" for k
      unfolding dir_edge_def using that entries(3) n read_dir_entries_store [OF u] by auto
    then show ?thesis
      using assms Suc.prems(1) by (intro populate_entries_ends [OF Suc.IH _ u entries(4)]) fastforce+
  qed
  then show ?case unfolding run by simp
qed simp

text \<open>
  C20. Loading a directory tree ends: when the directories on the disk form no cycle, the recursion of
  \<open>simplefs_populate_directory\<close> stays within 65 nested calls, whatever else the image holds.
\<close>

theorem simplefs_populate_terminates:
  assumes "acyclic {(c, d). dir_edge s d c}" "unat (mounted_inode_count s) \<le> 64"
  shows "fst (simplefs_populate_directory d s) \<noteq> Inl ENOTERM"
proof -
  let ?R = "{(c, d). dir_edge s d c}"
  let ?below = "\<lambda>d. {c. (c, d) \<in> ?R\<^sup>+}"
  have sub: "?below d \<subseteq> {..<unat (mounted_inode_count s)}" for d
  proof
    fix c assume "c \<in> ?below d"
    then obtain e where "(c, e) \<in> ?R" by (metis mem_Collect_eq converse_tranclE)
    then show "c \<in> {..<unat (mounted_inode_count s)}" by (auto simp: dir_edge_def)
  qed
  have fin: "finite (?below d)" for d using sub finite_subset by blast
  have "card (?below c) < card (?below d)" if "dir_edge s d c" for d c
  proof (rule psubset_card_mono [OF fin])
    have "(c, d) \<in> ?R" using that by simp
    then have "?below c \<subseteq> ?below d" "c \<in> ?below d" by (auto intro: trancl_into_trancl)
    moreover have "c \<notin> ?below c" using assms(1) by (simp add: acyclic_def)
    ultimately show "?below c \<subset> ?below d" by blast
  qed
  moreover have "card (?below d) < 65"
    using card_mono [OF finite_lessThan sub [of d]] assms(2) by simp
  ultimately show ?thesis
    unfolding simplefs_populate_directory_def DIRECTORY_FUEL_def
    by (intro populate_directory_ends [where rank = "\<lambda>d. card (?below d)" and s = s]) auto
qed

theorem simplefs_populate_terminates_witness:
  "fst (simplefs_populate_directory 0 sample_fs) \<noteq> Inl ENOTERM"
proof -
  have "\<not> dir_edge sample_fs d c" for d c
    by (auto simp: dir_edge_def sample_fs_def sample_node_def zero_inode_def)
  then have "acyclic {(c, d). dir_edge sample_fs d c}" by (simp add: acyclic_def)
  moreover have "unat (mounted_inode_count sample_fs) \<le> 64" by (simp add: sample_fs_def)
  ultimately show ?thesis by (rule simplefs_populate_terminates)
qed

lemma entered_node [simp]:
  "populated (runtime_inodes (entered d bytes k s) i) = populated (runtime_inodes s i)"
  "dir_slot_base (runtime_inodes (entered d bytes k s) i) = dir_slot_base (runtime_inodes s i)"
  by (simp_all add: entered_def add_child_slot_def simplefs_set_inode_name_def upd_node_def Let_def split: option.splits)

lemma clear_children_node [simp]:
  "populated (runtime_inodes (clear_children d s) i) = populated (runtime_inodes s i)"
  "dir_slot_base (runtime_inodes (clear_children d s) i) = dir_slot_base (runtime_inodes s i)"
  by (simp_all add: clear_children_def upd_node_def Let_def)





section \<open>Mounting restores the flushed state\<close>

lemma mount_inodes_ok:
  assumes "\<And>i. i \<in> set is \<Longrightarrow> mount_inode (decode_inode table (32 * i)) (simplefs_inode_used s i) \<noteq> None"
  shows "\<exists>f. mount_inodes table is s = (Inr (), s\<lparr>runtime_inodes := f\<rparr>) \<and>
    (\<forall>i. disk (f i) = (if i \<in> set is then decode_inode table (32 * i) else node_disk s i))"
  using assms
proof (induction "is" arbitrary: s)
  case Nil
  then show ?case by (intro exI [of _ "runtime_inodes s"]) simp
next
  case (Cons i "is")
  then obtain n where n: "mount_inode (decode_inode table (32 * i)) (simplefs_inode_used s i) = Some n" by fastforce
  then have d: "disk n = decode_inode table (32 * i)" by (auto simp: mount_inode_def Let_def split: if_splits)
  let ?s = "upd_node i (\<lambda>_. n) s"
  have u: "simplefs_inode_used ?s = simplefs_inode_used s" by (simp add: simplefs_inode_used_def upd_node_def fun_eq_iff)
  obtain f where f: "mount_inodes table is ?s = (Inr (), ?s\<lparr>runtime_inodes := f\<rparr>)"
    "\<forall>i. disk (f i) = (if i \<in> set is then decode_inode table (32 * i) else node_disk ?s i)"
    using Cons.IH [of ?s] Cons.prems unfolding u by auto
  have "?s\<lparr>runtime_inodes := f\<rparr> = s\<lparr>runtime_inodes := f\<rparr>" by (simp add: upd_node_def)
  then show ?case using f n d by (intro exI [of _ f]) (auto simp: upd_node_def)
qed

text \<open>Two states that agree on everything that is stored.\<close>

definition restored :: "'w simplefs \<Rightarrow> 'w block_device \<Rightarrow> ('w \<Rightarrow> nat \<Rightarrow> u8 list) \<Rightarrow> 'w simplefs \<Rightarrow> bool" where
  "restored s dev img s' \<longleftrightarrow> fs_inv s' dev img \<and> mounted_superblock s' = mounted_superblock s \<and> live s' = live s
     \<and> (\<forall>i. live s i \<longrightarrow> node_disk s' i = node_disk s i \<and> contents img s' i = contents img s i)
     \<and> (\<forall>b < unat (total_blocks (mounted_superblock s)). bit8_used (block_bitmap s') b = bit8_used (block_bitmap s) b)"

lemma restored_store: "same_store t u \<Longrightarrow> restored s dev img t \<Longrightarrow> restored s dev img u"
proof -
  assume st: "same_store t u"
  have "fs_inv u dev img = fs_inv t dev img" "live u = live t" using fs_inv_frame [of u t] same_storeD [OF st] by auto
  moreover have "contents img u i = contents img t i" for i by (simp add: contents_def raw_def same_storeD [OF st])
  ultimately show "restored s dev img t \<Longrightarrow> restored s dev img u" by (simp add: restored_def same_storeD [OF st])
qed

lemma bit8_used_eq: "a (i div 8) = b (i div 8) \<Longrightarrow> bit8_used a i = bit8_used b i"
  by (simp add: bit8_used_def)

lemma restoredI:
  assumes inv: "fs_inv s dev img" and m: "mounted_device s' = Some dev" "mounted_superblock s' = mounted_superblock s"
    "mounted_inode_count s' = mounted_inode_count s" "hw s' = hw s"
    and ib: "\<And>i. i < 64 \<Longrightarrow> inode_bitmap s' (i div 8) = inode_bitmap s (i div 8)"
    and bb: "\<And>b. b < unat (total_blocks (mounted_superblock s)) \<Longrightarrow> block_bitmap s' (b div 8) = block_bitmap s (b div 8)"
    and nd: "\<And>i. i < unat (mounted_inode_count s) \<Longrightarrow> node_disk s' i = node_disk s i"
  shows "restored s dev img s'"
proof -
  have cnt: "unat (mounted_inode_count s) \<le> 64"
    using superblock_dims(1) [OF fs_invD(2) [OF inv]] inv by (simp add: fs_inv_def mount_inv_def)
  have lv: "live s' = live s"
    using ib cnt m(3) by (intro ext) (auto simp: live_def simplefs_inode_used_def bit8_used_def)
  have lt: "i < unat (mounted_inode_count s)" if "live s i" for i using that by (simp add: live_def)
  have nb: "node_blocks s' i = node_blocks s i" if "live s i" for i using nd lt [OF that] by (simp add: node_blocks_def)
  have bu: "bit8_used (block_bitmap s') b = bit8_used (block_bitmap s) b" if "b < unat (total_blocks (mounted_superblock s))" for b
    using bb [OF that] by (rule bit8_used_eq)
  have ex: "extents_ok s" using inv by (rule fs_invD)
  have "extents_ok s'"
    unfolding extents_ok_def lv
  proof (intro conjI allI impI)
    fix i assume i: "live s i"
    then have b: "node_blocks s i \<subseteq> {unat (data_block_start (mounted_superblock s))..<unat (total_blocks (mounted_superblock s))}"
      "node_blocks s i \<subseteq> {b. bit8_used (block_bitmap s) b}" "unat (dk_size (node_disk s i)) \<le> 512 * unat (dk_block_count (node_disk s i))"
      using ex by (auto simp: extents_ok_def)
    show "node_blocks s' i \<subseteq> {unat (data_block_start (mounted_superblock s'))..<unat (total_blocks (mounted_superblock s'))}"
      "unat (dk_size (node_disk s' i)) \<le> 512 * unat (dk_block_count (node_disk s' i))"
      using b nb [OF i] m nd [OF lt [OF i]] by simp_all
    show "node_blocks s' i \<subseteq> {b. bit8_used (block_bitmap s') b}"
    proof
      fix x assume "x \<in> node_blocks s' i"
      then have "x \<in> node_blocks s i" using nb [OF i] by simp
      then show "x \<in> {b. bit8_used (block_bitmap s') b}" using subsetD [OF b(1), of x] subsetD [OF b(2), of x] bu [of x] by simp
    qed
  next
    fix i j assume "live s i" "live s j" "i \<noteq> j"
    then show "node_blocks s' i \<inter> node_blocks s' j = {}" using ex nb by (simp add: extents_ok_def)
  qed
  then have "fs_inv s' dev img" using inv m by (simp add: fs_inv_def mount_inv_def on_disk_def)
  moreover have "contents img s' i = contents img s i" if "live s i" for i
    using nd [OF lt [OF that]] m by (simp add: contents_def raw_def)
  ultimately show ?thesis using lv m nd lt bu by (simp add: restored_def)
qed

lemma mount_reads:
  assumes inv: "fs_inv s dev img" and meta: "meta_image s (img (hw s))"
  defines "sb \<equiv> mounted_superblock s"
  obtains b0 table ib bb where
    "block_read dev 0 1 (hw s) = Inr b0" "decode_superblock b0 = sb"
    "block_read dev (inode_table_start sb) (inode_table_blocks sb) (hw s) = Inr table"
    "\<And>i. i < unat (inode_count sb) \<Longrightarrow> decode_inode table (32 * i) = node_disk s i"
    "block_read dev (inode_bitmap_start sb) (inode_bitmap_blocks sb) (hw s) = Inr ib"
    "\<And>i. i < 512 \<Longrightarrow> bytes_array ib i = inode_bitmap s i"
    "block_read dev (block_bitmap_start sb) (block_bitmap_blocks sb) (hw s) = Inr bb"
    "\<And>i. i < 512 * unat (block_bitmap_blocks sb) \<Longrightarrow> bytes_array bb i = block_bitmap s i"
proof -
  note dims = superblock_dims [OF fs_invD(2) [OF inv], folded sb_def]
  have lay: "layout_ok sb" using mount_invD(2) [OF fs_invD(2) [OF inv]] by (simp add: sb_def)
  have dsk: "disk_ok dev img" using inv by (rule fs_invD)
  have fit: "unat (data_block_start sb) \<le> unat (block_count dev)" using fs_invD(4,6) [OF inv] by (simp add: sb_def)
  have rd: "block_read dev a n (hw s) = Inr (extent_image (img (hw s)) (unat a) (unat n))"
    if "n \<noteq> 0" "unat a + unat n \<le> unat (block_count dev)" for a n
    using disk_okD(1) [OF dsk that] by (simp add: extent_image_def)
  have cnt: "mounted_inode_count s = inode_count sb" using fs_invD(2) [OF inv] by (simp add: mount_inv_def sb_def)
  have m: "img (hw s) 0 = put_bytes 0 (encode_superblock sb) (replicate 512 0)"
    "extent_image (img (hw s)) (unat (inode_table_start sb)) (unat (inode_table_blocks sb)) =
       take (512 * unat (inode_table_blocks sb)) (concat (map (\<lambda>i. encode_inode (saved_table s i)) [0..<64]))"
    "extent_image (img (hw s)) (unat (inode_bitmap_start sb)) 1 = map (inode_bitmap s) [0..<512]"
    "extent_image (img (hw s)) (unat (block_bitmap_start sb)) (unat (block_bitmap_blocks sb)) =
         take (512 * unat (block_bitmap_blocks sb)) (map (block_bitmap s) [0..<4096])"
    using meta unfolding meta_image_def Let_def sb_def by auto
  let ?t = "extent_image (img (hw s)) (unat (inode_table_start sb)) (unat (inode_table_blocks sb))"
  have "decode_inode ?t (32 * i) = node_disk s i" if "i < unat (inode_count sb)" for i
  proof -
    have "32 * i + 32 \<le> 512 * unat (inode_table_blocks sb)" "i < 64" using that dims(1,7) by linarith+
    then show ?thesis using decode_inode_table [of i 64 "saved_table s" "[]"] that
      by (simp add: m(2) decode_inode_take saved_table_def cnt)
  qed
  moreover have "decode_superblock (extent_image (img (hw s)) (unat (0 :: u32)) (unat (1 :: u32))) = sb"
    using decode_superblock_encode [of sb] by (simp add: extent_image_def m(1) put_bytes_def)
  moreover have "bytes_array (extent_image (img (hw s)) (unat (inode_bitmap_start sb)) (unat (inode_bitmap_blocks sb))) i = inode_bitmap s i"
    if "i < 512" for i using that unfolding dims(4) bytes_array_def by (simp add: m(3) [unfolded One_nat_def])
  moreover have "bytes_array (extent_image (img (hw s)) (unat (block_bitmap_start sb)) (unat (block_bitmap_blocks sb))) i = block_bitmap s i"
    if "i < 512 * unat (block_bitmap_blocks sb)" for i
  proof -
    have "i < 4096" using that dims(6) by linarith
    then show ?thesis using that unfolding bytes_array_def m(4) by simp
  qed
  ultimately show ?thesis
    using rd [of 1 0] rd [of "inode_table_blocks sb" "inode_table_start sb"] rd [of "inode_bitmap_blocks sb" "inode_bitmap_start sb"]
      rd [of "block_bitmap_blocks sb" "block_bitmap_start sb"] lay fit dims
    by (intro that) (simp_all add: layout_ok_def)
qed

lemma mount_steps:
  assumes inv: "fs_inv s dev img" and meta: "meta_image s (img (hw s))"
    and kinds: "\<And>i. live s i \<Longrightarrow> dk_kind (node_disk s i) = SIMPLEFS_INODE_DIR \<or> dk_kind (node_disk s i) = SIMPLEFS_INODE_FILE"
    and hw0: "hw s0 = hw s"
  obtains t where "simplefs_mount dev s0 =
      bind_r (simplefs_populate_directory (unat (root_inode_index (mounted_superblock s))))
        (\<lambda>_ u. (Inr (FsInode (unat (root_inode_index (mounted_superblock s)))), u)) t"
    "restored s dev img t"
proof -
  let ?sb = "mounted_superblock s" let ?root = "unat (root_inode_index ?sb)"
  obtain b0 table ib bb where r: "block_read dev 0 1 (hw s) = Inr b0" "decode_superblock b0 = ?sb"
    "block_read dev (inode_table_start ?sb) (inode_table_blocks ?sb) (hw s) = Inr table"
    "\<And>i. i < unat (inode_count ?sb) \<Longrightarrow> decode_inode table (32 * i) = node_disk s i"
    "block_read dev (inode_bitmap_start ?sb) (inode_bitmap_blocks ?sb) (hw s) = Inr ib"
    "\<And>i. i < 512 \<Longrightarrow> bytes_array ib i = inode_bitmap s i"
    "block_read dev (block_bitmap_start ?sb) (block_bitmap_blocks ?sb) (hw s) = Inr bb"
    "\<And>i. i < 512 * unat (block_bitmap_blocks ?sb) \<Longrightarrow> bytes_array bb i = block_bitmap s i"
    by (rule mount_reads [OF inv meta]) blast
  have cnt: "mounted_inode_count s = inode_count ?sb" using fs_invD(2) [OF inv] by (simp add: mount_inv_def)
  note dims = superblock_dims [OF fs_invD(2) [OF inv]]
  let ?s2 = "s0\<lparr>mounted_superblock := ?sb, inode_bitmap := bytes_array ib, block_bitmap := bytes_array bb,
    mounted_device := Some dev, mounted_inode_count := inode_count ?sb, next_dir_entry_slot := 0,
    runtime_inodes := (\<lambda>_. blank_node), runtime_dir_entries := (\<lambda>_. None)\<rparr>"
  have used: "simplefs_inode_used ?s2 i = simplefs_inode_used s i" if "i < unat (inode_count ?sb)" for i
    using r(6) [of "i div 8"] that dims(1) by (simp add: simplefs_inode_used_def bit8_used_def)
  have "mount_inode (decode_inode table (32 * i)) (simplefs_inode_used ?s2 i) \<noteq> None" if "i \<in> set [0..<unat (inode_count ?sb)]" for i
    using r(4) [of i] kinds [of i] used [of i] that cnt by (auto simp: mount_inode_def live_def Let_def)
  from mount_inodes_ok [OF this] obtain f where
    f: "mount_inodes table [0..<unat (inode_count ?sb)] ?s2 = (Inr (), ?s2\<lparr>runtime_inodes := f\<rparr>)"
      "\<forall>i. disk (f i) = (if i \<in> set [0..<unat (inode_count ?sb)] then decode_inode table (32 * i) else node_disk ?s2 i)" by blast
  let ?t = "simplefs_set_inode_name ?root ''/'' (?s2\<lparr>runtime_inodes := f\<rparr>)"
  have "simplefs_mount dev s0 = bind_r (simplefs_populate_directory ?root) (\<lambda>_ u. (Inr (FsInode ?root), u)) ?t"
    using r(1,2,3,5,7) f(1) fs_invD(2,8) [OF inv] disk_ok_simps(1) [of dev img]
    by (simp add: simplefs_mount_def hw0 Let_def mount_inv_def bind_r_def)
  moreover have "restored s dev img (?s2\<lparr>runtime_inodes := f\<rparr>)"
  proof (rule restoredI [OF inv])
    show "inode_bitmap (?s2\<lparr>runtime_inodes := f\<rparr>) (i div 8) = inode_bitmap s (i div 8)" if "i < 64" for i
      using that r(6) [of "i div 8"] by simp
    show "block_bitmap (?s2\<lparr>runtime_inodes := f\<rparr>) (b div 8) = block_bitmap s (b div 8)" if "b < unat (total_blocks ?sb)" for b
      using that r(8) [of "b div 8"] dims(8) by simp
    show "node_disk (?s2\<lparr>runtime_inodes := f\<rparr>) i = node_disk s i" if "i < unat (mounted_inode_count s)" for i
      using that f(2) r(4) cnt by simp
  qed (simp_all add: cnt hw0)
  then have "restored s dev img ?t" by (rule restored_store [rotated]) simp
  ultimately show ?thesis using that by blast
qed

text \<open>
  C19. Mounting restores the file system. When the metadata on the disk is that of the state \<open>s\<close>, as it is
  after each resize, create and remove, mounting the device from any earlier state of the kernel finds the same
  superblock, the same inodes, the same used blocks and the same contents of every file; the mount succeeds
  exactly when the directory tree of that state loads.
\<close>

theorem simplefs_mount_restores:
  assumes "fs_inv s dev img" "meta_image s (img (hw s))" "hw s0 = hw s"
    "\<forall>i. live s i \<longrightarrow> dk_kind (node_disk s i) = SIMPLEFS_INODE_DIR \<or> dk_kind (node_disk s i) = SIMPLEFS_INODE_FILE"
  shows "\<exists>t. restored s dev img t \<and> restored s dev img (snd (simplefs_mount dev s0)) \<and>
    fst (simplefs_mount dev s0) =
      (case fst (simplefs_populate_directory (unat (root_inode_index (mounted_superblock s))) t) of
         Inl e \<Rightarrow> Inl e | Inr _ \<Rightarrow> Inr (FsInode (unat (root_inode_index (mounted_superblock s)))))"
proof -
  let ?root = "unat (root_inode_index (mounted_superblock s))"
  obtain t where t: "simplefs_mount dev s0 = bind_r (simplefs_populate_directory ?root) (\<lambda>_ u. (Inr (FsInode ?root), u)) t"
    "restored s dev img t" by (rule mount_steps [OF assms(1,2) _ assms(3)]) (use assms(4) in auto)
  obtain r u where p: "simplefs_populate_directory ?root t = (r, u)" by force
  then have "restored s dev img u"
    using restored_store [OF _ t(2)] populate_store unfolding simplefs_populate_directory_def by blast
  then show ?thesis using t p by (intro exI [of _ t]) (auto simp: bind_r_def split: sum.splits)
qed

theorem simplefs_mount_restores_witness:
  "\<exists>s t. simplefs_flush_metadata sample_fs = (Inr (), s) \<and> restored s (memory_disk 64) sample_img (snd (simplefs_mount (memory_disk 64) t))"
proof -
  obtain w where w: "simplefs_flush_metadata sample_fs = (Inr (), sample_fs\<lparr>inode_table_image := saved_table sample_fs, hw := w\<rparr>)"
    "meta_image sample_fs (sample_img w)" by (rule flush_metadata_ok [OF fs_invD(2) [OF sample_fs_inv]])
  let ?s = "sample_fs\<lparr>inode_table_image := saved_table sample_fs, hw := w\<rparr>"
  have "saved_table ?s = saved_table sample_fs" by (auto simp: saved_table_def fun_eq_iff)
  then have "meta_image ?s (sample_img (hw ?s))" using w(2) unfolding meta_image_def by simp
  moreover have "fs_inv ?s (memory_disk 64) sample_img" using sample_fs_inv by simp
  moreover have "\<forall>i. live ?s i \<longrightarrow> dk_kind (node_disk ?s i) = SIMPLEFS_INODE_DIR \<or> dk_kind (node_disk ?s i) = SIMPLEFS_INODE_FILE"
    by (simp add: sample_fs_def sample_node_def)
  ultimately show ?thesis using simplefs_mount_restores [of ?s "memory_disk 64" sample_img ?s] w(1) by blast
qed

end
