(* ===== verification/Bounded_Queue.thy ===== *)
theory Bounded_Queue
  imports Prelude
begin

text \<open>
  The interface of the kernel's byte queues: the pipes of \<^verbatim>\<open>vfs.c\<close> and the keyboard queue of
  \<^verbatim>\<open>input.c\<close> are rings in an array with a read index, a write index and a fill count. The
  locale states what their users rely on, a first-in first-out sequence of bounded length, and proves the
  facts on whole transfers once.
\<close>

text \<open>Removing at most \<open>n\<close> elements.\<close>

fun drain :: "('s \<Rightarrow> ('a \<times> 's) option) \<Rightarrow> nat \<Rightarrow> 's \<Rightarrow> 'a list \<times> 's" where
  "drain pop 0 s = ([], s)"
| "drain pop (Suc n) s = (case pop s of None \<Rightarrow> ([], s) | Some (x, s') \<Rightarrow> (let (xs, s'') = drain pop n s' in (x # xs, s'')))"

locale bounded_queue =
  fixes ok :: "'s \<Rightarrow> bool"
    and elems :: "'s \<Rightarrow> 'a list"
    and push :: "'a \<Rightarrow> 's \<Rightarrow> 's"
    and pop :: "'s \<Rightarrow> ('a \<times> 's) option"
    and capacity :: nat
  assumes ok_push: "ok s \<Longrightarrow> ok (push x s)"
    and ok_pop: "ok s \<Longrightarrow> pop s = Some (x, s') \<Longrightarrow> ok s'"
    and bounded: "ok s \<Longrightarrow> length (elems s) \<le> capacity"
    and elems_push: "ok s \<Longrightarrow> elems (push x s) = (if length (elems s) < capacity then elems s @ [x] else elems s)"
    and pop_None: "ok s \<Longrightarrow> pop s = None \<longleftrightarrow> elems s = []"
    and pop_Some: "ok s \<Longrightarrow> pop s = Some (x, s') \<Longrightarrow> elems s = x # elems s'"
begin

lemma ok_fold_push: "ok s \<Longrightarrow> ok (fold push xs s)"
  by (induction xs arbitrary: s) (auto intro: ok_push)

lemma elems_fold_push: "ok s \<Longrightarrow> elems (fold push xs s) = elems s @ take (capacity - length (elems s)) xs"
proof (induction xs arbitrary: s)
  case (Cons x xs)
  then show ?case
  proof (cases "length (elems s) < capacity")
    case True
    then have "capacity - length (elems s) = Suc (capacity - Suc (length (elems s)))" by simp
    then show ?thesis using Cons True by (simp add: ok_push elems_push)
  next
    case False
    then show ?thesis using Cons by (simp add: ok_push elems_push)
  qed
qed simp

lemma drain_take:
  assumes "ok s" "drain pop n s = (xs, s')"
  shows "xs = take n (elems s)" "elems s' = drop n (elems s)" "ok s'"
proof -
  have "fst (drain pop n s) = take n (elems s) \<and> elems (snd (drain pop n s)) = drop n (elems s) \<and> ok (snd (drain pop n s))"
    using assms(1)
  proof (induction n arbitrary: s)
    case (Suc n)
    show ?case
    proof (cases "pop s")
      case None
      moreover from this Suc.prems have "elems s = []" using pop_None by blast
      ultimately show ?thesis using Suc.prems by simp
    next
      case (Some p)
      obtain x t where p: "p = (x, t)" by force
      note e = pop_Some [OF Suc.prems Some [unfolded p]] ok_pop [OF Suc.prems Some [unfolded p]]
      then show ?thesis using Suc.IH [OF e(2)] by (auto simp: Some p split: prod.splits)
    qed
  qed simp
  then show "xs = take n (elems s)" "elems s' = drop n (elems s)" "ok s'" using assms(2) by auto
qed

lemma push_then_drain:
  assumes "ok s" "elems s = []" "length xs \<le> capacity"
  shows "fst (drain pop (length xs) (fold push xs s)) = xs"
  using drain_take [OF ok_fold_push [OF assms(1)], of "length xs" xs "fst (drain pop (length xs) (fold push xs s))"
      "snd (drain pop (length xs) (fold push xs s))"] elems_fold_push [OF assms(1), of xs] assms(2,3) by simp

end

section \<open>Rings\<close>

definition ring :: "nat \<Rightarrow> (nat \<Rightarrow> 'a) \<Rightarrow> nat \<Rightarrow> nat \<Rightarrow> 'a list" where
  "ring cap buf r n = map (\<lambda>k. buf ((r + k) mod cap)) [0..<n]"

lemma length_ring [simp]: "length (ring cap buf r n) = n"
  by (simp add: ring_def)

lemma ring_0 [simp]: "ring cap buf r 0 = []"
  by (simp add: ring_def)

lemma ring_Nil: "ring cap buf r n = [] \<longleftrightarrow> n = 0"
  by (simp add: ring_def)

lemma ring_push:
  assumes "n < cap"
  shows "ring cap (buf((r + n) mod cap := x)) r (Suc n) = ring cap buf r n @ [x]"
proof -
  have "(r + k) mod cap \<noteq> (r + n) mod cap" if "k < n" for k
  proof
    assume "(r + k) mod cap = (r + n) mod cap"
    then have "cap dvd (r + n) - (r + k)" using that mod_eq_dvd_iff_nat [of "r + k" "r + n" cap] by simp
    then show False using that assms dvd_imp_le [of cap "n - k"] by simp
  qed
  then show ?thesis by (simp add: ring_def)
qed

lemma ring_pop: "ring cap buf r (Suc n) = buf (r mod cap) # ring cap buf ((r + 1) mod cap) n"
proof -
  have "[0..<Suc n] = 0 # map Suc [0..<n]" by (simp add: map_Suc_upt upt_conv_Cons)
  then show ?thesis by (simp add: ring_def mod_simps comp_def)
qed

end
