(* ===== verification/Input.thy ===== *)
theory Input
  imports Bounded_Queue Bytes
begin

text \<open>
  Keyboard and serial input, \<^verbatim>\<open>src/kernel/input.c\<close>: the character queue, the translation of
  keyboard scancodes and polling. What the devices hold when they are polled is an argument: the characters
  waiting at the serial port, the bytes of the keyboard controller with their status, the scancodes of the
  Hyper-V keyboard. Disabling interrupts around an update is not modelled; each operation is one step.
\<close>

section \<open>State and queue\<close>

abbreviation INPUT_QUEUE_CAPACITY :: nat where "INPUT_QUEUE_CAPACITY \<equiv> 256"
abbreviation INPUT_BACKEND_SERIAL :: u32 where "INPUT_BACKEND_SERIAL \<equiv> 1"
abbreviation INPUT_BACKEND_I8042 :: u32 where "INPUT_BACKEND_I8042 \<equiv> 2"
abbreviation INPUT_BACKEND_HYPERV :: u32 where "INPUT_BACKEND_HYPERV \<equiv> 4"

record input_state =
  input_queue :: "nat \<Rightarrow> char"
  input_queue_read_index :: u32
  input_queue_write_index :: u32
  input_queue_buffered :: u32
  input_backends :: u32
  i8042_shift :: bool
  i8042_caps_lock :: bool
  i8042_extended_prefix :: bool

definition input_queue_push_locked :: "char \<Rightarrow> input_state \<Rightarrow> input_state" where
  "input_queue_push_locked ch s =
     (if input_queue_buffered s \<ge> 256 then s
      else s\<lparr>input_queue := (input_queue s)(unat (input_queue_write_index s) := ch),
             input_queue_write_index := (input_queue_write_index s + 1) mod 256,
             input_queue_buffered := input_queue_buffered s + 1\<rparr>)"

definition input_enqueue_char :: "char \<Rightarrow> input_state \<Rightarrow> input_state" where
  "input_enqueue_char ch s = input_queue_push_locked ch s"

definition input_queue_pop_locked :: "input_state \<Rightarrow> (char \<times> input_state) option" where
  "input_queue_pop_locked s =
     (if input_queue_buffered s = 0 then None
      else Some (input_queue s (unat (input_queue_read_index s)),
                 s\<lparr>input_queue_read_index := (input_queue_read_index s + 1) mod 256,
                   input_queue_buffered := input_queue_buffered s - 1\<rparr>))"

section \<open>Scancodes\<close>

definition ascii_is_alpha :: "char \<Rightarrow> bool" where
  "ascii_is_alpha ch \<longleftrightarrow> of_char CHR ''a'' \<le> (of_char ch :: nat) \<and> of_char ch \<le> (of_char CHR ''z'' :: nat)"

definition ascii_to_upper :: "char \<Rightarrow> char" where
  "ascii_to_upper ch =
     (if \<not> ascii_is_alpha ch then ch else char_of ((of_char ch :: nat) - (of_char CHR ''a'' - of_char CHR ''A'')))"

text \<open>The tables from scancode 2 on; the character 0 marks a code without a character.\<close>

definition table_char :: "string \<Rightarrow> u8 \<Rightarrow> char" where
  "table_char table code =
     (let k = unat (code AND 0x7F) in if 2 \<le> k \<and> k - 2 < length table then table ! (k - 2) else CHR 0x00)"

definition unshifted_table :: string where
  "unshifted_table = ''1234567890-='' @ [CHR 0x08, CHR 0x09] @ ''qwertyuiop[]'' @ [CHR 0x0A, CHR 0x00] @ ''asdfghjkl;''
     @ [CHR 0x27, CHR 0x60, CHR 0x00, CHR 0x5C] @ ''zxcvbnm,./'' @ replicate 3 (CHR 0x00) @ '' ''"

definition shifted_table :: string where
  "shifted_table = ''!@#$%^&*()_+'' @ [CHR 0x08, CHR 0x09] @ ''QWERTYUIOP{}'' @ [CHR 0x0A, CHR 0x00] @ ''ASDFGHJKL:''
     @ [CHR 0x22, CHR 0x7E, CHR 0x00, CHR 0x7C] @ ''ZXCVBNM<>?'' @ replicate 3 (CHR 0x00) @ '' ''"

definition i8042_unshifted_char :: "u8 \<Rightarrow> char" where
  "i8042_unshifted_char scancode = table_char unshifted_table scancode"

definition i8042_shifted_char :: "u8 \<Rightarrow> char" where
  "i8042_shifted_char scancode = table_char shifted_table scancode"

definition i8042_translate_char :: "u8 \<Rightarrow> input_state \<Rightarrow> char" where
  "i8042_translate_char scancode s =
     (let base = i8042_unshifted_char scancode in
      if base = CHR 0x00 then CHR 0x00
      else if \<not> ascii_is_alpha base then (if i8042_shift s then i8042_shifted_char scancode else base)
      else if i8042_shift s \<noteq> i8042_caps_lock s then ascii_to_upper base
      else base)"

definition input_process_xt_scancode :: "u8 \<Rightarrow> input_state \<Rightarrow> input_state" where
  "input_process_xt_scancode scancode s =
     (let code = scancode AND NOT 0x80; released = (scancode AND 0x80 \<noteq> 0) in
      if scancode = 0xE0 \<or> scancode = 0xE1 then s\<lparr>i8042_extended_prefix := True\<rparr>
      else if i8042_extended_prefix s then s\<lparr>i8042_extended_prefix := False\<rparr>
      else if code = 0x2A \<or> code = 0x36 then s\<lparr>i8042_shift := \<not> released\<rparr>
      else if code = 0x3A \<and> \<not> released then s\<lparr>i8042_caps_lock := \<not> i8042_caps_lock s\<rparr>
      else if released then s
      else
        let ch = i8042_translate_char code s in
        if ch = CHR 0x00 then s else input_enqueue_char ch s)"

section \<open>Polling\<close>

text \<open>What the devices hold: serial characters, controller bytes with the auxiliary flag, Hyper-V scancodes.\<close>

record input_devices =
  serial_chars :: string
  i8042_bytes :: "(bool \<times> u8) list"
  hyperv_codes :: "u8 list"

definition input_poll_serial :: "string \<Rightarrow> input_state \<Rightarrow> input_state" where
  "input_poll_serial chars s =
     (if input_backends s AND INPUT_BACKEND_SERIAL = 0 then s else fold input_queue_push_locked chars s)"

definition input_poll_i8042 :: "(bool \<times> u8) list \<Rightarrow> input_state \<Rightarrow> input_state" where
  "input_poll_i8042 bytes s =
     (if input_backends s AND INPUT_BACKEND_I8042 = 0 then s
      else fold (\<lambda>(aux, b). if aux then id else input_process_xt_scancode b) bytes s)"

definition input_poll :: "input_devices \<Rightarrow> input_state \<Rightarrow> input_state" where
  "input_poll dev s =
     fold input_process_xt_scancode (hyperv_codes dev)
       (input_poll_i8042 (i8042_bytes dev) (input_poll_serial (serial_chars dev) s))"

definition input_try_read_char :: "input_devices \<Rightarrow> input_state \<Rightarrow> char option \<times> input_state" where
  "input_try_read_char dev s =
     (let s1 = input_poll dev s in
      case input_queue_pop_locked s1 of None \<Rightarrow> (None, s1) | Some (ch, s2) \<Rightarrow> (Some ch, s2))"

definition input_backend_flags :: "input_state \<Rightarrow> u32" where
  "input_backend_flags s = input_backends s"

definition input_has_backend :: "input_state \<Rightarrow> bool" where
  "input_has_backend s \<longleftrightarrow> input_backends s \<noteq> 0"

text \<open>
  Initialisation. \<open>i8042\<close> is \<open>None\<close> when the controller is absent, otherwise the response byte it holds after
  the enable commands, if any.
\<close>

definition input_init_i8042 :: "u8 option option \<Rightarrow> input_state \<Rightarrow> input_state" where
  "input_init_i8042 i8042 s =
     (case i8042 of
        None \<Rightarrow> s
      | Some response \<Rightarrow>
          let s1 = (case response of None \<Rightarrow> s | Some r \<Rightarrow> if r \<noteq> 0xFA then input_process_xt_scancode r s else s)
          in s1\<lparr>input_backends := input_backends s1 OR INPUT_BACKEND_I8042\<rparr>)"

definition input_init :: "bool \<Rightarrow> u8 option option \<Rightarrow> bool \<Rightarrow> input_state \<Rightarrow> input_state" where
  "input_init serial i8042 hyperv s =
     (let s1 = s\<lparr>input_queue_read_index := 0, input_queue_write_index := 0, input_queue_buffered := 0,
                 input_backends := 0, i8042_shift := False, i8042_caps_lock := False, i8042_extended_prefix := False\<rparr>;
          s2 = (if serial then s1\<lparr>input_backends := input_backends s1 OR INPUT_BACKEND_SERIAL\<rparr> else s1);
          s3 = input_init_i8042 i8042 s2 in
      if hyperv then s3\<lparr>input_backends := input_backends s3 OR INPUT_BACKEND_HYPERV\<rparr> else s3)"

section \<open>The queue is a bounded queue\<close>

definition input_ok :: "input_state \<Rightarrow> bool" where
  "input_ok s \<longleftrightarrow> unat (input_queue_read_index s) < 256 \<and> unat (input_queue_buffered s) \<le> 256 \<and>
     unat (input_queue_write_index s) = (unat (input_queue_read_index s) + unat (input_queue_buffered s)) mod 256"

definition input_chars :: "input_state \<Rightarrow> string" where
  "input_chars s = ring 256 (input_queue s) (unat (input_queue_read_index s)) (unat (input_queue_buffered s))"

lemma unat_Suc_mod: "m \<noteq> 0 \<Longrightarrow> unat m \<le> 65536 \<Longrightarrow> unat i < unat m \<Longrightarrow> unat ((i + 1) mod m :: u32) = (unat i + 1) mod unat m"
  by (simp add: unat_mod unat_add_u32)

lemma unat_minus_1: "b \<noteq> 0 \<Longrightarrow> unat (b - 1 :: u32) = unat b - 1"
  by (simp add: unat_sub_if' word_le_nat_alt unat_gt_0 Suc_le_eq)

interpretation input_q: bounded_queue input_ok input_chars input_queue_push_locked input_queue_pop_locked 256
proof
  fix s x s'
  assume ok: "input_ok s"
  show "length (input_chars s) \<le> 256" using ok by (simp add: input_chars_def input_ok_def)
  show "input_ok (input_queue_push_locked x s)"
    "input_chars (input_queue_push_locked x s) = (if length (input_chars s) < 256 then input_chars s @ [x] else input_chars s)"
  proof -
    show "input_chars (input_queue_push_locked x s) = (if length (input_chars s) < 256 then input_chars s @ [x] else input_chars s)"
      using ok ring_push [of "unat (input_queue_buffered s)" 256 "input_queue s" "unat (input_queue_read_index s)" x]
      by (auto simp: input_queue_push_locked_def input_chars_def input_ok_def word_le_nat_alt unat_Suc_u32)
    show "input_ok (input_queue_push_locked x s)"
      using ok unat_Suc_mod [of 256 "input_queue_write_index s"]
      by (auto simp: input_queue_push_locked_def input_ok_def word_le_nat_alt unat_Suc_u32 mod_simps)
  qed
  show "input_queue_pop_locked s = None \<longleftrightarrow> input_chars s = []"
    by (simp add: input_queue_pop_locked_def input_chars_def ring_Nil unat_eq_zero)
  assume pop: "input_queue_pop_locked s = Some (x, s')"
  then have b: "input_queue_buffered s \<noteq> 0" and s': "x = input_queue s (unat (input_queue_read_index s))"
    "s' = s\<lparr>input_queue_read_index := (input_queue_read_index s + 1) mod 256, input_queue_buffered := input_queue_buffered s - 1\<rparr>"
    by (auto simp: input_queue_pop_locked_def split: if_splits)
  have n: "unat (input_queue_buffered s) = Suc (unat (input_queue_buffered s - 1))"
    using b unat_minus_1 [OF b] by (simp add: unat_gt_0)
  have r: "unat ((input_queue_read_index s + 1) mod 256) = (unat (input_queue_read_index s) + 1) mod 256"
    using ok unat_Suc_mod [of 256 "input_queue_read_index s"] by (simp add: input_ok_def)
  show "input_chars s = x # input_chars s'"
    unfolding input_chars_def n ring_pop using ok by (simp add: s' r input_ok_def)
  show "input_ok s'"
    using ok n r unfolding input_ok_def by (simp add: s' mod_simps)
qed

end
