(* ===== verification/Bootinfo.thy ===== *)
theory Bootinfo
  imports Block
begin

text \<open>
  Boot options, \<^verbatim>\<open>src/kernel/bootinfo.c\<close>, and the choice of the boot disk,
  \<^verbatim>\<open>src/kernel/storage.c\<close>. The command line is read through \<open>text_at\<close>, which gives the text at a
  physical address. The disk drivers are arguments of \<open>storage_init\<close>: each tries to register its devices
  with the block layer.
\<close>

section \<open>Boot options\<close>

datatype boot_root_policy = BOOT_ROOT_AUTO | BOOT_ROOT_DISK | BOOT_ROOT_RAMDISK

abbreviation BOOT_FLAG_RECOVERY :: u32 where "BOOT_FLAG_RECOVERY \<equiv> 1"
abbreviation BOOT_FLAG_REINSTALL :: u32 where "BOOT_FLAG_REINSTALL \<equiv> 2"
abbreviation BOOT_FLAG_SOAK :: u32 where "BOOT_FLAG_SOAK \<equiv> 4"
abbreviation MULTIBOOT_FRAMEBUFFER_TYPE_EGA_TEXT :: u8 where "MULTIBOOT_FRAMEBUFFER_TYPE_EGA_TEXT \<equiv> 2"

text \<open>The rest of the framebuffer fields of the boot structure; \<open>mb_rgb\<close> are the six bytes of the colour layout.\<close>

record multiboot_video = multiboot_info +
  mb_framebuffer_width :: u32
  mb_framebuffer_bpp :: u8
  mb_framebuffer_type :: u8
  mb_rgb :: "u8 list"

record boot_framebuffer_info =
  physical_address :: u64
  pitch :: u32
  fb_width :: u32
  fb_height :: u32
  bpp :: u8
  fb_type :: u8
  rgb :: "u8 list"

record bootinfo_state =
  root_policy_value :: boot_root_policy
  boot_flags_value :: u32
  framebuffer_info_value :: "boot_framebuffer_info option"

text \<open>A null text contains only the empty pattern.\<close>

definition boot_string_contains :: "string option \<Rightarrow> string \<Rightarrow> bool" where
  "boot_string_contains txt pattern =
     (if length pattern = 0 then True else case txt of None \<Rightarrow> False | Some t \<Rightarrow> string_contains t pattern)"

definition bootinfo_init :: "(u32 \<Rightarrow> string) \<Rightarrow> multiboot_video \<Rightarrow> bootinfo_state" where
  "bootinfo_init text_at mb =
     (let cmdline = (if mb_flags mb AND MULTIBOOT_INFO_CMDLINE \<noteq> 0 \<and> mb_cmdline mb \<noteq> 0
                     then Some (text_at (mb_cmdline mb)) else None);
          has = boot_string_contains cmdline in
      \<lparr>root_policy_value = (if has ''root=ramdisk'' then BOOT_ROOT_RAMDISK
                            else if has ''root=disk'' then BOOT_ROOT_DISK else BOOT_ROOT_AUTO),
       boot_flags_value = (if has ''recovery=1'' then BOOT_FLAG_RECOVERY else 0)
                       OR (if has ''reinstall=1'' then BOOT_FLAG_REINSTALL else 0)
                       OR (if has ''soak=1'' then BOOT_FLAG_SOAK else 0),
       framebuffer_info_value =
         (if mb_flags mb AND MULTIBOOT_INFO_FRAMEBUFFER \<noteq> 0 \<and> mb_framebuffer_addr mb \<noteq> 0 \<and> mb_framebuffer_pitch mb \<noteq> 0
             \<and> mb_framebuffer_width mb \<noteq> 0 \<and> mb_framebuffer_height mb \<noteq> 0 \<and> mb_framebuffer_bpp mb \<noteq> 0
             \<and> mb_framebuffer_type mb \<noteq> MULTIBOOT_FRAMEBUFFER_TYPE_EGA_TEXT
          then Some \<lparr>physical_address = mb_framebuffer_addr mb, pitch = mb_framebuffer_pitch mb,
                 fb_width = mb_framebuffer_width mb, fb_height = mb_framebuffer_height mb,
                 bpp = mb_framebuffer_bpp mb, fb_type = mb_framebuffer_type mb, rgb = mb_rgb mb\<rparr>
          else None)\<rparr>)"

definition bootinfo_root_policy :: "bootinfo_state \<Rightarrow> boot_root_policy" where
  "bootinfo_root_policy b = root_policy_value b"

definition bootinfo_root_policy_name :: "boot_root_policy \<Rightarrow> string" where
  "bootinfo_root_policy_name policy =
     (case policy of BOOT_ROOT_DISK \<Rightarrow> ''disk'' | BOOT_ROOT_RAMDISK \<Rightarrow> ''ramdisk'' | _ \<Rightarrow> ''auto'')"

definition bootinfo_flags :: "bootinfo_state \<Rightarrow> u32" where
  "bootinfo_flags b = boot_flags_value b"

definition bootinfo_framebuffer :: "bootinfo_state \<Rightarrow> boot_framebuffer_info option" where
  "bootinfo_framebuffer b = framebuffer_info_value b"

definition bootinfo_recovery_enabled :: "bootinfo_state \<Rightarrow> bool" where
  "bootinfo_recovery_enabled b \<longleftrightarrow> boot_flags_value b AND BOOT_FLAG_RECOVERY \<noteq> 0"

definition bootinfo_reinstall_enabled :: "bootinfo_state \<Rightarrow> bool" where
  "bootinfo_reinstall_enabled b \<longleftrightarrow> boot_flags_value b AND BOOT_FLAG_REINSTALL \<noteq> 0"

definition bootinfo_soak_enabled :: "bootinfo_state \<Rightarrow> bool" where
  "bootinfo_soak_enabled b \<longleftrightarrow> boot_flags_value b AND BOOT_FLAG_SOAK \<noteq> 0"

section \<open>The boot disk\<close>

text \<open>A driver reports whether a disk is ready, with the devices it registered.\<close>

record 'w storage_state =
  boot_disk :: "'w block_device option"
  boot_partition_name :: "string option"
  storage_initialized :: bool

type_synonym 'w driver = "'w block_state \<Rightarrow> bool \<times> 'w block_state"

definition probe_disk ::
  "'w driver \<Rightarrow> string \<Rightarrow> string \<Rightarrow> 'w storage_state \<times> 'w block_state \<Rightarrow> 'w storage_state \<times> 'w block_state" where
  "probe_disk driver_init disk_name part_name p =
     (let (st, b) = p; (ready, b1) = driver_init b in
      case (if ready then block_find disk_name b1 else None) of
        None \<Rightarrow> (st, b1)
      | Some d \<Rightarrow> (st\<lparr>boot_disk := Some d, boot_partition_name := Some part_name\<rparr>, b1))"

definition storage_init ::
  "'w driver \<Rightarrow> 'w driver \<Rightarrow> 'w storage_state \<Rightarrow> 'w block_state \<Rightarrow> unit result \<times> 'w storage_state \<times> 'w block_state" where
  "storage_init ahci_init ata_init st b =
     (if storage_initialized st then (case boot_disk st of None \<Rightarrow> Inl EFAIL | Some _ \<Rightarrow> Inr (), st, b)
      else
        let p1 = probe_disk ahci_init ''ahci0'' ''ahci0p2''
                   (\<lparr>boot_disk = None, boot_partition_name = None, storage_initialized = True\<rparr>, b);
            p2 = (case boot_disk (fst p1) of None \<Rightarrow> probe_disk ata_init ''ata0'' ''ata0p2'' p1 | Some _ \<Rightarrow> p1) in
        (case (boot_disk (fst p2), boot_partition_name (fst p2)) of
           (Some _, Some _) \<Rightarrow> Inr () | _ \<Rightarrow> Inl EFAIL, fst p2, snd p2))"

definition storage_boot_disk :: "'w storage_state \<Rightarrow> 'w block_device option" where
  "storage_boot_disk st = boot_disk st"

definition storage_boot_partition_name :: "'w storage_state \<Rightarrow> string option" where
  "storage_boot_partition_name st = boot_partition_name st"

end
