(* ===== verification/Vfs.thy ===== *)
theory Vfs
  imports Simplefs Input Bootinfo
begin

text \<open>
  The virtual file system, \<^verbatim>\<open>src/kernel/vfs.c\<close>: permissions, path resolution, the table of open
  files, pipes, the console devices and mounting the root. A pointer to an open file is its index in the
  file table, a pointer to a pipe the address \<open>kzalloc\<close> returned. What the heap returns is an argument of
  the operations that allocate. Console output is the text \<open>con_out\<close>; trace records are not modelled here.
\<close>

section \<open>State\<close>

abbreviation VFS_MAX_FILES :: nat where "VFS_MAX_FILES \<equiv> 32"
abbreviation VFS_MAX_FDS :: nat where "VFS_MAX_FDS \<equiv> 16"
abbreviation VFS_PATH_MAX :: nat where "VFS_PATH_MAX \<equiv> 128"
abbreviation VFS_NAME_MAX :: nat where "VFS_NAME_MAX \<equiv> 32"
abbreviation VFS_PIPE_BUFFER_SIZE :: u32 where "VFS_PIPE_BUFFER_SIZE \<equiv> 1024"
abbreviation VFS_ACCESS_EXEC :: u32 where "VFS_ACCESS_EXEC \<equiv> 1"
abbreviation VFS_ACCESS_WRITE :: u32 where "VFS_ACCESS_WRITE \<equiv> 2"
abbreviation VFS_ACCESS_READ :: u32 where "VFS_ACCESS_READ \<equiv> 4"
abbreviation VFS_O_RDONLY :: u32 where "VFS_O_RDONLY \<equiv> 1"
abbreviation VFS_O_WRONLY :: u32 where "VFS_O_WRONLY \<equiv> 2"
abbreviation VFS_O_RDWR :: u32 where "VFS_O_RDWR \<equiv> 3"
abbreviation VFS_O_CREATE :: u32 where "VFS_O_CREATE \<equiv> 4"
abbreviation VFS_O_TRUNC :: u32 where "VFS_O_TRUNC \<equiv> 8"
abbreviation VFS_MODE_ISVTX :: u32 where "VFS_MODE_ISVTX \<equiv> 0x200"
abbreviation VFS_MODE_FILE_DEFAULT :: u32 where "VFS_MODE_FILE_DEFAULT \<equiv> 0x1A4"

record vfs_file =
  finode :: "inode_ref option"
  fflags :: u32
  foffset :: u32
  fref_count :: u32

record vfs_pipe =
  pinode :: vfs_inode
  reader_count :: u32
  writer_count :: u32
  read_index :: u32
  write_index :: u32
  buffered :: u32
  pbuffer :: "nat \<Rightarrow> u8"

record 'w vfs_state =
  fs :: "'w simplefs"
  blocks :: "'w block_state"
  storage :: "'w storage_state"
  bootinfo :: bootinfo_state
  root_inode :: "inode_ref option"
  root_writable :: u32
  root_device :: "'w block_device option"
  console_inode :: vfs_inode
  tty_inode :: vfs_inode
  pipes :: "nat \<Rightarrow> vfs_pipe option"
  file_table :: "(nat \<Rightarrow> vfs_file) option"
  inp :: input_state
  con_out :: string

text \<open>The two device inodes and the blank file of \<open>kzalloc\<close>.\<close>

definition device_inode :: "string \<Rightarrow> vfs_inode" where
  "device_inode name = reset_vfs_inode\<lparr>iname := name, kind := VFS_INODE_DEV, ops := Some ConsoleOps, inode_ops := False,
     imode := 0x1B6, ilinks := 1\<rparr>"

definition zero_file :: vfs_file where
  "zero_file = \<lparr>finode = None, fflags = 0, foffset = 0, fref_count = 0\<rparr>"

text \<open>
  Following a pointer to an inode. Reading through a pointer to a freed pipe is outside the model; the
  value for it is never used while the file table and the pipes agree.
\<close>

definition inode_at :: "'w vfs_state \<Rightarrow> inode_ref \<Rightarrow> vfs_inode" where
  "inode_at s r =
     (case r of
        FsInode i \<Rightarrow> node_vfs (fs s) i
      | ConsoleInode \<Rightarrow> console_inode s
      | TtyInode \<Rightarrow> tty_inode s
      | PipeInode a \<Rightarrow> (case pipes s a of None \<Rightarrow> reset_vfs_inode | Some p \<Rightarrow> pinode p))"

definition upd_inode :: "inode_ref \<Rightarrow> (vfs_inode \<Rightarrow> vfs_inode) \<Rightarrow> 'w vfs_state \<Rightarrow> 'w vfs_state" where
  "upd_inode r f s =
     (case r of
        FsInode i \<Rightarrow> s\<lparr>fs := upd_vfs i f (fs s)\<rparr>
      | ConsoleInode \<Rightarrow> s\<lparr>console_inode := f (console_inode s)\<rparr>
      | TtyInode \<Rightarrow> s\<lparr>tty_inode := f (tty_inode s)\<rparr>
      | PipeInode a \<Rightarrow> s\<lparr>pipes := (pipes s)(a := map_option (\<lambda>p. p\<lparr>pinode := f (pinode p)\<rparr>) (pipes s a))\<rparr>)"

definition file_at :: "'w vfs_state \<Rightarrow> nat \<Rightarrow> vfs_file" where
  "file_at s f = (case file_table s of None \<Rightarrow> zero_file | Some t \<Rightarrow> t f)"

definition upd_file :: "nat \<Rightarrow> (vfs_file \<Rightarrow> vfs_file) \<Rightarrow> 'w vfs_state \<Rightarrow> 'w vfs_state" where
  "upd_file f g s = s\<lparr>file_table := map_option (\<lambda>t. t(f := g (t f))) (file_table s)\<rparr>"

definition upd_pipe :: "nat \<Rightarrow> (vfs_pipe \<Rightarrow> vfs_pipe) \<Rightarrow> 'w vfs_state \<Rightarrow> 'w vfs_state" where
  "upd_pipe a g s = s\<lparr>pipes := (pipes s)(a := map_option g (pipes s a))\<rparr>"

section \<open>Text\<close>

text \<open>Hexadecimal numbers, as in the boot counter file.\<close>

definition hex_value :: "char \<Rightarrow> u32 option" where
  "hex_value ch =
     (let c = (of_char ch :: nat) in
      if 0x30 \<le> c \<and> c \<le> 0x39 then Some (of_nat (c - 0x30))
      else if 0x41 \<le> c \<and> c \<le> 0x46 then Some (of_nat (c - 0x41 + 10))
      else if 0x61 \<le> c \<and> c \<le> 0x66 then Some (of_nat (c - 0x61 + 10))
      else None)"

fun parse_hex_loop :: "string \<Rightarrow> u32 \<Rightarrow> u32" where
  "parse_hex_loop [] value = value"
| "parse_hex_loop (ch # rest) value =
     (case hex_value ch of None \<Rightarrow> 0 | Some d \<Rightarrow> parse_hex_loop rest (push_bit 4 value OR d))"

definition parse_hex32 :: "string \<Rightarrow> u32" where
  "parse_hex32 txt = parse_hex_loop txt 0"

definition format_hex32 :: "u32 \<Rightarrow> string" where
  "format_hex32 value =
     map (\<lambda>index. ''0123456789ABCDEF'' ! unat (drop_bit ((7 - index) * 4) value AND 0xF)) [0..<8]"

section \<open>Permissions\<close>

definition vfs_is_superuser :: "vfs_credentials option \<Rightarrow> bool" where
  "vfs_is_superuser cred = (case cred of None \<Rightarrow> True | Some c \<Rightarrow> cuid c = 0)"

text \<open>The three mode bits \<open>r\<close>, \<open>w\<close>, \<open>x\<close> of one class of users as an access mask.\<close>

definition class_access :: "u32 \<Rightarrow> u32 \<Rightarrow> u32 \<Rightarrow> u32 \<Rightarrow> u32" where
  "class_access mode r w x =
     (if mode AND r \<noteq> 0 then VFS_ACCESS_READ else 0) OR (if mode AND w \<noteq> 0 then VFS_ACCESS_WRITE else 0)
     OR (if mode AND x \<noteq> 0 then VFS_ACCESS_EXEC else 0)"

definition vfs_allowed_access :: "vfs_inode \<Rightarrow> vfs_credentials option \<Rightarrow> u32" where
  "vfs_allowed_access inode cred =
     (case cred of
        None \<Rightarrow> VFS_ACCESS_READ OR VFS_ACCESS_WRITE OR VFS_ACCESS_EXEC
      | Some c \<Rightarrow>
          if vfs_is_superuser cred then VFS_ACCESS_READ OR VFS_ACCESS_WRITE OR VFS_ACCESS_EXEC
          else if cuid c = iuid inode then class_access (imode inode) 0x100 0x080 0x040
          else if cgid c = igid inode then class_access (imode inode) 0x020 0x010 0x008
          else class_access (imode inode) 0x004 0x002 0x001)"

definition vfs_has_access :: "vfs_inode \<Rightarrow> vfs_credentials option \<Rightarrow> u32 \<Rightarrow> bool" where
  "vfs_has_access inode cred access_mask \<longleftrightarrow> vfs_allowed_access inode cred AND access_mask = access_mask"

section \<open>Paths\<close>

definition skip_slashes :: "string \<Rightarrow> string" where
  "skip_slashes cursor = dropWhile (\<lambda>c. c = CHR ''/'') cursor"

text \<open>The child of a directory under a name: the first entry of that name.\<close>

definition find_entry :: "'w vfs_state \<Rightarrow> vfs_inode \<Rightarrow> string \<Rightarrow> inode_ref option" where
  "find_entry s dir component =
     (case find (\<lambda>k. entry_name (fs s) (child_entry (fs s) dir k) = Some component) [0..<unat (child_count dir)] of
        None \<Rightarrow> None
      | Some k \<Rightarrow> child_entry (fs s) dir k)"

lemma next_component_shorter:
  assumes "cursor \<noteq> []"
  shows "length (skip_slashes (dropWhile (\<lambda>c. c \<noteq> CHR ''/'') cursor)) < length cursor"
proof (cases cursor)
  case (Cons c rest)
  then show ?thesis
    using length_dropWhile_le [of "\<lambda>c. c \<noteq> CHR ''/''" rest] length_dropWhile_le [of "\<lambda>c. c = CHR ''/''" rest]
      length_dropWhile_le [of "\<lambda>c. c = CHR ''/''" "dropWhile (\<lambda>c. c \<noteq> CHR ''/'') rest"]
    by (auto simp: skip_slashes_def)
qed (use assms in simp)

function resolve_loop :: "'w vfs_state \<Rightarrow> vfs_credentials option \<Rightarrow> inode_ref \<Rightarrow> string \<Rightarrow> inode_ref option" where
  "resolve_loop s cred current cursor =
     (if cursor = [] then Some current
      else if kind (inode_at s current) \<noteq> VFS_INODE_DIR \<or> \<not> vfs_has_access (inode_at s current) cred VFS_ACCESS_EXEC then None
      else
        let component = takeWhile (\<lambda>c. c \<noteq> CHR ''/'') cursor in
        if length component + 1 > 32 then None
        else
          case find_entry s (inode_at s current) component of
            None \<Rightarrow> None
          | Some next \<Rightarrow> resolve_loop s cred next (skip_slashes (dropWhile (\<lambda>c. c \<noteq> CHR ''/'') cursor)))"
  by auto

termination
  by (relation "measure (\<lambda>(s, cred, current, cursor). length cursor)") (auto intro: next_component_shorter)

declare resolve_loop.simps [simp del]

definition vfs_resolve_path :: "string \<Rightarrow> vfs_credentials option \<Rightarrow> 'w vfs_state \<Rightarrow> inode_ref option" where
  "vfs_resolve_path path cred s =
     (case root_inode s of
        None \<Rightarrow> None
      | Some root \<Rightarrow>
          if path = [] \<or> hd path \<noteq> CHR ''/'' then None
          else resolve_loop s cred root (skip_slashes path))"

text \<open>The leaf name and the directory that holds it. The text after the last slash is the leaf.\<close>

definition split_path :: "string \<Rightarrow> string \<times> string" where
  "split_path path =
     (let leaf = rev (takeWhile (\<lambda>c. c \<noteq> CHR ''/'') (rev path)); parent = take (length path - length leaf - 1) path in
      (if parent = [] then ''/'' else parent, leaf))"

definition vfs_resolve_parent ::
  "string \<Rightarrow> vfs_credentials option \<Rightarrow> 'w vfs_state \<Rightarrow> (inode_ref \<times> string) result" where
  "vfs_resolve_parent path cred s =
     (if path = [] \<or> hd path \<noteq> CHR ''/'' \<or> length path < 2 then Inl EFAIL
      else
        let (parent, leaf) = split_path path in
        if leaf = [] then Inl EFAIL
        else if length leaf \<ge> VFS_NAME_MAX then Inl EFAIL
        else if length parent \<ge> VFS_PATH_MAX then Inl EFAIL
        else
          case vfs_resolve_path parent cred s of
            None \<Rightarrow> Inl EFAIL
          | Some d \<Rightarrow> if kind (inode_at s d) = VFS_INODE_DIR then Inr (d, leaf) else Inl EFAIL)"

section \<open>Open files\<close>

definition vfs_alloc_file :: "'w vfs_state \<Rightarrow> nat option \<times> 'w vfs_state" where
  "vfs_alloc_file s =
     (case file_table s of
        None \<Rightarrow> (None, s)
      | Some t \<Rightarrow>
         (case find (\<lambda>index. fref_count (t index) = 0) [0..<VFS_MAX_FILES] of
            None \<Rightarrow> (None, s)
          | Some index \<Rightarrow> (Some index, upd_file index (\<lambda>_. zero_file\<lparr>fref_count := 1\<rparr>) s)))"

text \<open>Dropping a reference to a file; the last one closes it and frees a pipe nobody has open.\<close>

definition close_pipe_end :: "nat \<Rightarrow> u32 \<Rightarrow> 'w vfs_state \<Rightarrow> 'w vfs_state" where
  "close_pipe_end a flags s =
     (let s1 = upd_pipe a (\<lambda>p. p\<lparr>reader_count := (if flags AND VFS_O_RDONLY \<noteq> 0 \<and> reader_count p \<noteq> 0
                                                  then reader_count p - 1 else reader_count p),
                               writer_count := (if flags AND VFS_O_WRONLY \<noteq> 0 \<and> writer_count p \<noteq> 0
                                                  then writer_count p - 1 else writer_count p)\<rparr>) s in
      if iref_count (inode_at s1 (PipeInode a)) = 0 then s1\<lparr>pipes := (pipes s1)(a := None)\<rparr> else s1)"

definition vfs_release_file :: "nat \<Rightarrow> 'w vfs_state \<Rightarrow> 'w vfs_state" where
  "vfs_release_file f s =
     (if fref_count (file_at s f) = 0 then s
      else
        let s1 = upd_file f (\<lambda>x. x\<lparr>fref_count := fref_count x - 1\<rparr>) s in
        if fref_count (file_at s1 f) \<noteq> 0 then s1
        else
          let s2 = (case finode (file_at s1 f) of
                      None \<Rightarrow> s1
                    | Some r \<Rightarrow>
                        let s2 = upd_inode r (\<lambda>v. if iref_count v \<noteq> 0 then v\<lparr>iref_count := iref_count v - 1\<rparr> else v) s1 in
                        case r of PipeInode a \<Rightarrow> close_pipe_end a (fflags (file_at s1 f)) s2 | _ \<Rightarrow> s2)
          in upd_file f (\<lambda>x. x\<lparr>finode := None, fflags := 0, foffset := 0\<rparr>) s2)"

definition vfs_open_inode :: "inode_ref \<Rightarrow> u32 \<Rightarrow> 'w vfs_state \<Rightarrow> nat option \<times> 'w vfs_state" where
  "vfs_open_inode r flags s =
     (case vfs_alloc_file s of
        (None, s1) \<Rightarrow> (None, s1)
      | (Some f, s1) \<Rightarrow>
          (Some f, upd_inode r (\<lambda>v. v\<lparr>iref_count := iref_count v + 1\<rparr>)
                     (upd_file f (\<lambda>x. x\<lparr>finode := Some r, fflags := flags, foffset := 0\<rparr>) s1)))"

definition vfs_open_path :: "string \<Rightarrow> u32 \<Rightarrow> vfs_credentials option \<Rightarrow> 'w vfs_state \<Rightarrow> nat result \<times> 'w vfs_state" where
  "vfs_open_path path flags cred s =
     (case vfs_resolve_path path cred s of
        None \<Rightarrow> (Inl EFAIL, s)
      | Some r \<Rightarrow>
          let inode = inode_at s r;
              required = (if flags AND VFS_O_RDONLY \<noteq> 0 then VFS_ACCESS_READ else 0)
                         OR (if flags AND VFS_O_WRONLY \<noteq> 0 then VFS_ACCESS_WRITE else 0) in
          if kind inode = VFS_INODE_DIR then (Inl EFAIL, s)
          else if required \<noteq> 0 \<and> \<not> vfs_has_access inode cred required then (Inl EFAIL, s)
          else if flags AND VFS_O_WRONLY \<noteq> 0 \<and> ops inode = None then (Inl EFAIL, s)
          else case vfs_open_inode r flags s of (None, s1) \<Rightarrow> (Inl EFAIL, s1) | (Some f, s1) \<Rightarrow> (Inr f, s1))"

definition vfs_close_file :: "nat \<Rightarrow> 'w vfs_state \<Rightarrow> 'w vfs_state" where
  "vfs_close_file f s = vfs_release_file f s"

definition vfs_retain_file :: "nat \<Rightarrow> 'w vfs_state \<Rightarrow> 'w vfs_state" where
  "vfs_retain_file f s =
     (if fref_count (file_at s f) \<noteq> 0 then upd_file f (\<lambda>x. x\<lparr>fref_count := fref_count x + 1\<rparr>) s else s)"

definition vfs_rewind_file :: "nat \<Rightarrow> 'w vfs_state \<Rightarrow> 'w vfs_state" where
  "vfs_rewind_file f s = upd_file f (\<lambda>x. x\<lparr>foffset := 0\<rparr>) s"


section \<open>Pipes and the console\<close>

definition pipe_push :: "u8 \<Rightarrow> vfs_pipe \<Rightarrow> vfs_pipe" where
  "pipe_push b p =
     (if buffered p < VFS_PIPE_BUFFER_SIZE
      then p\<lparr>pbuffer := (pbuffer p)(unat (write_index p) := b),
             write_index := (write_index p + 1) mod VFS_PIPE_BUFFER_SIZE, buffered := buffered p + 1\<rparr>
      else p)"

definition pipe_pop :: "vfs_pipe \<Rightarrow> (u8 \<times> vfs_pipe) option" where
  "pipe_pop p =
     (if buffered p \<noteq> 0
      then Some (pbuffer p (unat (read_index p)),
                 p\<lparr>read_index := (read_index p + 1) mod VFS_PIPE_BUFFER_SIZE, buffered := buffered p - 1\<rparr>)
      else None)"

text \<open>The copy loops: reading stops at an empty pipe, writing at a full one.\<close>

fun pipe_read_loop :: "nat \<Rightarrow> u8 list \<Rightarrow> vfs_pipe \<Rightarrow> u8 list \<times> vfs_pipe" where
  "pipe_read_loop 0 copied p = (copied, p)"
| "pipe_read_loop (Suc n) copied p =
     (case pipe_pop p of None \<Rightarrow> (copied, p) | Some (b, p') \<Rightarrow> pipe_read_loop n (copied @ [b]) p')"

fun pipe_write_loop :: "u8 list \<Rightarrow> nat \<Rightarrow> vfs_pipe \<Rightarrow> nat \<times> vfs_pipe" where
  "pipe_write_loop [] written p = (written, p)"
| "pipe_write_loop (b # bs) written p =
     (if buffered p < VFS_PIPE_BUFFER_SIZE then pipe_write_loop bs (written + 1) (pipe_push b p) else (written, p))"

definition vfs_pipe_from_file :: "nat \<Rightarrow> 'w vfs_state \<Rightarrow> (nat \<times> vfs_pipe) option" where
  "vfs_pipe_from_file f s =
     (case finode (file_at s f) of
        Some (PipeInode a) \<Rightarrow> (case pipes s a of Some p \<Rightarrow> Some (a, p) | None \<Rightarrow> None)
      | _ \<Rightarrow> None)"

definition pipe_inode_read :: "nat \<Rightarrow> u32 \<Rightarrow> 'w vfs_state \<Rightarrow> u8 list result \<times> 'w vfs_state" where
  "pipe_inode_read f len s =
     (case vfs_pipe_from_file f s of
        None \<Rightarrow> (Inl EFAIL, s)
      | Some (a, p) \<Rightarrow>
          if fflags (file_at s f) AND VFS_O_RDONLY = 0 then (Inl EFAIL, s)
          else
            let (copied, p') = pipe_read_loop (unat len) [] p; s1 = upd_pipe a (\<lambda>_. p') s in
            if copied \<noteq> [] then (Inr copied, s1)
            else if writer_count p' = 0 then (Inr [], s1)
            else (Inl EWOULDBLOCK, s1))"

definition pipe_inode_write :: "nat \<Rightarrow> u8 list \<Rightarrow> 'w vfs_state \<Rightarrow> u32 result \<times> 'w vfs_state" where
  "pipe_inode_write f bytes s =
     (case vfs_pipe_from_file f s of
        None \<Rightarrow> (Inl EFAIL, s)
      | Some (a, p) \<Rightarrow>
          if fflags (file_at s f) AND VFS_O_WRONLY = 0 then (Inl EFAIL, s)
          else if reader_count p = 0 then (Inl EFAIL, s)
          else
            let (written, p') = pipe_write_loop bytes 0 p; s1 = upd_pipe a (\<lambda>_. p') s in
            if written \<noteq> 0 then (Inr (of_nat written), s1) else (Inl EWOULDBLOCK, s1))"

text \<open>
  Reading a line from the console. \<open>devs\<close> lists what the devices hold at each poll, nothing after its end.
  The result is the bytes read so far; the loop echoes them and edits on backspace.
\<close>

definition no_input :: input_devices where
  "no_input = \<lparr>serial_chars = [], i8042_bytes = [], hyperv_codes = []\<rparr>"

lemma input_poll_no_input [simp]: "input_poll no_input s = s"
  by (simp add: input_poll_def no_input_def input_poll_i8042_def input_poll_serial_def)

lemma input_try_read_no_input:
  "input_try_read_char no_input s = (Some ch, s') \<Longrightarrow> unat (input_queue_buffered s') < unat (input_queue_buffered s)"
  by (auto simp: input_try_read_char_def input_queue_pop_locked_def Let_def unat_minus_1 unat_gt_0 split: if_splits)

function console_read_loop ::
  "nat \<Rightarrow> input_devices list \<Rightarrow> string \<Rightarrow> string \<Rightarrow> input_state \<Rightarrow> (string \<times> bool) \<times> string \<times> input_state" where
  "console_read_loop len devs bytes out s =
     (if length bytes \<ge> len then ((bytes, True), out, s)
      else
        case input_try_read_char (case devs of [] \<Rightarrow> no_input | d # _ \<Rightarrow> d) s of
          (None, s1) \<Rightarrow> ((bytes, False), out, s1)
        | (Some ch, s1) \<Rightarrow>
            let c = (if ch = CHR 0x0D then CHR 0x0A else ch) in
            if c = CHR 0x08 \<or> c = CHR 0x7F then
              if bytes = [] then console_read_loop len (tl devs) bytes out s1
              else console_read_loop len (tl devs) (butlast bytes) (out @ [CHR 0x08, CHR '' '', CHR 0x08]) s1
            else if c = CHR 0x0A then ((bytes @ [c], True), out @ [c], s1)
            else console_read_loop len (tl devs) (bytes @ [c]) (out @ [c]) s1)"
  by auto

termination
  by (relation "measures [\<lambda>(len, devs, bytes, out, s). length devs,
        \<lambda>(len, devs, bytes, out, s). unat (input_queue_buffered s)]")
    (auto split: list.splits dest: input_try_read_no_input [OF sym])

declare console_read_loop.simps [simp del]

definition console_inode_read :: "input_devices list \<Rightarrow> u32 \<Rightarrow> 'w vfs_state \<Rightarrow> u8 list result \<times> 'w vfs_state" where
  "console_inode_read devs len s =
     (if len = 0 then (Inr [], s)
      else
        let ((bytes, complete), out, i) = console_read_loop (unat len) devs [] [] (inp s);
            s1 = s\<lparr>inp := i, con_out := con_out s @ out\<rparr> in
        if complete \<or> bytes \<noteq> [] then (Inr (text_bytes bytes), s1) else (Inl EWOULDBLOCK, s1))"

definition byte_char :: "u8 \<Rightarrow> char" where
  "byte_char b = char_of (unat b)"

definition console_inode_write :: "u8 list \<Rightarrow> 'w vfs_state \<Rightarrow> u32 result \<times> 'w vfs_state" where
  "console_inode_write bytes s = (Inr (of_nat (length bytes)), s\<lparr>con_out := con_out s @ map byte_char bytes\<rparr>)"

section \<open>Reading, writing, seeking\<close>

definition simplefs_file_read :: "nat \<Rightarrow> nat \<Rightarrow> u32 \<Rightarrow> 'w vfs_state \<Rightarrow> u8 list result \<times> 'w vfs_state" where
  "simplefs_file_read f i len s =
     (case simplefs_regular_read i (foffset (file_at s f)) len (fs s) of
        Inl e \<Rightarrow> (Inl e, s)
      | Inr (bytes, off) \<Rightarrow> (Inr bytes, upd_file f (\<lambda>x. x\<lparr>foffset := off\<rparr>) s))"

definition simplefs_file_write :: "nat \<Rightarrow> nat \<Rightarrow> u8 list \<Rightarrow> 'w vfs_state \<Rightarrow> u32 result \<times> 'w vfs_state" where
  "simplefs_file_write f i bytes s =
     (case simplefs_regular_write i (foffset (file_at s f)) bytes (fs s) of
        (Inl e, fs') \<Rightarrow> (Inl e, s\<lparr>fs := fs'\<rparr>)
      | (Inr (n, off), fs') \<Rightarrow> (Inr n, upd_file f (\<lambda>x. x\<lparr>foffset := off\<rparr>) (s\<lparr>fs := fs'\<rparr>)))"

text \<open>The operations an inode's table points to.\<close>

definition op_read :: "input_devices list \<Rightarrow> nat \<Rightarrow> inode_ref \<Rightarrow> file_ops \<Rightarrow> u32 \<Rightarrow> 'w vfs_state \<Rightarrow> u8 list result \<times> 'w vfs_state" where
  "op_read devs f r op len s =
     (case op of
        ConsoleOps \<Rightarrow> console_inode_read devs len s
      | PipeOps \<Rightarrow> pipe_inode_read f len s
      | SimplefsOps \<Rightarrow> (case r of FsInode i \<Rightarrow> simplefs_file_read f i len s | _ \<Rightarrow> (Inl EFAIL, s)))"

definition op_write :: "nat \<Rightarrow> inode_ref \<Rightarrow> file_ops \<Rightarrow> u8 list \<Rightarrow> 'w vfs_state \<Rightarrow> u32 result \<times> 'w vfs_state" where
  "op_write f r op bytes s =
     (case op of
        ConsoleOps \<Rightarrow> console_inode_write bytes s
      | PipeOps \<Rightarrow> pipe_inode_write f bytes s
      | SimplefsOps \<Rightarrow> (case r of FsInode i \<Rightarrow> simplefs_file_write f i bytes s | _ \<Rightarrow> (Inl EFAIL, s)))"

definition vfs_read_file :: "input_devices list \<Rightarrow> nat \<Rightarrow> u32 \<Rightarrow> 'w vfs_state \<Rightarrow> u8 list result \<times> 'w vfs_state" where
  "vfs_read_file devs f len s =
     (case finode (file_at s f) of
        None \<Rightarrow> (Inl EFAIL, s)
      | Some r \<Rightarrow>
         (case ops (inode_at s r) of
            None \<Rightarrow> (Inl EFAIL, s)
          | Some op \<Rightarrow> if fflags (file_at s f) AND VFS_O_RDONLY = 0 then (Inl EFAIL, s) else op_read devs f r op len s))"

definition vfs_write_file :: "nat \<Rightarrow> u8 list \<Rightarrow> 'w vfs_state \<Rightarrow> u32 result \<times> 'w vfs_state" where
  "vfs_write_file f bytes s =
     (case finode (file_at s f) of
        None \<Rightarrow> (Inl EFAIL, s)
      | Some r \<Rightarrow>
         (case ops (inode_at s r) of
            None \<Rightarrow> (Inl EFAIL, s)
          | Some op \<Rightarrow> if fflags (file_at s f) AND VFS_O_WRONLY = 0 then (Inl EFAIL, s) else op_write f r op bytes s))"

text \<open>The position is computed in 64 bits; \<open>offset\<close> is a signed 32-bit value.\<close>

definition vfs_seek_file :: "nat \<Rightarrow> u32 \<Rightarrow> u32 \<Rightarrow> 'w vfs_state \<Rightarrow> u32 result \<times> 'w vfs_state" where
  "vfs_seek_file f offset whence s =
     (case finode (file_at s f) of
        None \<Rightarrow> (Inl EFAIL, s)
      | Some r \<Rightarrow>
          if kind (inode_at s r) = VFS_INODE_DIR then (Inl EFAIL, s)
          else
            case (if whence = 0 then Some 0
                  else if whence = 1 then Some (uint (foffset (file_at s f)))
                  else if whence = 2 then Some (uint (isize (inode_at s r)))
                  else None) of
              None \<Rightarrow> (Inl EFAIL, s)
            | Some base \<Rightarrow>
                let target = base + sint offset in
                if target < 0 \<or> target > 0x7FFFFFFF then (Inl EFAIL, s)
                else (Inr (word_of_int target), upd_file f (\<lambda>x. x\<lparr>foffset := word_of_int target\<rparr>) s))"

definition vfs_truncate_file :: "nat \<Rightarrow> u32 \<Rightarrow> 'w vfs_state \<Rightarrow> unit result \<times> 'w vfs_state" where
  "vfs_truncate_file f len s =
     (case finode (file_at s f) of
        None \<Rightarrow> (Inl EFAIL, s)
      | Some r \<Rightarrow>
          if \<not> inode_ops (inode_at s r) then (Inl EFAIL, s)
          else
            case simplefs_resize_inode r len (fs s) of
              (Inl e, fs') \<Rightarrow> (Inl EFAIL, s\<lparr>fs := fs'\<rparr>)
            | (Inr _, fs') \<Rightarrow>
                (Inr (), upd_file f (\<lambda>x. if foffset x > len then x\<lparr>foffset := len\<rparr> else x) (s\<lparr>fs := fs'\<rparr>)))"


section \<open>Creating, removing, inspecting\<close>

text \<open>The checks of create, mkdir and unlink on the parent directory.\<close>

definition writable_parent :: "string \<Rightarrow> vfs_credentials option \<Rightarrow> 'w vfs_state \<Rightarrow> (nat \<times> string) option" where
  "writable_parent path cred s =
     (case vfs_resolve_parent path cred s of
        Inr (FsInode d, leaf) \<Rightarrow>
          if vfs_has_access (inode_at s (FsInode d)) cred (VFS_ACCESS_WRITE OR VFS_ACCESS_EXEC)
             \<and> inode_ops (inode_at s (FsInode d)) then Some (d, leaf) else None
      | _ \<Rightarrow> None)"

definition vfs_create_path ::
  "string \<Rightarrow> u32 \<Rightarrow> u32 \<Rightarrow> vfs_credentials option \<Rightarrow> 'w vfs_state \<Rightarrow> nat result \<times> 'w vfs_state" where
  "vfs_create_path path flags mode cred s =
     (if vfs_resolve_path path cred s \<noteq> None then (Inl EFAIL, s)
      else
        case writable_parent path cred s of
          None \<Rightarrow> (Inl EFAIL, s)
        | Some (d, leaf) \<Rightarrow>
           (case simplefs_create_child d leaf VFS_INODE_REG mode cred (fs s) of
              (Inl e, fs') \<Rightarrow> (Inl e, s\<lparr>fs := fs'\<rparr>)
            | (Inr i, fs') \<Rightarrow>
               (case vfs_open_inode (FsInode i) flags (s\<lparr>fs := fs'\<rparr>) of
                  (None, s1) \<Rightarrow> (Inl EFAIL, s1) | (Some f, s1) \<Rightarrow> (Inr f, s1))))"

definition vfs_mkdir_path :: "string \<Rightarrow> u32 \<Rightarrow> vfs_credentials option \<Rightarrow> 'w vfs_state \<Rightarrow> unit result \<times> 'w vfs_state" where
  "vfs_mkdir_path path mode cred s =
     (if vfs_resolve_path path cred s \<noteq> None then (Inl EFAIL, s)
      else
        case writable_parent path cred s of
          None \<Rightarrow> (Inl EFAIL, s)
        | Some (d, leaf) \<Rightarrow>
           (case simplefs_create_child d leaf VFS_INODE_DIR mode cred (fs s) of
              (Inl e, fs') \<Rightarrow> (Inl e, s\<lparr>fs := fs'\<rparr>) | (Inr i, fs') \<Rightarrow> (Inr (), s\<lparr>fs := fs'\<rparr>)))"

definition vfs_unlink_path :: "string \<Rightarrow> vfs_credentials option \<Rightarrow> 'w vfs_state \<Rightarrow> unit result \<times> 'w vfs_state" where
  "vfs_unlink_path path cred s =
     (if path = [] \<or> hd path \<noteq> CHR ''/'' \<or> tl path = [] then (Inl EFAIL, s)
      else
        case writable_parent path cred s of
          None \<Rightarrow> (Inl EFAIL, s)
        | Some (d, leaf) \<Rightarrow>
           (case vfs_resolve_path path cred s of
              None \<Rightarrow> (Inl EFAIL, s)
            | Some child \<Rightarrow>
                if imode (inode_at s (FsInode d)) AND VFS_MODE_ISVTX \<noteq> 0 \<and>
                   (case cred of None \<Rightarrow> False
                    | Some c \<Rightarrow> \<not> vfs_is_superuser cred \<and> cuid c \<noteq> iuid (inode_at s (FsInode d)) \<and>
                        cuid c \<noteq> iuid (inode_at s child))
                then (Inl EFAIL, s)
                else let (r, fs') = simplefs_remove_child d leaf (fs s) in (r, s\<lparr>fs := fs'\<rparr>)))"

definition vfs_access_path :: "string \<Rightarrow> vfs_credentials option \<Rightarrow> u32 \<Rightarrow> 'w vfs_state \<Rightarrow> unit result" where
  "vfs_access_path path cred access_mask s =
     (case vfs_resolve_path path cred s of
        None \<Rightarrow> Inl EFAIL
      | Some r \<Rightarrow> if vfs_has_access (inode_at s r) cred access_mask then Inr () else Inl EFAIL)"

record vfs_stat =
  st_kind :: inode_kind
  st_size :: u32
  st_child_count :: u32
  st_mode :: u32
  st_uid :: u32
  st_gid :: u32
  st_links :: u32

definition vfs_fill_stat :: "vfs_inode \<Rightarrow> vfs_stat" where
  "vfs_fill_stat inode =
     \<lparr>st_kind = kind inode, st_size = isize inode, st_child_count = child_count inode, st_mode = imode inode,
      st_uid = iuid inode, st_gid = igid inode, st_links = ilinks inode\<rparr>"

definition vfs_stat_path :: "string \<Rightarrow> vfs_credentials option \<Rightarrow> 'w vfs_state \<Rightarrow> vfs_stat result" where
  "vfs_stat_path path cred s =
     (case vfs_resolve_path path cred s of None \<Rightarrow> Inl EFAIL | Some r \<Rightarrow> Inr (vfs_fill_stat (inode_at s r)))"

record vfs_dirent_info =
  de_kind :: inode_kind
  de_size :: u32
  de_mode :: u32
  de_uid :: u32
  de_gid :: u32
  de_links :: u32
  de_name :: string

text \<open>\<open>Inr None\<close> is the value 1 of the code, the end of the directory.\<close>

definition vfs_readdir_path ::
  "string \<Rightarrow> vfs_credentials option \<Rightarrow> u32 \<Rightarrow> 'w vfs_state \<Rightarrow> vfs_dirent_info option result" where
  "vfs_readdir_path path cred index s =
     (case vfs_resolve_path path cred s of
        None \<Rightarrow> Inl EFAIL
      | Some r \<Rightarrow>
          let dir = inode_at s r in
          if kind dir \<noteq> VFS_INODE_DIR \<or> \<not> vfs_has_access dir cred VFS_ACCESS_READ then Inl EFAIL
          else if index \<ge> child_count dir then Inr None
          else
            let entry = child_entry (fs s) dir (unat index);
                v = (case entry of None \<Rightarrow> reset_vfs_inode | Some c \<Rightarrow> inode_at s c) in
            Inr (Some \<lparr>de_kind = kind v, de_size = isize v, de_mode = imode v, de_uid = iuid v, de_gid = igid v,
                       de_links = ilinks v,
                       de_name = take 31 (case entry_name (fs s) entry of None \<Rightarrow> [] | Some n \<Rightarrow> n)\<rparr>))"

section \<open>Descriptor tables\<close>

text \<open>A descriptor table maps the first \<open>fd_count\<close> numbers to open files.\<close>

type_synonym fd_table = "nat \<Rightarrow> nat option"

definition fd_table_clear :: "nat \<Rightarrow> fd_table \<Rightarrow> fd_table" where
  "fd_table_clear fd_count fds = (\<lambda>i. if i < fd_count then None else fds i)"

definition vfs_attach_stdio ::
  "nat \<Rightarrow> vfs_credentials option \<Rightarrow> fd_table \<Rightarrow> 'w vfs_state \<Rightarrow> unit result \<times> fd_table \<times> 'w vfs_state" where
  "vfs_attach_stdio fd_count cred fds s =
     (if fd_count < 3 then (Inl EFAIL, fds, s)
      else
        let fds1 = fd_table_clear fd_count fds in
        case vfs_open_path ''/dev/console'' VFS_O_RDONLY cred s of
          (Inl e, s1) \<Rightarrow> (Inl EFAIL, fds1, s1)
        | (Inr in_file, s1) \<Rightarrow>
           (case vfs_open_path ''/dev/console'' VFS_O_WRONLY cred s1 of
              (Inl e, s2) \<Rightarrow> (Inl EFAIL, fds1, vfs_close_file in_file s2)
            | (Inr out_file, s2) \<Rightarrow>
               (case vfs_open_path ''/dev/console'' VFS_O_WRONLY cred s2 of
                  (Inl e, s3) \<Rightarrow> (Inl EFAIL, fds1, vfs_close_file out_file (vfs_close_file in_file s3))
                | (Inr err_file, s3) \<Rightarrow>
                    (Inr (), fds1(0 := Some in_file, 1 := Some out_file, 2 := Some err_file), s3))))"

definition clone_fd :: "fd_table \<Rightarrow> nat \<Rightarrow> fd_table \<times> 'w vfs_state \<Rightarrow> fd_table \<times> 'w vfs_state" where
  "clone_fd source i p =
     ((fst p)(i := source i),
      case source i of None \<Rightarrow> snd p | Some f \<Rightarrow> upd_file f (\<lambda>x. x\<lparr>fref_count := fref_count x + 1\<rparr>) (snd p))"

definition vfs_clone_fds :: "nat \<Rightarrow> fd_table \<Rightarrow> fd_table \<Rightarrow> 'w vfs_state \<Rightarrow> fd_table \<times> 'w vfs_state" where
  "vfs_clone_fds fd_count destination source s =
     fold (clone_fd source) [0..<fd_count] (fd_table_clear fd_count destination, s)"

definition detach_fd :: "nat \<Rightarrow> fd_table \<times> 'w vfs_state \<Rightarrow> fd_table \<times> 'w vfs_state" where
  "detach_fd i p =
     (case fst p i of None \<Rightarrow> p | Some f \<Rightarrow> ((fst p)(i := None), vfs_release_file f (snd p)))"

definition vfs_detach_fds :: "nat \<Rightarrow> fd_table \<Rightarrow> 'w vfs_state \<Rightarrow> fd_table \<times> 'w vfs_state" where
  "vfs_detach_fds fd_count fds s = fold detach_fd [0..<fd_count] (fds, s)"

definition vfs_read_fd ::
  "input_devices list \<Rightarrow> fd_table \<Rightarrow> nat \<Rightarrow> nat \<Rightarrow> u32 \<Rightarrow> 'w vfs_state \<Rightarrow> u8 list result \<times> 'w vfs_state" where
  "vfs_read_fd devs fds fd_count fd len s =
     (if fd \<ge> fd_count then (Inl EFAIL, s)
      else case fds fd of None \<Rightarrow> (Inl EFAIL, s) | Some f \<Rightarrow> vfs_read_file devs f len s)"

definition vfs_write_fd :: "fd_table \<Rightarrow> nat \<Rightarrow> nat \<Rightarrow> u8 list \<Rightarrow> 'w vfs_state \<Rightarrow> u32 result \<times> 'w vfs_state" where
  "vfs_write_fd fds fd_count fd bytes s =
     (if fd \<ge> fd_count then (Inl EFAIL, s)
      else case fds fd of None \<Rightarrow> (Inl EFAIL, s) | Some f \<Rightarrow> vfs_write_file f bytes s)"

section \<open>Creating pipes\<close>

text \<open>\<open>mem\<close> is the zeroed memory \<open>kzalloc\<close> returned, by its address.\<close>

definition new_pipe :: vfs_pipe where
  "new_pipe = \<lparr>pinode = reset_vfs_inode\<lparr>iname := ''pipe'', kind := VFS_INODE_PIPE, ops := Some PipeOps, inode_ops := False,
      imode := 0x180\<rparr>, reader_count = 0, writer_count = 0, read_index = 0, write_index = 0, buffered = 0, pbuffer = (\<lambda>_. 0)\<rparr>"

definition vfs_create_pipe :: "nat option \<Rightarrow> 'w vfs_state \<Rightarrow> (nat \<times> nat) result \<times> 'w vfs_state" where
  "vfs_create_pipe mem s =
     (case mem of
        None \<Rightarrow> (Inl EFAIL, s)
      | Some a \<Rightarrow>
          let s1 = s\<lparr>pipes := (pipes s)(a := Some new_pipe)\<rparr> in
          case vfs_open_inode (PipeInode a) VFS_O_RDONLY s1 of
            (None, s2) \<Rightarrow> (Inl EFAIL, s2\<lparr>pipes := (pipes s2)(a := None)\<rparr>)
          | (Some read_file, s2) \<Rightarrow>
             (case vfs_open_inode (PipeInode a) VFS_O_WRONLY s2 of
                (None, s3) \<Rightarrow> (Inl EFAIL, vfs_close_file read_file s3)
              | (Some write_file, s3) \<Rightarrow>
                  (Inr (read_file, write_file), upd_pipe a (\<lambda>p. p\<lparr>reader_count := 1, writer_count := 1\<rparr>) s3)))"

definition vfs_file_is_pipe :: "nat \<Rightarrow> 'w vfs_state \<Rightarrow> bool" where
  "vfs_file_is_pipe f s = (case finode (file_at s f) of None \<Rightarrow> False | Some r \<Rightarrow> kind (inode_at s r) = VFS_INODE_PIPE)"

definition vfs_pipe_read :: "nat \<Rightarrow> u32 \<Rightarrow> 'w vfs_state \<Rightarrow> u8 list result \<times> 'w vfs_state" where
  "vfs_pipe_read f len s = pipe_inode_read f len s"

definition vfs_pipe_write :: "nat \<Rightarrow> u8 list \<Rightarrow> 'w vfs_state \<Rightarrow> u32 result \<times> 'w vfs_state" where
  "vfs_pipe_write f bytes s = pipe_inode_write f bytes s"


section \<open>Mounting the root\<close>

definition vfs_append_child :: "inode_ref \<Rightarrow> inode_ref \<Rightarrow> 'w vfs_state \<Rightarrow> unit result \<times> 'w vfs_state" where
  "vfs_append_child directory child s =
     (let dir = inode_at s directory in
      case children dir of
        None \<Rightarrow> (Inl EFAIL, s)
      | Some base \<Rightarrow>
          if kind dir \<noteq> VFS_INODE_DIR \<or> child_count dir \<ge> child_capacity dir then (Inl EFAIL, s)
          else (Inr (), upd_inode directory (\<lambda>v. v\<lparr>child_count := child_count v + 1\<rparr>)
                  (s\<lparr>fs := (fs s)\<lparr>runtime_dir_entries :=
                        (runtime_dir_entries (fs s))(base + unat (child_count dir) := Some child)\<rparr>\<rparr>)))"

definition vfs_mount_root :: "'w block_device \<Rightarrow> 'w vfs_state \<Rightarrow> inode_ref result \<times> 'w vfs_state" where
  "vfs_mount_root device s = (let (r, fs') = simplefs_mount device (fs s) in (r, s\<lparr>fs := fs'\<rparr>))"

definition vfs_ensure_disk_rootfs_device ::
  "'w driver \<Rightarrow> 'w driver \<Rightarrow> 'w vfs_state \<Rightarrow> 'w block_device result \<times> 'w vfs_state" where
  "vfs_ensure_disk_rootfs_device ahci_init ata_init s =
     (case storage_init ahci_init ata_init (storage s) (blocks s) of
        (Inl e, st, b) \<Rightarrow> (Inl EFAIL, s\<lparr>storage := st, blocks := b\<rparr>)
      | (Inr _, st, b) \<Rightarrow>
          let s1 = s\<lparr>storage := st, blocks := b\<rparr> in
          case storage_boot_partition_name st of
            None \<Rightarrow> (Inl EFAIL, s1)
          | Some partition_name \<Rightarrow>
             (case block_find partition_name b of
                Some d \<Rightarrow> (Inr d, s1)
              | None \<Rightarrow>
                 (case storage_boot_disk st of
                    None \<Rightarrow> (Inl EFAIL, s1)
                  | Some disk_device \<Rightarrow>
                     (case partition_register_rootfs disk_device partition_name (hw (fs s1)) b of
                        (Inl e, b2) \<Rightarrow> (Inl EFAIL, s1\<lparr>blocks := b2\<rparr>)
                      | (Inr _, b2) \<Rightarrow>
                         (case block_find partition_name b2 of
                            None \<Rightarrow> (Inl EFAIL, s1\<lparr>blocks := b2\<rparr>)
                          | Some d \<Rightarrow> (Inr d, s1\<lparr>blocks := b2\<rparr>))))))"

text \<open>A successful mount records the device and whether it can be written.\<close>

definition vfs_try_mount_disk_root :: "'w driver \<Rightarrow> 'w driver \<Rightarrow> 'w vfs_state \<Rightarrow> inode_ref result \<times> 'w vfs_state" where
  "vfs_try_mount_disk_root ahci_init ata_init s =
     bind_r (vfs_ensure_disk_rootfs_device ahci_init ata_init) (\<lambda>d.
     bind_r (vfs_mount_root d) (\<lambda>r s.
       (Inr r, s\<lparr>root_writable := (if read_only d = 0 then 1 else 0), root_device := Some d\<rparr>))) s"

definition vfs_try_mount_ramdisk_root ::
  "(u32 \<Rightarrow> string) \<Rightarrow> (u32 \<Rightarrow> u8) \<Rightarrow> multiboot_info \<Rightarrow> 'w vfs_state \<Rightarrow> inode_ref result \<times> 'w vfs_state" where
  "vfs_try_mount_ramdisk_root text_at mem mb s =
     (case ramdisk_register_rootfs text_at mem mb ''rootfs0'' (blocks s) of
        (Inl e, b) \<Rightarrow> (Inl EFAIL, s\<lparr>blocks := b\<rparr>)
      | (Inr _, b) \<Rightarrow>
         (case block_find ''rootfs0'' b of
            None \<Rightarrow> (Inl EFAIL, s\<lparr>blocks := b\<rparr>)
          | Some d \<Rightarrow>
              bind_r (vfs_mount_root d) (\<lambda>r s. (Inr r, s\<lparr>root_writable := 0, root_device := Some d\<rparr>)) (s\<lparr>blocks := b\<rparr>)))"

text \<open>The mount the root policy asks for.\<close>

definition mount_by_policy ::
  "'w driver \<Rightarrow> 'w driver \<Rightarrow> (u32 \<Rightarrow> string) \<Rightarrow> (u32 \<Rightarrow> u8) \<Rightarrow> multiboot_info \<Rightarrow> 'w vfs_state \<Rightarrow> inode_ref result \<times> 'w vfs_state" where
  "mount_by_policy ahci_init ata_init text_at mem mb s =
     (case bootinfo_root_policy (bootinfo s) of
        BOOT_ROOT_DISK \<Rightarrow> vfs_try_mount_disk_root ahci_init ata_init s
      | BOOT_ROOT_RAMDISK \<Rightarrow> vfs_try_mount_ramdisk_root text_at mem mb s
      | BOOT_ROOT_AUTO \<Rightarrow>
         (case vfs_try_mount_disk_root ahci_init ata_init s of
            (Inr r, s1) \<Rightarrow> (Inr r, s1)
          | (Inl e, s1) \<Rightarrow> vfs_try_mount_ramdisk_root text_at mem mb s1))"

text \<open>\<open>table_ok\<close> tells whether the heap has room for the file table on the first call.\<close>

definition vfs_init ::
  "'w driver \<Rightarrow> 'w driver \<Rightarrow> (u32 \<Rightarrow> string) \<Rightarrow> (u32 \<Rightarrow> u8) \<Rightarrow> multiboot_info \<Rightarrow> bool \<Rightarrow> 'w vfs_state \<Rightarrow> 'w vfs_state" where
  "vfs_init ahci_init ata_init text_at mem mb table_ok s =
     (let s1 = s\<lparr>root_inode := None, root_writable := 0, root_device := None\<rparr> in
      if file_table s1 = None \<and> \<not> table_ok then s1
      else
        let s2 = s1\<lparr>file_table := Some (\<lambda>_. zero_file), blocks := block_init\<rparr> in
        case mount_by_policy ahci_init ata_init text_at mem mb s2 of
          (Inl e, s3) \<Rightarrow> s3\<lparr>root_inode := None\<rparr>
        | (Inr r, s3) \<Rightarrow>
            let s4 = s3\<lparr>root_inode := Some r, console_inode := (console_inode s3)\<lparr>iref_count := 0\<rparr>,
                        tty_inode := (tty_inode s3)\<lparr>iref_count := 0\<rparr>\<rparr> in
            case vfs_resolve_path ''/dev'' None s4 of
              None \<Rightarrow> s4\<lparr>root_inode := None\<rparr>
            | Some dev_directory \<Rightarrow>
               (case vfs_append_child dev_directory ConsoleInode s4 of
                  (Inl e, s5) \<Rightarrow> s5\<lparr>root_inode := None\<rparr>
                | (Inr _, s5) \<Rightarrow>
                   (case vfs_append_child dev_directory TtyInode s5 of
                      (Inl e, s6) \<Rightarrow> s6\<lparr>root_inode := None\<rparr>
                    | (Inr _, s6) \<Rightarrow> s6)))"

definition vfs_root_writable :: "'w vfs_state \<Rightarrow> u32" where
  "vfs_root_writable s = root_writable s"

section \<open>Recovery and the boot counter\<close>

text \<open>Copying the root image to the disk in chunks of eight blocks.\<close>

abbreviation VFS_REINSTALL_CHUNK_BLOCKS :: nat where "VFS_REINSTALL_CHUNK_BLOCKS \<equiv> 8"

function reinstall_loop :: "'w block_device \<Rightarrow> 'w block_device \<Rightarrow> nat \<Rightarrow> 'w \<Rightarrow> unit result \<times> 'w" where
  "reinstall_loop source destination index w =
     (if index \<ge> unat (block_count source) then (Inr (), w)
      else
        let chunk = min (unat (block_count source) - index) VFS_REINSTALL_CHUNK_BLOCKS in
        case block_read source (of_nat index) (of_nat chunk) w of
          Inl e \<Rightarrow> (Inl EFAIL, w)
        | Inr bytes \<Rightarrow>
           (case block_write destination (of_nat index) (of_nat chunk) bytes w of
              (Inl e, w1) \<Rightarrow> (Inl EFAIL, w1)
            | (Inr _, w1) \<Rightarrow> reinstall_loop source destination (index + VFS_REINSTALL_CHUNK_BLOCKS) w1))"
  by auto

termination
  by (relation "measure (\<lambda>(source, destination, index, w). unat (block_count source) - index)") auto

declare reinstall_loop.simps [simp del]

text \<open>Devices are compared by name: the registry holds one device of a name.\<close>

definition vfs_reinstall_rootfs :: "'w driver \<Rightarrow> 'w driver \<Rightarrow> bool \<Rightarrow> 'w vfs_state \<Rightarrow> unit result \<times> 'w vfs_state" where
  "vfs_reinstall_rootfs ahci_init ata_init buffer_ok s =
     (if \<not> bootinfo_recovery_enabled (bootinfo s) then (Inl EFAIL, s)
      else
        case block_find ''rootfs0'' (blocks s) of
          None \<Rightarrow> (Inl EFAIL, s)
        | Some source \<Rightarrow>
            if map_option dev_name (root_device s) \<noteq> Some (dev_name source) then (Inl EFAIL, s)
            else
              case vfs_ensure_disk_rootfs_device ahci_init ata_init s of
                (Inl e, s1) \<Rightarrow> (Inl EFAIL, s1)
              | (Inr destination, s1) \<Rightarrow>
                  if read_only destination \<noteq> 0 \<or> block_size source \<noteq> block_size destination
                     \<or> block_count source \<noteq> block_count destination then (Inl EFAIL, s1)
                  else if \<not> buffer_ok then (Inl EFAIL, s1)
                  else let (r, w) = reinstall_loop source destination 0 (hw (fs s1)) in (r, s1\<lparr>fs := (fs s1)\<lparr>hw := w\<rparr>\<rparr>))"

definition bootcount_update :: "nat \<Rightarrow> 'w vfs_state \<Rightarrow> unit result \<times> 'w vfs_state" where
  "bootcount_update f s =
     (case vfs_read_file [] f 8 s of
        (Inl e, s1) \<Rightarrow> (Inl EFAIL, vfs_close_file f s1)
      | (Inr bytes, s1) \<Rightarrow>
          let bootcount = (if bytes \<noteq> [] then parse_hex32 (map byte_char bytes) else 0) + 1 in
          case vfs_truncate_file f 0 s1 of
            (Inl e, s2) \<Rightarrow> (Inl EFAIL, vfs_close_file f s2)
          | (Inr _, s2) \<Rightarrow>
             (case vfs_write_file f (text_bytes (format_hex32 bootcount)) (vfs_rewind_file f s2) of
                (Inl e, s3) \<Rightarrow> (Inl EFAIL, vfs_close_file f s3)
              | (Inr n, s3) \<Rightarrow> (if n = 8 then Inr () else Inl EFAIL, vfs_close_file f s3)))"

definition vfs_storage_selftest :: "'w vfs_state \<Rightarrow> unit result \<times> 'w vfs_state" where
  "vfs_storage_selftest s =
     (if root_writable s = 0 then (Inr (), s)
      else
        case vfs_open_path ''/var/bootcount'' VFS_O_RDWR None s of
          (Inr f, s1) \<Rightarrow> bootcount_update f s1
        | (Inl e, s1) \<Rightarrow>
           (case vfs_create_path ''/var/bootcount'' VFS_O_RDWR VFS_MODE_FILE_DEFAULT None s1 of
              (Inl e, s2) \<Rightarrow> (Inl e, s2)
            | (Inr f, s2) \<Rightarrow> bootcount_update f s2))"

end
