(* ===== verification/Vfs_Path.thy ===== *)
theory Vfs_Path
  imports Vfs Simplefs_File
begin

text \<open>
  Permissions and paths of \<^verbatim>\<open>vfs.c\<close>: the access check is the usual three bits of the mode, and
  resolving a path is walking the list of its components through directories that may be searched.
\<close>

section \<open>Permissions\<close>

text \<open>The three bits of the owner, the group or the others.\<close>

definition user_class :: "vfs_inode \<Rightarrow> vfs_credentials \<Rightarrow> nat" where
  "user_class inode c = (if cuid c = iuid inode then 2 else if cgid c = igid inode then 1 else 0)"

lemma mask_bit: "(m :: u32) AND 2 ^ n \<noteq> 0 \<longleftrightarrow> bit m n"
  using mask_test [of m n] by (simp add: push_bit_eq_mult)

lemma class_access_shift:
  assumes "k < 30"
  shows "class_access mode (2 ^ (k + 2)) (2 ^ (k + 1)) (2 ^ k) = drop_bit k mode AND 7"
proof (rule bit_word_eqI)
  fix n assume n: "n < LENGTH(32)"
  have e: "(7 :: u32) = mask 3" "(4 :: u32) = push_bit 2 1" "(2 :: u32) = push_bit 1 1"
    by (simp_all add: mask_eq_exp_minus_1)
  have b7: "bit (7 :: u32) n \<longleftrightarrow> n < 3" unfolding e bit_mask_iff using n by auto
  have b4: "bit (4 :: u32) n \<longleftrightarrow> n = 2" unfolding e bit_push_bit_iff bit_1_iff using n by auto
  have b2: "bit (2 :: u32) n \<longleftrightarrow> n = 1" unfolding e bit_push_bit_iff bit_1_iff using n by auto
  have b1: "bit (1 :: u32) n \<longleftrightarrow> n = 0" by (simp add: bit_1_iff)
  have z: "\<not> bit (0 :: u32) n" by simp
  have cases3: "n < 3 \<longleftrightarrow> n = 0 \<or> n = 1 \<or> n = 2" by linarith
  show "bit (class_access mode (2 ^ (k + 2)) (2 ^ (k + 1)) (2 ^ k)) n = bit (drop_bit k mode AND 7) n"
    unfolding class_access_def mask_bit bit_or_iff bit_and_iff b7 bit_drop_bit_eq comp_def
    using z b4 b2 b1 unfolding cases3 by (auto simp: add.commute)
qed

text \<open>
  C27. The access check is the usual one: the superuser may do everything; for anybody else exactly one class
  of mode bits counts, that of the owner, else of the group, else of the others, and the mask is these
  three bits.
\<close>

theorem vfs_allowed_access_bits:
  "vfs_allowed_access inode None = 7 \<and>
   vfs_allowed_access inode (Some c) =
     (if cuid c = 0 then 7 else drop_bit (3 * user_class inode c) (imode inode) AND 7)"
  using class_access_shift [of 6 "imode inode"] class_access_shift [of 3 "imode inode"] class_access_shift [of 0 "imode inode"]
  by (simp add: vfs_allowed_access_def vfs_is_superuser_def user_class_def)

section \<open>Walking a path\<close>

fun split_slash :: "string \<Rightarrow> string list" where
  "split_slash [] = [[]]"
| "split_slash (c # cs) =
     (if c = CHR ''/'' then [] # split_slash cs
      else case split_slash cs of [] \<Rightarrow> [[c]] | x # xs \<Rightarrow> (c # x) # xs)"

definition components :: "string \<Rightarrow> string list" where
  "components path = filter (\<lambda>c. c \<noteq> []) (split_slash path)"

fun walk :: "'w vfs_state \<Rightarrow> vfs_credentials option \<Rightarrow> inode_ref \<Rightarrow> string list \<Rightarrow> inode_ref option" where
  "walk s cred current [] = Some current"
| "walk s cred current (c # cs) =
     (if kind (inode_at s current) = VFS_INODE_DIR \<and> vfs_has_access (inode_at s current) cred VFS_ACCESS_EXEC
         \<and> length c < VFS_NAME_MAX
      then (case find_entry s (inode_at s current) c of None \<Rightarrow> None | Some next \<Rightarrow> walk s cred next cs)
      else None)"

lemma walk_append:
  "walk s cred current (cs @ ds) = (case walk s cred current cs of None \<Rightarrow> None | Some d \<Rightarrow> walk s cred d ds)"
  by (induction cs arbitrary: current) (auto split: option.splits)

lemma split_slash_unfold:
  "split_slash p = takeWhile (\<lambda>c. c \<noteq> CHR ''/'') p # (case dropWhile (\<lambda>c. c \<noteq> CHR ''/'') p of [] \<Rightarrow> [] | _ # r \<Rightarrow> split_slash r)"
  by (induction p) auto

lemma components_slash [simp]: "components (CHR ''/'' # p) = components p"
  by (simp add: components_def)

lemma components_Nil [simp]: "components [] = []"
  by (simp add: components_def)

lemma components_skip: "components (skip_slashes p) = components p"
  by (induction p) (auto simp: skip_slashes_def)

lemma components_unfold:
  assumes "p \<noteq> []" "hd p \<noteq> CHR ''/''"
  shows "components p = takeWhile (\<lambda>c. c \<noteq> CHR ''/'') p # components (dropWhile (\<lambda>c. c \<noteq> CHR ''/'') p)"
proof -
  have "takeWhile (\<lambda>c. c \<noteq> CHR ''/'') p \<noteq> []" using assms by (cases p) auto
  moreover have "components (dropWhile (\<lambda>c. c \<noteq> CHR ''/'') p) =
      filter (\<lambda>c. c \<noteq> []) (case dropWhile (\<lambda>c. c \<noteq> CHR ''/'') p of [] \<Rightarrow> [] | _ # r \<Rightarrow> split_slash r)"
  proof (cases "dropWhile (\<lambda>c. c \<noteq> CHR ''/'') p")
    case (Cons a r)
    then have "a = CHR ''/''" using hd_dropWhile [of "\<lambda>c. c \<noteq> CHR ''/''" p] by simp
    then show ?thesis using Cons by (simp add: components_def)
  next
    case Nil
    show ?thesis unfolding Nil by simp
  qed
  ultimately show ?thesis by (subst components_def, subst split_slash_unfold) simp
qed

lemma skip_slashes_hd: "skip_slashes p \<noteq> [] \<Longrightarrow> hd (skip_slashes p) \<noteq> CHR ''/''"
  unfolding skip_slashes_def by (rule hd_dropWhile)

lemma resolve_loop_walk:
  "(cursor \<noteq> [] \<longrightarrow> hd cursor \<noteq> CHR ''/'') \<Longrightarrow> resolve_loop s cred current cursor = walk s cred current (components cursor)"
proof (induction s cred current cursor rule: resolve_loop.induct)
  case (1 s cred current cursor)
  show ?case
  proof (cases "cursor = []")
    case False
    let ?c = "takeWhile (\<lambda>c. c \<noteq> CHR ''/'') cursor" and ?r = "skip_slashes (dropWhile (\<lambda>c. c \<noteq> CHR ''/'') cursor)"
    have c: "components cursor = ?c # components ?r"
      using components_unfold [of cursor] False 1(2) components_skip by simp
    show ?thesis
      unfolding c using 1(1) [of ?c] False skip_slashes_hd
      by (subst resolve_loop.simps) (auto simp: Let_def split: option.splits)
  qed (simp add: resolve_loop.simps)
qed

text \<open>
  C25. Resolving an absolute path is walking its components from the root: empty components are skipped, each
  step goes through a directory that may be searched and takes the first entry of the name, and a
  component of 32 or more characters is refused.
\<close>

theorem vfs_resolve_path_walk:
  assumes "root_inode s = Some root"
  shows "vfs_resolve_path path cred s = (if path \<noteq> [] \<and> hd path = CHR ''/'' then walk s cred root (components path) else None)"
  using assms resolve_loop_walk [of "skip_slashes path" s cred root] skip_slashes_hd [of path]
  by (auto simp: vfs_resolve_path_def components_skip)

text \<open>A root directory with the directory \<^verbatim>\<open>dev\<close>, which holds the two console devices.\<close>

definition sample_dir :: "string \<Rightarrow> nat \<Rightarrow> u32 \<Rightarrow> simplefs_runtime_inode" where
  "sample_dir name base n = (sample_node SIMPLEFS_INODE_DIR 0 0 0)\<lparr>populated := True, dir_slot_base := of_nat base,
     vfs := reset_vfs_inode\<lparr>iname := name, kind := VFS_INODE_DIR, children := Some base, child_count := n,
       child_capacity := 32, imode := 0x1ED, ilinks := 1\<rparr>\<rparr>"

definition sample_vfs :: "(nat \<Rightarrow> u8 list) vfs_state" where
  "sample_vfs = \<lparr>fs = sample_fs\<lparr>runtime_inodes := (\<lambda>i. if i = 0 then sample_dir ''/'' 0 1 else sample_dir ''dev'' 32 2),
       runtime_dir_entries := (\<lambda>k. if k = 0 then Some (FsInode 1) else if k = 32 then Some ConsoleInode
         else if k = 33 then Some TtyInode else None)\<rparr>,
     blocks = block_init, storage = \<lparr>boot_disk = None, boot_partition_name = None, storage_initialized = True\<rparr>,
     bootinfo = \<lparr>root_policy_value = BOOT_ROOT_AUTO, boot_flags_value = 0, framebuffer_info_value = None\<rparr>,
     root_inode = Some (FsInode 0), root_writable = 1, root_device = Some (memory_disk 64),
     console_inode = device_inode ''console'', tty_inode = device_inode ''tty'', pipes = (\<lambda>_. None),
     file_table = Some (\<lambda>_. zero_file),
     inp = \<lparr>input_queue = (\<lambda>_. CHR 0x00), input_queue_read_index = 0, input_queue_write_index = 0, input_queue_buffered = 0,
       input_backends = 0, i8042_shift = False, i8042_caps_lock = False, i8042_extended_prefix = False\<rparr>,
     con_out = []\<rparr>"

theorem vfs_resolve_path_walk_witness:
  "vfs_resolve_path ''/dev//console'' None sample_vfs = Some ConsoleInode"
proof -
  have "root_inode sample_vfs = Some (FsInode 0)" by (simp add: sample_vfs_def)
  moreover have "walk sample_vfs None (FsInode 0) (components ''/dev//console'') = Some ConsoleInode" by code_simp
  ultimately show ?thesis using vfs_resolve_path_walk [of sample_vfs "FsInode 0" "''/dev//console''" None] by simp
qed

section \<open>The parent of a path\<close>

lemma split_slash_ne [simp]: "split_slash p \<noteq> []"
  by (induction p) (auto split: list.splits)

lemma split_slash_append: "split_slash (p @ CHR ''/'' # q) = split_slash p @ split_slash q"
proof (induction p)
  case (Cons c p)
  then show ?case by (cases "split_slash p") (auto split: list.splits)
qed simp

lemma components_append: "components (p @ CHR ''/'' # q) = components p @ components q"
  by (simp add: components_def split_slash_append)

lemma components_leaf: "CHR ''/'' \<notin> set q \<Longrightarrow> q \<noteq> [] \<Longrightarrow> components q = [q]"
proof -
  assume q: "CHR ''/'' \<notin> set q" "q \<noteq> []"
  have "takeWhile (\<lambda>c. c \<noteq> CHR ''/'') q = q" using q(1) by (auto simp: takeWhile_eq_all_conv)
  moreover have dw: "dropWhile (\<lambda>c. c \<noteq> CHR ''/'') q = []" using q(1) by auto
  moreover have "hd q \<noteq> CHR ''/''" using q by (metis hd_in_set)
  ultimately show ?thesis using components_unfold [of q] q(2) unfolding dw by simp
qed

lemma split_path_components:
  assumes "split_path path = (parent, leaf)" "path \<noteq> []" "hd path = CHR ''/''" "leaf \<noteq> []"
  shows "components path = components parent @ [leaf]" "hd parent = CHR ''/''" "parent \<noteq> []" "CHR ''/'' \<notin> set leaf"
proof -
  let ?l = "rev (takeWhile (\<lambda>c. c \<noteq> CHR ''/'') (rev path))"
  have leaf: "leaf = ?l" using assms(1) by (simp add: split_path_def Let_def)
  show ns: "CHR ''/'' \<notin> set leaf" unfolding leaf by (auto dest: set_takeWhileD)
  obtain q where q: "path = q @ CHR ''/'' # leaf"
  proof -
    have "CHR ''/'' \<in> set (rev path)" using assms(2,3) by (cases path) auto
    then have "dropWhile (\<lambda>c. c \<noteq> CHR ''/'') (rev path) \<noteq> []" by auto
    then obtain a r where ar: "dropWhile (\<lambda>c. c \<noteq> CHR ''/'') (rev path) = a # r" by (meson list.exhaust)
    then have "a = CHR ''/''" using hd_dropWhile [of "\<lambda>c. c \<noteq> CHR ''/''" "rev path"] by simp
    then have "rev path = rev leaf @ CHR ''/'' # r"
      using takeWhile_dropWhile_id [of "\<lambda>c. c \<noteq> CHR ''/''" "rev path"] ar leaf by simp
    then have "path = rev r @ CHR ''/'' # leaf" by (metis append.assoc append_Cons append_Nil rev.simps(2) rev_append rev_rev_ident)
    then show ?thesis by (rule that)
  qed
  have p: "parent = (if q = [] then ''/'' else q)"
  proof -
    have "take (length path - length leaf - 1) path = q" unfolding q by simp
    then show ?thesis using assms(1) unfolding split_path_def Let_def leaf [symmetric] by (auto split: if_splits)
  qed
  show "parent \<noteq> []" unfolding p by simp
  show "hd parent = CHR ''/''" unfolding p using assms(3) q by (cases q) auto
  show "components path = components parent @ [leaf]"
    unfolding q components_append p using components_leaf [OF ns assms(4)] by simp
qed

lemma resolve_parent_leaf:
  assumes root: "root_inode s = Some root" and r: "vfs_resolve_parent path cred s = Inr (d, leaf)"
  shows "vfs_resolve_path path cred s = walk s cred d [leaf]" "kind (inode_at s d) = VFS_INODE_DIR"
proof -
  obtain parent where sp: "split_path path = (parent, leaf)" "path \<noteq> []" "hd path = CHR ''/''" "leaf \<noteq> []"
      "vfs_resolve_path parent cred s = Some d" and k: "kind (inode_at s d) = VFS_INODE_DIR"
    using r by (auto simp: vfs_resolve_parent_def Let_def split: if_splits prod.splits option.splits)
  note c = split_path_components [OF sp(1-4)]
  have w: "vfs_resolve_path p cred s = walk s cred root (components p)" if "p \<noteq> []" "hd p = CHR ''/''" for p
    using resolve_loop_walk [of "skip_slashes p" s cred root] skip_slashes_hd [of p] root that
    by (auto simp: vfs_resolve_path_def components_skip)
  show "vfs_resolve_path path cred s = walk s cred d [leaf]"
  proof -
    have "walk s cred root (components parent) = Some d" using w [OF c(3,2)] sp(5) by simp
    then show ?thesis unfolding w [OF sp(2,3)] c(1) walk_append by simp
  qed
  show "kind (inode_at s d) = VFS_INODE_DIR" by (rule k)
qed

text \<open>The user \<open>c\<close> may remove the entry \<open>leaf\<close> with the inode \<open>child\<close> from the directory \<open>dir\<close>.\<close>

definition may_remove :: "vfs_credentials \<Rightarrow> vfs_inode \<Rightarrow> vfs_inode \<Rightarrow> bool" where
  "may_remove c dir child \<longleftrightarrow> vfs_has_access dir (Some c) (VFS_ACCESS_WRITE OR VFS_ACCESS_EXEC) \<and>
     (imode dir AND VFS_MODE_ISVTX \<noteq> 0 \<longrightarrow> cuid c = iuid dir \<or> cuid c = iuid child)"

text \<open>
  C26. Who may remove a file. An unlink by a user other than the superuser fails without any change unless the
  path names an entry of a directory in which the user may write and search, and, when that directory is
  sticky, the user owns the directory or the file.
\<close>

theorem vfs_unlink_denied:
  assumes root: "root_inode s = Some root" and user: "cuid c \<noteq> 0"
    and denied: "\<forall>d leaf child. vfs_resolve_parent path (Some c) s = Inr (FsInode d, leaf) \<and>
        find_entry s (inode_at s (FsInode d)) leaf = Some child \<longrightarrow> \<not> may_remove c (inode_at s (FsInode d)) (inode_at s child)"
  shows "vfs_unlink_path path (Some c) s = (Inl EFAIL, s)"
proof (cases "writable_parent path (Some c) s")
  case (Some p)
  obtain d leaf where p: "p = (d, leaf)" by force
  have rp: "vfs_resolve_parent path (Some c) s = Inr (FsInode d, leaf)"
    and ac: "vfs_has_access (inode_at s (FsInode d)) (Some c) (VFS_ACCESS_WRITE OR VFS_ACCESS_EXEC)"
    using Some by (auto simp: p writable_parent_def split: sum.splits prod.splits inode_ref.splits if_splits)
  show ?thesis
  proof (cases "vfs_resolve_path path (Some c) s")
    case ch: (Some child)
    then have "find_entry s (inode_at s (FsInode d)) leaf = Some child"
      using resolve_parent_leaf(1) [OF root rp] by (auto split: if_splits option.splits)
    then have "\<not> may_remove c (inode_at s (FsInode d)) (inode_at s child)" using denied rp by blast
    then show ?thesis using Some ch ac user by (simp add: vfs_unlink_path_def p vfs_is_superuser_def may_remove_def)
  qed (use Some in \<open>simp add: vfs_unlink_path_def p\<close>)
qed (simp add: vfs_unlink_path_def)

theorem vfs_unlink_denied_witness:
  "vfs_unlink_path ''/dev'' (Some \<lparr>cuid = 5, cgid = 5\<rparr>) sample_vfs = (Inl EFAIL, sample_vfs)"
proof -
  let ?c = "\<lparr>cuid = 5, cgid = 5\<rparr> :: vfs_credentials"
  have e: "vfs_resolve_parent ''/dev'' (Some ?c) sample_vfs = Inr (FsInode 0, ''dev'') \<and>
      \<not> vfs_has_access (inode_at sample_vfs (FsInode 0)) (Some ?c) (VFS_ACCESS_WRITE OR VFS_ACCESS_EXEC)" by code_simp
  have "root_inode sample_vfs = Some (FsInode 0)" "cuid ?c \<noteq> 0" by (simp_all add: sample_vfs_def)
  then show ?thesis
    by (rule vfs_unlink_denied [where c = ?c]) (use e in \<open>auto simp: may_remove_def\<close>)
qed

end
