(* ===== verification/Vfs_Files.thy ===== *)
theory Vfs_Files
  imports Vfs_Path
begin

text \<open>
  Open files of \<^verbatim>\<open>vfs.c\<close>: a pipe is a first-in first-out queue of 1024 bytes, the reference counts of
  the inodes and the pipe ends agree with the file table in every reachable state, positions stay in range, and
  the boot counter's number format can be read back.
\<close>

section \<open>Pipes as queues\<close>

definition pipe_ok :: "vfs_pipe \<Rightarrow> bool" where
  "pipe_ok p \<longleftrightarrow> unat (read_index p) < 1024 \<and> unat (buffered p) \<le> 1024 \<and>
     unat (write_index p) = (unat (read_index p) + unat (buffered p)) mod 1024"

lemma pipe_ok_counters [simp]:
  "pipe_ok (p\<lparr>pinode := v\<rparr>) = pipe_ok p" "pipe_ok (p\<lparr>reader_count := n\<rparr>) = pipe_ok p" "pipe_ok (p\<lparr>writer_count := n\<rparr>) = pipe_ok p"
  by (simp_all add: pipe_ok_def)

definition pipe_bytes :: "vfs_pipe \<Rightarrow> u8 list" where
  "pipe_bytes p = ring 1024 (pbuffer p) (unat (read_index p)) (unat (buffered p))"

interpretation pipe_q: bounded_queue pipe_ok pipe_bytes pipe_push pipe_pop 1024
proof
  fix p x p'
  assume ok: "pipe_ok p"
  show "length (pipe_bytes p) \<le> 1024" using ok by (simp add: pipe_bytes_def pipe_ok_def)
  show "pipe_bytes (pipe_push x p) = (if length (pipe_bytes p) < 1024 then pipe_bytes p @ [x] else pipe_bytes p)"
    using ok ring_push [of "unat (buffered p)" 1024 "pbuffer p" "unat (read_index p)" x]
    by (auto simp: pipe_push_def pipe_bytes_def pipe_ok_def word_less_nat_alt unat_Suc_u32)
  show "pipe_ok (pipe_push x p)"
    using ok unat_Suc_mod [of 1024 "write_index p"]
    by (auto simp: pipe_push_def pipe_ok_def word_less_nat_alt unat_Suc_u32 mod_simps)
  show "pipe_pop p = None \<longleftrightarrow> pipe_bytes p = []"
    by (simp add: pipe_pop_def pipe_bytes_def ring_Nil unat_eq_zero)
  assume pop: "pipe_pop p = Some (x, p')"
  then have b: "buffered p \<noteq> 0" and p': "x = pbuffer p (unat (read_index p))"
    "p' = p\<lparr>read_index := (read_index p + 1) mod 1024, buffered := buffered p - 1\<rparr>"
    by (auto simp: pipe_pop_def split: if_splits)
  have n: "unat (buffered p) = Suc (unat (buffered p - 1))"
    using b unat_minus_1 [OF b] by (simp add: unat_gt_0)
  have r: "unat ((read_index p + 1) mod 1024) = (unat (read_index p) + 1) mod 1024"
    using ok unat_Suc_mod [of 1024 "read_index p"] by (simp add: pipe_ok_def)
  show "pipe_bytes p = x # pipe_bytes p'"
    unfolding pipe_bytes_def n ring_pop using ok by (simp add: p' r pipe_ok_def)
  show "pipe_ok p'"
    using ok n r unfolding pipe_ok_def by (simp add: p' mod_simps)
qed

lemma pipe_read_loop_drain: "pipe_read_loop n copied p = (let (bs, p') = drain pipe_pop n p in (copied @ bs, p'))"
  by (induction n arbitrary: copied p) (auto simp: Let_def split: option.splits prod.splits)

lemma pipe_read_loop_bytes:
  assumes "pipe_ok p" "pipe_read_loop n [] p = (bs, p')"
  shows "bs = take n (pipe_bytes p)" "pipe_bytes p' = drop n (pipe_bytes p)" "pipe_ok p'"
  using pipe_q.drain_take [OF assms(1), of n "fst (drain pipe_pop n p)" "snd (drain pipe_pop n p)"] assms(2)
  by (auto simp: pipe_read_loop_drain split: prod.splits)

lemma pipe_read_loop_ends:
  "pipe_read_loop n copied p = (bs, p') \<Longrightarrow> writer_count p' = writer_count p \<and> reader_count p' = reader_count p \<and> pinode p' = pinode p"
  by (induction n arbitrary: copied p) (auto simp: pipe_pop_def split: option.splits if_splits)

lemma pipe_push_full: "\<not> buffered p < 1024 \<Longrightarrow> pipe_push x p = p"
  by (simp add: pipe_push_def)

lemma pipe_write_loop_fold:
  assumes "pipe_ok p"
  shows "pipe_write_loop bs w p = (w + min (length bs) (1024 - length (pipe_bytes p)), fold pipe_push bs p)"
  using assms
proof (induction bs arbitrary: w p)
  case (Cons b bs)
  have l: "length (pipe_bytes p) = unat (buffered p)" by (simp add: pipe_bytes_def)
  show ?case
  proof (cases "buffered p < 1024")
    case True
    then have "unat (buffered p) < 1024" by (simp add: word_less_nat_alt)
    then show ?thesis
      using True Cons.IH [OF pipe_q.ok_push [OF Cons.prems]] pipe_q.elems_push [OF Cons.prems, of b] l by simp
  next
    case False
    then have "fold pipe_push xs p = p" for xs by (induction xs) (simp_all add: pipe_push_full)
    moreover have "unat (buffered p) \<ge> 1024" using False by (simp add: word_less_nat_alt)
    ultimately show ?thesis using False l pipe_push_full by simp
  qed
qed simp

lemma fold_pipe_push_ends:
  "writer_count (fold pipe_push bs p) = writer_count p \<and> reader_count (fold pipe_push bs p) = reader_count p \<and> pinode (fold pipe_push bs p) = pinode p"
  by (induction bs arbitrary: p) (auto simp: pipe_push_def)

text \<open>
  C29. Reading a pipe through its read end takes the oldest bytes, at most as many as asked for. An empty pipe
  gives no bytes once every writer is gone and tells the reader to wait while there is one; nothing else changes.
\<close>

theorem pipe_inode_read_fifo:
  assumes open_end: "finode (file_at s f) = Some (PipeInode a)" "fflags (file_at s f) AND VFS_O_RDONLY \<noteq> 0"
    and pipe: "pipes s a = Some p" "pipe_ok p"
  shows "\<exists>p'. pipe_inode_read f len s =
      (if take (unat len) (pipe_bytes p) \<noteq> [] then Inr (take (unat len) (pipe_bytes p))
       else if writer_count p = 0 then Inr [] else Inl EWOULDBLOCK, s\<lparr>pipes := (pipes s)(a := Some p')\<rparr>) \<and>
    pipe_ok p' \<and> pipe_bytes p' = drop (unat len) (pipe_bytes p) \<and> reader_count p' = reader_count p \<and> writer_count p' = writer_count p"
proof -
  obtain bs p' where r: "pipe_read_loop (unat len) [] p = (bs, p')" by force
  note b = pipe_read_loop_bytes [OF pipe(2) r] and e = pipe_read_loop_ends [OF r]
  have "pipe_inode_read f len s = (if bs \<noteq> [] then Inr bs else if writer_count p' = 0 then Inr [] else Inl EWOULDBLOCK,
      s\<lparr>pipes := (pipes s)(a := Some p')\<rparr>)"
    using open_end pipe r by (simp add: pipe_inode_read_def vfs_pipe_from_file_def upd_pipe_def Let_def)
  then show ?thesis using b e by (intro exI [of _ p']) simp
qed

text \<open>
  C30. Writing a pipe through its write end, while a reader has it open, appends as many bytes as fit and returns
  their number; when not a single byte fits it tells the writer to wait.
\<close>

theorem pipe_inode_write_fifo:
  fixes bytes :: "u8 list"
  assumes open_end: "finode (file_at s f) = Some (PipeInode a)" "fflags (file_at s f) AND VFS_O_WRONLY \<noteq> 0"
    and pipe: "pipes s a = Some p" "pipe_ok p" "reader_count p \<noteq> 0"
  defines "n \<equiv> min (length bytes) (1024 - length (pipe_bytes p))"
  shows "\<exists>p'. pipe_inode_write f bytes s =
      (if n \<noteq> 0 then Inr (of_nat n) else Inl EWOULDBLOCK, s\<lparr>pipes := (pipes s)(a := Some p')\<rparr>) \<and>
    pipe_ok p' \<and> pipe_bytes p' = pipe_bytes p @ take n bytes \<and> reader_count p' = reader_count p \<and> writer_count p' = writer_count p"
proof -
  let ?p = "fold pipe_push bytes p"
  have "pipe_inode_write f bytes s = (if n \<noteq> 0 then Inr (of_nat n) else Inl EWOULDBLOCK, s\<lparr>pipes := (pipes s)(a := Some ?p)\<rparr>)"
    using open_end pipe by (simp add: pipe_inode_write_def vfs_pipe_from_file_def upd_pipe_def pipe_write_loop_fold n_def)
  moreover have "take (1024 - length (pipe_bytes p)) bytes = take n bytes" by (simp add: n_def min_def)
  ultimately show ?thesis
    using pipe_q.ok_fold_push [OF pipe(2)] pipe_q.elems_fold_push [OF pipe(2), of bytes] fold_pipe_push_ends [of bytes p]
    by (intro exI [of _ ?p]) simp
qed

section \<open>References to pipes\<close>

text \<open>What an open file holds of a pipe: the pipe's address and the mode it was opened with.\<close>

definition end_of :: "vfs_file \<Rightarrow> (nat \<times> u32) option" where
  "end_of x =
     (if fref_count x = 0 then None else case finode x of Some (PipeInode a) \<Rightarrow> Some (a, fflags x) | _ \<Rightarrow> None)"

definition pipe_end :: "'w vfs_state \<Rightarrow> nat \<Rightarrow> (nat \<times> u32) option" where
  "pipe_end s f = end_of (file_at s f)"

definition holders :: "(nat \<Rightarrow> (nat \<times> u32) option) \<Rightarrow> nat \<Rightarrow> (u32 \<Rightarrow> bool) \<Rightarrow> nat set" where
  "holders e a P = {f. f < VFS_MAX_FILES \<and> (\<exists>fl. e f = Some (a, fl) \<and> P fl)}"

abbreviation any_end :: "u32 \<Rightarrow> bool" where "any_end fl \<equiv> True"
abbreviation read_end :: "u32 \<Rightarrow> bool" where "read_end fl \<equiv> fl AND VFS_O_RDONLY \<noteq> 0"
abbreviation write_end :: "u32 \<Rightarrow> bool" where "write_end fl \<equiv> fl AND VFS_O_WRONLY \<noteq> 0"

text \<open>
  The counters of a pipe are the numbers of open files that hold it, and of those that can read and write it.
  A pipe nobody holds is freed, and nobody holds a freed pipe. Its buffer is a ring.
\<close>

definition counts_ok :: "(nat \<Rightarrow> (nat \<times> u32) option) \<Rightarrow> nat \<Rightarrow> vfs_pipe option \<Rightarrow> bool" where
  "counts_ok e a po =
     (case po of
        None \<Rightarrow> holders e a any_end = {}
      | Some p \<Rightarrow> holders e a any_end \<noteq> {} \<and> unat (iref_count (pinode p)) = card (holders e a any_end) \<and>
          unat (reader_count p) = card (holders e a read_end) \<and> unat (writer_count p) = card (holders e a write_end) \<and>
          pipe_ok p)"

definition pipe_refs_ok :: "'w vfs_state \<Rightarrow> bool" where
  "pipe_refs_ok s \<longleftrightarrow> (\<forall>a. counts_ok (pipe_end s) a (pipes s a))"

lemma finite_holders [simp]: "finite (holders e a P)"
  by (simp add: holders_def)

lemma card_holders: "card (holders e a P) \<le> 32"
  using card_mono [of "{..<32}" "holders e a P"] by (auto simp: holders_def)

lemma holders_upd:
  assumes "f < VFS_MAX_FILES"
  shows "holders (e(f := v)) a P =
    (if \<exists>fl. v = Some (a, fl) \<and> P fl then insert f (holders e a P) else holders e a P - {f})"
  using assms by (auto simp: holders_def)

text \<open>Operations that move no reference keep the agreement.\<close>

definition same_counts :: "vfs_pipe \<Rightarrow> vfs_pipe \<Rightarrow> bool" where
  "same_counts p q \<longleftrightarrow> iref_count (pinode p) = iref_count (pinode q) \<and> reader_count p = reader_count q \<and> writer_count p = writer_count q \<and>
     (pipe_ok q \<longrightarrow> pipe_ok p)"

lemma same_counts_refl [simp]: "same_counts p p"
  by (simp add: same_counts_def)

definition same_refs :: "'w vfs_state \<Rightarrow> 'w vfs_state \<Rightarrow> bool" where
  "same_refs s s' \<longleftrightarrow> pipe_end s' = pipe_end s \<and> (\<forall>a. rel_option same_counts (pipes s' a) (pipes s a)) \<and>
     (file_table s' = None \<longleftrightarrow> file_table s = None)"

lemma same_refs_refl [simp]: "same_refs s s"
  by (simp add: same_refs_def option.rel_refl)

lemma same_refs_trans: "same_refs s s1 \<Longrightarrow> same_refs s1 s2 \<Longrightarrow> same_refs s s2"
proof -
  assume a: "same_refs s s1" "same_refs s1 s2"
  have "same_counts p q \<Longrightarrow> same_counts q r \<Longrightarrow> same_counts p r" for p q r by (auto simp: same_counts_def)
  then have "rel_option same_counts x y \<Longrightarrow> rel_option same_counts y z \<Longrightarrow> rel_option same_counts x z" for x y z
    by (cases x; cases y; cases z) auto
  then show ?thesis using a unfolding same_refs_def by metis
qed

lemma pipe_refs_frame:
  assumes "pipe_refs_ok s" "same_refs s s'"
  shows "pipe_refs_ok s'"
  unfolding pipe_refs_ok_def
proof
  fix a
  have "rel_option same_counts (pipes s' a) (pipes s a)" "counts_ok (pipe_end s) a (pipes s a)" "pipe_end s' = pipe_end s"
    using assms by (simp_all add: pipe_refs_ok_def same_refs_def)
  then show "counts_ok (pipe_end s') a (pipes s' a)"
    by (cases "pipes s' a"; cases "pipes s a") (auto simp: counts_ok_def same_counts_def)
qed

lemma file_at_upd_file:
  "file_table s \<noteq> None \<Longrightarrow> file_at (upd_file f g s) h = (if h = f then g (file_at s f) else file_at s h)"
  by (auto simp: file_at_def upd_file_def split: option.splits)

lemma upd_file_fields [simp]:
  "pipes (upd_file f g s) = pipes s" "fs (upd_file f g s) = fs s" "file_table (upd_file f g s) = None \<longleftrightarrow> file_table s = None"
  "(\<exists>t. file_table (upd_file f g s) = Some t) \<longleftrightarrow> (\<exists>t. file_table s = Some t)"
  by (auto simp: upd_file_def)

lemma pipe_end_upd_file:
  "file_table s \<noteq> None \<Longrightarrow> pipe_end (upd_file f g s) = (pipe_end s)(f := pipe_end (upd_file f g s) f)"
  by (auto simp: pipe_end_def file_at_upd_file fun_eq_iff)

lemma upd_inode_file [simp]:
  "file_table (upd_inode r g s) = file_table s" "file_at (upd_inode r g s) = file_at s"
  "pipe_end (upd_inode r g s) = pipe_end s"
  by (auto simp: upd_inode_def file_at_def pipe_end_def fun_eq_iff split: inode_ref.splits)

lemma upd_inode_pipes [simp]:
  "pipes (upd_inode (FsInode i) g s) = pipes s" "pipes (upd_inode ConsoleInode g s) = pipes s" "pipes (upd_inode TtyInode g s) = pipes s"
  by (simp_all add: upd_inode_def)

lemma upd_pipe_file [simp]:
  "file_table (upd_pipe a g s) = file_table s" "file_at (upd_pipe a g s) = file_at s"
  "pipe_end (upd_pipe a g s) = pipe_end s"
  by (auto simp: upd_pipe_def file_at_def pipe_end_def fun_eq_iff)

lemma pipe_end_pipes [simp]: "pipe_end (s\<lparr>pipes := q\<rparr>) = pipe_end s" "file_at (s\<lparr>pipes := q\<rparr>) = file_at s"
  "pipe_end (s\<lparr>fs := x\<rparr>) = pipe_end s" "file_at (s\<lparr>fs := x\<rparr>) = file_at s"
  by (auto simp: file_at_def pipe_end_def fun_eq_iff)

text \<open>Opening: a free slot of the table starts to hold the inode.\<close>

lemma vfs_alloc_fileE:
  assumes "vfs_alloc_file s = (Some f, s')"
  shows "f < VFS_MAX_FILES" "file_table s \<noteq> None" "fref_count (file_at s f) = 0" "s' = upd_file f (\<lambda>_. zero_file\<lparr>fref_count := 1\<rparr>) s"
  using assms by (auto simp: vfs_alloc_file_def file_at_def find_Some_iff split: option.splits)

lemma vfs_alloc_file_None: "vfs_alloc_file s = (None, s') \<Longrightarrow> s' = s"
  by (auto simp: vfs_alloc_file_def split: option.splits)

lemma vfs_open_inodeE:
  assumes "vfs_open_inode r flags s = (Some f, s')"
  obtains "f < VFS_MAX_FILES" "file_table s' \<noteq> None" "pipe_end s f = None" "fref_count (file_at s' f) = 1" "finode (file_at s' f) = Some r"
    "fflags (file_at s' f) = flags" "\<And>h. h \<noteq> f \<Longrightarrow> file_at s' h = file_at s h"
    "pipe_end s' = (pipe_end s)(f := (case r of PipeInode a \<Rightarrow> Some (a, flags) | _ \<Rightarrow> None))"
    "pipes s' = (case r of PipeInode a \<Rightarrow> (pipes s)(a := map_option (\<lambda>p. p\<lparr>pinode := (pinode p)\<lparr>iref_count := iref_count (pinode p) + 1\<rparr>\<rparr>) (pipes s a)) | _ \<Rightarrow> pipes s)"
proof -
  obtain s1 where a: "vfs_alloc_file s = (Some f, s1)"
    and s': "s' = upd_inode r (\<lambda>v. v\<lparr>iref_count := iref_count v + 1\<rparr>) (upd_file f (\<lambda>x. x\<lparr>finode := Some r, fflags := flags, foffset := 0\<rparr>) s1)"
    using assms by (auto simp: vfs_open_inode_def split: prod.splits option.splits)
  note a = vfs_alloc_fileE [OF a]
  have f: "file_at s' h = (if h = f then \<lparr>finode = Some r, fflags = flags, foffset = 0, fref_count = 1\<rparr> else file_at s h)" for h
    unfolding s' a(4) using a(2) by (simp add: file_at_upd_file zero_file_def)
  show thesis
  proof
    show "pipe_end s' = (pipe_end s)(f := (case r of PipeInode a \<Rightarrow> Some (a, flags) | _ \<Rightarrow> None))"
      by (auto simp: pipe_end_def end_of_def fun_eq_iff f split: inode_ref.splits)
    show "pipes s' = (case r of PipeInode a \<Rightarrow> (pipes s)(a := map_option (\<lambda>p. p\<lparr>pinode := (pinode p)\<lparr>iref_count := iref_count (pinode p) + 1\<rparr>\<rparr>) (pipes s a)) | _ \<Rightarrow> pipes s)"
      unfolding s' a(4) by (auto simp: upd_inode_def split: inode_ref.splits)
    show "file_table s' \<noteq> None" unfolding s' a(4) using a(2) by simp
    show "pipe_end s f = None" using a(3) by (simp add: pipe_end_def end_of_def)
  qed (use a f in simp_all)
qed

lemma vfs_open_inode_None: "vfs_open_inode r flags s = (None, s') \<Longrightarrow> s' = s"
  by (auto simp: vfs_open_inode_def dest: vfs_alloc_file_None split: prod.splits option.splits)

lemma counts_ok_open:
  assumes "counts_ok e b (po)" "e f = None" "f < VFS_MAX_FILES"
    "\<And>a fl. v = Some (a, fl) \<Longrightarrow> a \<noteq> b"
  shows "counts_ok (e(f := v)) b (po)"
proof -
  have "f \<notin> holders e b P" for P using assms(2) by (simp add: holders_def)
  moreover have "\<not> (\<exists>fl. v = Some (b, fl) \<and> P fl)" for P using assms(4) by auto
  ultimately have "holders (e(f := v)) b P = holders e b P" for P
    unfolding holders_upd [OF assms(3)] by auto
  then show ?thesis using assms(1) by (simp add: counts_ok_def split: option.splits)
qed

lemma vfs_open_inode_refs:
  assumes "pipe_refs_ok s" "vfs_open_inode r flags s = (fo, s')" "\<And>a. r \<noteq> PipeInode a"
  shows "pipe_refs_ok s'"
proof (cases fo)
  case None
  then show ?thesis using assms(1,2) vfs_open_inode_None [of r flags s s'] by simp
next
  case (Some f)
  with assms(2) have "vfs_open_inode r flags s = (Some f, s')" by simp
  then obtain "pipe_end s f = None" "pipe_end s' = (pipe_end s)(f := None)" "pipes s' = pipes s"
    by (rule vfs_open_inodeE) (use assms(3) in \<open>cases r; force\<close>)
  then show ?thesis using assms(1) by (simp add: pipe_refs_ok_def fun_upd_idem)
qed

text \<open>Releasing: the last reference to a file gives up the pipe, and the last file frees it.\<close>

definition drop_end :: "u32 \<Rightarrow> vfs_pipe \<Rightarrow> vfs_pipe option" where
  "drop_end fl p =
     (if iref_count (pinode p) \<le> 1 then None
      else Some (p\<lparr>pinode := (pinode p)\<lparr>iref_count := iref_count (pinode p) - 1\<rparr>,
                   reader_count := (if read_end fl \<and> reader_count p \<noteq> 0 then reader_count p - 1 else reader_count p),
                   writer_count := (if write_end fl \<and> writer_count p \<noteq> 0 then writer_count p - 1 else writer_count p)\<rparr>))"

lemma pipe_end_same:
  assumes "file_table s \<noteq> None" "end_of (g (file_at s f)) = end_of (file_at s f)"
  shows "pipe_end (upd_file f g s) = pipe_end s"
  using assms by (auto simp: pipe_end_def file_at_upd_file fun_eq_iff)

lemma pipe_end_cleared:
  assumes "file_table s \<noteq> None" "finode (g (file_at s f)) = None"
  shows "pipe_end (upd_file f g s) = (pipe_end s)(f := None)"
  using assms by (auto simp: pipe_end_def end_of_def file_at_upd_file fun_eq_iff)

lemma vfs_release_file_shared:
  assumes t: "file_table s \<noteq> None" and r: "fref_count (file_at s f) \<noteq> 1"
  shows "pipe_end (vfs_release_file f s) = pipe_end s" "pipes (vfs_release_file f s) = pipes s"
proof -
  let ?g = "\<lambda>x. x\<lparr>fref_count := fref_count x - 1\<rparr>"
  have d: "fref_count (file_at s f) - 1 \<noteq> 0" using r by simp
  have e: "vfs_release_file f s = (if fref_count (file_at s f) = 0 then s else upd_file f ?g s)"
    using d t by (simp add: vfs_release_file_def file_at_upd_file Let_def)
  have "end_of (?g (file_at s f)) = end_of (file_at s f)" if "fref_count (file_at s f) \<noteq> 0"
    using that d by (simp add: end_of_def split: option.splits inode_ref.splits)
  then show "pipe_end (vfs_release_file f s) = pipe_end s" unfolding e using t pipe_end_same [of s ?g f] by simp
  show "pipes (vfs_release_file f s) = pipes s" unfolding e by simp
qed

lemma le_1_minus_1: "(x :: u32) \<noteq> 0 \<Longrightarrow> x - 1 = 0 \<longleftrightarrow> x \<le> 1"
  by (auto simp: word_le_nat_alt word_unat_eq_iff unat_minus_1)

lemma close_pipe_end_drop:
  "pipes (close_pipe_end a fl (upd_inode (PipeInode a) (\<lambda>v. if iref_count v \<noteq> 0 then v\<lparr>iref_count := iref_count v - 1\<rparr> else v) s))
     = (pipes s)(a := Option.bind (pipes s a) (drop_end fl))"
proof (cases "pipes s a")
  case None
  then show ?thesis by (simp add: close_pipe_end_def upd_inode_def upd_pipe_def inode_at_def Let_def fun_eq_iff)
next
  case (Some p)
  then show ?thesis
  proof (cases "iref_count (pinode p) \<le> 1")
    case True
    then have "iref_count (pinode p) = 0 \<or> iref_count (pinode p) - 1 = 0" using le_1_minus_1 by blast
    then show ?thesis
      using Some True by (elim disjE) (simp_all add: close_pipe_end_def upd_inode_def upd_pipe_def inode_at_def Let_def drop_end_def)
  next
    case False
    then have "iref_count (pinode p) \<noteq> 0" by auto
    then show ?thesis
      using Some False le_1_minus_1 [of "iref_count (pinode p)"]
      by (simp add: close_pipe_end_def upd_inode_def upd_pipe_def inode_at_def Let_def drop_end_def split del: if_split cong: if_cong)
  qed
qed

lemma close_pipe_end_files [simp]:
  "file_table (close_pipe_end a fl s) = file_table s" "file_at (close_pipe_end a fl s) = file_at s"
  "pipe_end (close_pipe_end a fl s) = pipe_end s"
  by (auto simp: close_pipe_end_def Let_def)

lemma vfs_release_file_last:
  assumes t: "file_table s \<noteq> None" and r: "fref_count (file_at s f) = 1"
  shows "pipe_end (vfs_release_file f s) = (pipe_end s)(f := None)"
    "pipes (vfs_release_file f s) =
      (case pipe_end s f of
         Some (a, fl) \<Rightarrow> (pipes s)(a := Option.bind (pipes s a) (drop_end fl))
       | None \<Rightarrow> pipes s)"
proof -
  define s1 where "s1 = upd_file f (\<lambda>x. x\<lparr>fref_count := fref_count x - 1\<rparr>) s"
  define s2 where "s2 = (case finode (file_at s1 f) of None \<Rightarrow> s1
     | Some r \<Rightarrow> let s2 = upd_inode r (\<lambda>v. if iref_count v \<noteq> 0 then v\<lparr>iref_count := iref_count v - 1\<rparr> else v) s1 in
         case r of PipeInode a \<Rightarrow> close_pipe_end a (fflags (file_at s1 f)) s2 | _ \<Rightarrow> s2)"
  let ?c = "\<lambda>x. x\<lparr>finode := None, fflags := 0, foffset := 0\<rparr>"
  have f1: "file_table s1 \<noteq> None" "finode (file_at s1 f) = finode (file_at s f)" "fflags (file_at s1 f) = fflags (file_at s f)"
    "fref_count (file_at s1 f) = 0" "pipes s1 = pipes s"
    using t r by (simp_all add: s1_def file_at_upd_file)
  have e: "vfs_release_file f s = upd_file f ?c s2"
    using r f1(4) by (simp add: vfs_release_file_def s2_def Let_def flip: s1_def)
  have p2: "file_table s2 \<noteq> None" "pipe_end s2 = pipe_end s1"
    using f1 by (auto simp: s2_def Let_def split: option.splits inode_ref.splits)
  have "pipe_end s1 = (pipe_end s)(f := pipe_end s1 f)" unfolding s1_def using t by (rule pipe_end_upd_file)
  then have "(pipe_end s1)(f := None) = (pipe_end s)(f := None)" by (metis fun_upd_upd)
  then show "pipe_end (vfs_release_file f s) = (pipe_end s)(f := None)"
    unfolding e using pipe_end_cleared [of s2 ?c f] p2 by simp
  show "pipes (vfs_release_file f s) = (case pipe_end s f of
         Some (a, fl) \<Rightarrow> (pipes s)(a := Option.bind (pipes s a) (drop_end fl)) | None \<Rightarrow> pipes s)"
    unfolding e using r f1 by (auto simp: s2_def Let_def pipe_end_def end_of_def close_pipe_end_drop split: option.splits inode_ref.splits)
qed

lemma counts_ok_drop:
  assumes ok: "\<And>b. counts_ok e b (ps b)" and f: "e f = Some (a, fl)" "f < VFS_MAX_FILES"
  shows "counts_ok (e(f := None)) b ((ps(a := Option.bind (ps a) (drop_end fl))) b)"
proof -
  have h: "holders (e(f := None)) b P = holders e b P - {f}" for P by (simp add: holders_upd [OF f(2)])
  have m: "f \<in> holders e b P \<longleftrightarrow> a = b \<and> P fl" for P using f by (auto simp: holders_def)
  show ?thesis
  proof (cases "b = a")
    case False
    then show ?thesis using ok [of b] m by (simp add: counts_ok_def h split: option.splits)
  next
    case b: True
    then obtain p where p: "ps a = Some p" using ok [of a] m [of any_end] by (cases "ps a") (auto simp: counts_ok_def)
    let ?c = "\<lambda>P. card (holders e a P)"
    have c: "unat (iref_count (pinode p)) = ?c any_end" "unat (reader_count p) = ?c read_end" "unat (writer_count p) = ?c write_end" "pipe_ok p"
      using ok [of a] p by (simp_all add: counts_ok_def)
    have d: "card (holders (e(f := None)) a P) = (if P fl then ?c P - 1 else ?c P)" for P
      using m [of P] h [of P] b by (simp add: card_Diff_singleton_if)
    have d1: "card (holders (e(f := None)) a any_end) = ?c any_end - 1" using d [of any_end] by simp
    show ?thesis
    proof (cases "iref_count (pinode p) \<le> 1")
      case True
      then have "unat (iref_count (pinode p)) \<le> 1" by (simp add: word_le_nat_alt)
      then have "card (holders (e(f := None)) a any_end) = 0" using c(1) d1 by linarith
      then show ?thesis using True p b by (simp add: counts_ok_def drop_end_def)
    next
      case False
      then have "iref_count (pinode p) \<noteq> 0" by auto
      then have i: "unat (iref_count (pinode p) - 1) = ?c any_end - 1" "?c any_end > 1"
        unfolding c(1) [symmetric] using False by (simp_all add: word_le_nat_alt unat_minus_1)
      have r: "unat (if P fl \<and> x \<noteq> 0 then x - 1 else x) = card (holders (e(f := None)) a P)" if "unat x = ?c P" for P and x :: u32
        unfolding d that [symmetric] using unat_minus_1 [of x] by auto
      have "holders (e(f := None)) a any_end \<noteq> {}" using i(2) d1 by auto
      then show ?thesis
        using False p b i(1) d1 r [OF c(2)] r [OF c(3)] c(4) by (simp add: counts_ok_def drop_end_def)
    qed
  qed
qed

lemma vfs_release_file_refs:
  assumes ok: "pipe_refs_ok s" and t: "file_table s \<noteq> None" and f: "f < VFS_MAX_FILES"
  shows "pipe_refs_ok (vfs_release_file f s)"
proof (cases "fref_count (file_at s f) = 1")
  case False
  then show ?thesis using ok vfs_release_file_shared [OF t False] by (simp add: pipe_refs_ok_def)
next
  case True
  note l = vfs_release_file_last [OF t True]
  have all: "\<And>b. counts_ok (pipe_end s) b (pipes s b)" using ok by (simp add: pipe_refs_ok_def)
  show ?thesis
  proof (cases "pipe_end s f")
    case None
    then show ?thesis using ok l by (simp add: pipe_refs_ok_def fun_upd_idem)
  next
    case (Some x)
    obtain a fl where x: "x = (a, fl)" by (cases x)
    then have e: "pipe_end s f = Some (a, fl)" using Some by simp
    show ?thesis
      unfolding pipe_refs_ok_def l e option.case prod.case using counts_ok_drop [OF all e f] by blast
  qed
qed

lemma counts_ok_new:
  assumes ok: "\<And>b. counts_ok e b (ps b)" and a: "ps a = None" and f: "e f = None" "f < VFS_MAX_FILES"
    and g: "e g = None" "g < VFS_MAX_FILES" "f \<noteq> g"
    and p: "iref_count (pinode p) = 2" "reader_count p = 1" "writer_count p = 1" "pipe_ok p"
  shows "counts_ok (e(f := Some (a, VFS_O_RDONLY), g := Some (a, VFS_O_WRONLY))) b ((ps(a := Some p)) b)"
proof (cases "b = a")
  case False
  then have "counts_ok (e(f := Some (a, VFS_O_RDONLY))) b (ps b)"
    using ok f by (intro counts_ok_open) auto
  then have "counts_ok (e(f := Some (a, VFS_O_RDONLY), g := Some (a, VFS_O_WRONLY))) b (ps b)"
    by (rule counts_ok_open) (use g False in auto)
  then show ?thesis using False by simp
next
  case True
  have "holders e a any_end = {}" using ok [of a] a by (simp add: counts_ok_def)
  then have n: "holders e a P = {}" for P by (auto simp: holders_def)
  have "holders (e(f := Some (a, VFS_O_RDONLY), g := Some (a, VFS_O_WRONLY))) a P = (if P 1 then {f} else {}) \<union> (if P 2 then {g} else {})" for P
    using n [of P] f(2) g by (auto simp: holders_upd)
  then show ?thesis using True g(3) p by (simp add: counts_ok_def)
qed

text \<open>A new pipe at a fresh address has one reader and one writer, or leaves no trace.\<close>

lemma vfs_create_pipe_refs:
  assumes ok: "pipe_refs_ok s" and fresh: "\<And>a. mem = Some a \<Longrightarrow> pipes s a = None"
    and run: "vfs_create_pipe mem s = (r, s')"
  shows "pipe_refs_ok s'"
proof (cases mem)
  case None
  then show ?thesis using run ok by (simp add: vfs_create_pipe_def)
next
  case (Some a)
  have pa: "pipes s a = None" using fresh Some by simp
  define s1 where "s1 = s\<lparr>pipes := (pipes s)(a := Some new_pipe)\<rparr>"
  have p1: "pipes s1 = (pipes s)(a := Some new_pipe)" "pipe_end s1 = pipe_end s" by (simp_all add: s1_def)
  obtain fo s2 where o2: "vfs_open_inode (PipeInode a) VFS_O_RDONLY s1 = (fo, s2)" by force
  show ?thesis
  proof (cases fo)
    case None
    then have "s2 = s1" using o2 vfs_open_inode_None by blast
    then have "s' = s2\<lparr>pipes := (pipes s2)(a := None)\<rparr>" "pipes s2 = pipes s1" "pipe_end s2 = pipe_end s1"
      using run Some o2 None by (simp_all add: vfs_create_pipe_def flip: s1_def)
    then show ?thesis using ok pa p1 by (simp add: pipe_refs_ok_def fun_upd_idem)
  next
    case (Some f)
    with o2 have "vfs_open_inode (PipeInode a) VFS_O_RDONLY s1 = (Some f, s2)" by simp
    then obtain f: "f < VFS_MAX_FILES" "file_table s2 \<noteq> None" "pipe_end s1 f = None" "fref_count (file_at s2 f) = 1"
      and e2: "pipe_end s2 = (pipe_end s1)(f := Some (a, VFS_O_RDONLY))"
      and p2: "pipes s2 = (pipes s1)(a := map_option (\<lambda>p. p\<lparr>pinode := (pinode p)\<lparr>iref_count := iref_count (pinode p) + 1\<rparr>\<rparr>) (pipes s1 a))"
      by (rule vfs_open_inodeE) simp
    obtain go s3 where o3: "vfs_open_inode (PipeInode a) VFS_O_WRONLY s2 = (go, s3)" by force
    show ?thesis
    proof (cases go)
      case None
      then have "s3 = s2" using o3 vfs_open_inode_None by blast
      then have s': "s' = vfs_release_file f s2"
        using run \<open>mem = Some a\<close> o2 Some o3 None by (simp add: vfs_create_pipe_def vfs_close_file_def flip: s1_def)
      have "pipe_end s' = pipe_end s" "pipes s' = pipes s"
        using vfs_release_file_last [OF f(2,4)] f(3) e2 p2 p1 pa
        by (simp_all add: s' fun_upd_idem drop_end_def new_pipe_def reset_vfs_inode_def)
      then show ?thesis using ok by (simp add: pipe_refs_ok_def)
    next
      case g0: (Some g)
      with o3 have "vfs_open_inode (PipeInode a) VFS_O_WRONLY s2 = (Some g, s3)" by simp
      then obtain g: "g < VFS_MAX_FILES" "pipe_end s2 g = None"
        and e3: "pipe_end s3 = (pipe_end s2)(g := Some (a, VFS_O_WRONLY))"
        and p3: "pipes s3 = (pipes s2)(a := map_option (\<lambda>p. p\<lparr>pinode := (pinode p)\<lparr>iref_count := iref_count (pinode p) + 1\<rparr>\<rparr>) (pipes s2 a))"
        by (rule vfs_open_inodeE) simp
      have s': "s' = upd_pipe a (\<lambda>p. p\<lparr>reader_count := 1, writer_count := 1\<rparr>) s3"
        using run \<open>mem = Some a\<close> o2 Some o3 g0 by (simp add: vfs_create_pipe_def flip: s1_def)
      have fg: "f \<noteq> g" using g(2) e2 by auto
      have e: "pipe_end s' = (pipe_end s)(f := Some (a, VFS_O_RDONLY), g := Some (a, VFS_O_WRONLY))"
        by (simp add: s' e3 e2 p1)
      have "pipe_end s g = None" using g(2) fg by (simp add: e2 p1)
      moreover obtain q where "pipes s' = (pipes s)(a := Some q)"
        and "iref_count (pinode q) = 2" "reader_count q = 1" "writer_count q = 1" "pipe_ok q"
        by (rule that [of "(new_pipe\<lparr>pinode := (pinode new_pipe)\<lparr>iref_count := 2\<rparr>, reader_count := 1, writer_count := 1\<rparr>)"])
          (simp_all add: s' upd_pipe_def p3 p2 p1 new_pipe_def reset_vfs_inode_def pipe_ok_def)
      ultimately show ?thesis
        using counts_ok_new [of "pipe_end s" "pipes s" a f g q] ok pa f(1,3) g(1) fg p1 e by (simp add: pipe_refs_ok_def)
    qed
  qed
qed

text \<open>The calls that move no reference: they change files in place, the disk, the input queue or a buffer.\<close>

lemma same_refs_upd_file:
  assumes "\<And>x. end_of (g x) = end_of x"
  shows "same_refs s (upd_file f g s)"
proof (cases "file_table s")
  case None
  then have "upd_file f g s = s" by (simp add: upd_file_def)
  then show ?thesis by simp
next
  case (Some t)
  then show ?thesis using assms pipe_end_same [of s g f] by (simp add: same_refs_def option.rel_refl)
qed

lemma same_refs_fields [simp]:
  "same_refs s (s\<lparr>fs := x\<rparr>)" "same_refs s (s\<lparr>inp := y, con_out := z\<rparr>)" "same_refs s (s\<lparr>con_out := z\<rparr>)"
  by (auto simp: same_refs_def option.rel_refl pipe_end_def file_at_def fun_eq_iff)

lemma end_of_offset [simp]: "end_of (x\<lparr>foffset := k\<rparr>) = end_of x"
  by (simp add: end_of_def split: option.splits inode_ref.splits)

lemma same_refs_pipe:
  assumes "pipes s a = Some p" "same_counts q p"
  shows "same_refs s (upd_pipe a (\<lambda>_. q) s)"
  using assms by (auto simp: same_refs_def upd_pipe_def option.rel_refl)

lemma vfs_pipe_from_file_Some: "vfs_pipe_from_file f s = Some (a, p) \<Longrightarrow> pipes s a = Some p"
  by (auto simp: vfs_pipe_from_file_def split: option.splits inode_ref.splits)

lemma pipe_inode_read_refs:
  assumes run: "pipe_inode_read f len s = (r, s')"
  shows "same_refs s s'"
proof (cases "vfs_pipe_from_file f s")
  case (Some x)
  obtain a p where x: "x = (a, p)" by (cases x)
  obtain bs p' where r: "pipe_read_loop (unat len) [] p = (bs, p')" by force
  have "same_counts p' p" using pipe_read_loop_ends [OF r] pipe_read_loop_bytes(3) [OF _ r] by (auto simp: same_counts_def)
  then have "same_refs s (upd_pipe a (\<lambda>_. p') s)"
    using same_refs_pipe vfs_pipe_from_file_Some Some x by blast
  then show ?thesis using run Some x r by (auto simp: pipe_inode_read_def Let_def split: if_splits)
qed (use run in \<open>simp add: pipe_inode_read_def\<close>)

lemma same_counts_push [simp]: "same_counts (pipe_push b p) q = same_counts p q" if "pipe_ok q \<longrightarrow> pipe_ok p"
  using that pipe_q.ok_push [of p b] by (auto simp: same_counts_def pipe_push_def)

lemma pipe_write_loop_kept:
  "pipe_write_loop bs w p = (w', p') \<Longrightarrow> same_counts p q \<Longrightarrow> same_counts p' q"
proof (induction bs arbitrary: w p)
  case (Cons b bs)
  have "pipe_ok q \<longrightarrow> pipe_ok p" using Cons.prems(2) by (simp add: same_counts_def)
  then show ?case using Cons by (auto split: if_splits)
qed simp

lemma pipe_inode_write_refs:
  assumes run: "pipe_inode_write f bytes s = (r, s')"
  shows "same_refs s s'"
proof (cases "vfs_pipe_from_file f s")
  case (Some x)
  obtain a p where x: "x = (a, p)" by (cases x)
  obtain w p' where r: "pipe_write_loop bytes 0 p = (w, p')" by force
  have "same_counts p' p" using pipe_write_loop_kept [OF r] by simp
  then have "same_refs s (upd_pipe a (\<lambda>_. p') s)"
    using same_refs_pipe vfs_pipe_from_file_Some Some x by blast
  then show ?thesis using run Some x r by (auto simp: pipe_inode_write_def Let_def split: if_splits)
qed (use run in \<open>simp add: pipe_inode_write_def\<close>)

lemma same_refs_fs_file:
  "(\<And>x. end_of (g x) = end_of x) \<Longrightarrow> same_refs s (upd_file f g (s\<lparr>fs := y\<rparr>))"
  by (rule same_refs_trans [OF same_refs_fields(1) same_refs_upd_file])

lemma vfs_read_file_refs: "vfs_read_file devs f len s = (r, s') \<Longrightarrow> same_refs s s'"
  by (auto simp: vfs_read_file_def op_read_def console_inode_read_def simplefs_file_read_def Let_def
      intro: pipe_inode_read_refs same_refs_upd_file
      split: option.splits if_splits file_ops.splits inode_ref.splits prod.splits sum.splits)

lemma vfs_write_file_refs: "vfs_write_file f bytes s = (r, s') \<Longrightarrow> same_refs s s'"
  by (auto simp: vfs_write_file_def op_write_def console_inode_write_def simplefs_file_write_def
      intro: pipe_inode_write_refs same_refs_fs_file
      split: option.splits if_splits file_ops.splits inode_ref.splits prod.splits sum.splits)

lemma vfs_seek_file_refs: "vfs_seek_file f off whence s = (r, s') \<Longrightarrow> same_refs s s'"
  by (auto simp: vfs_seek_file_def Let_def intro: same_refs_upd_file split: option.splits if_splits)

lemma vfs_truncate_file_refs: "vfs_truncate_file f len s = (r, s') \<Longrightarrow> same_refs s s'"
  by (auto simp: vfs_truncate_file_def intro!: same_refs_fs_file split: option.splits if_splits prod.splits sum.splits)

lemma vfs_rewind_file_refs: "same_refs s (vfs_rewind_file f s)"
  unfolding vfs_rewind_file_def by (rule same_refs_upd_file) simp

lemma vfs_mkdir_path_refs: "vfs_mkdir_path path mode cred s = (r, s') \<Longrightarrow> same_refs s s'"
  by (auto simp: vfs_mkdir_path_def split: option.splits if_splits prod.splits sum.splits)

lemma vfs_unlink_path_refs: "vfs_unlink_path path cred s = (r, s') \<Longrightarrow> same_refs s s'"
  by (auto simp: vfs_unlink_path_def split: option.splits if_splits prod.splits)

section \<open>Every sequence of calls\<close>

text \<open>
  The calls the rest of the kernel makes on open files. A handle is an index of the file table; a pipe has no
  name, so no path leads to one; the heap returns memory that no pipe occupies; and a file is not shared
  \<open>2^32\<close> times.
\<close>

inductive vfs_step :: "'w vfs_state \<Rightarrow> 'w vfs_state \<Rightarrow> bool" where
  open_path: "vfs_open_path path flags cred s = (r, s') \<Longrightarrow> (\<And>a. vfs_resolve_path path cred s \<noteq> Some (PipeInode a)) \<Longrightarrow> vfs_step s s'"
| create_path: "vfs_create_path path flags mode cred s = (r, s') \<Longrightarrow> vfs_step s s'"
| close_file: "f < VFS_MAX_FILES \<Longrightarrow> vfs_step s (vfs_close_file f s)"
| retain_file: "f < VFS_MAX_FILES \<Longrightarrow> fref_count (file_at s f) + 1 \<noteq> 0 \<Longrightarrow> vfs_step s (vfs_retain_file f s)"
| create_pipe: "vfs_create_pipe mem s = (r, s') \<Longrightarrow> (\<And>a. mem = Some a \<Longrightarrow> pipes s a = None) \<Longrightarrow> vfs_step s s'"
| read_file: "vfs_read_file devs f len s = (r, s') \<Longrightarrow> vfs_step s s'"
| write_file: "vfs_write_file f bytes s = (r, s') \<Longrightarrow> vfs_step s s'"
| seek_file: "vfs_seek_file f off whence s = (r, s') \<Longrightarrow> vfs_step s s'"
| truncate_file: "vfs_truncate_file f len s = (r, s') \<Longrightarrow> vfs_step s s'"
| rewind_file: "vfs_step s (vfs_rewind_file f s)"
| mkdir_path: "vfs_mkdir_path path mode cred s = (r, s') \<Longrightarrow> vfs_step s s'"
| unlink_path: "vfs_unlink_path path cred s = (r, s') \<Longrightarrow> vfs_step s s'"

text \<open>What initialisation leaves: a blank file table and no pipe.\<close>

definition vfs_fresh :: "'w vfs_state \<Rightarrow> bool" where
  "vfs_fresh s \<longleftrightarrow> file_table s = Some (\<lambda>_. zero_file) \<and> pipes s = (\<lambda>_. None)"

inductive vfs_reachable :: "'w vfs_state \<Rightarrow> bool" where
  start: "vfs_fresh s \<Longrightarrow> vfs_reachable s"
| step: "vfs_reachable s \<Longrightarrow> vfs_step s s' \<Longrightarrow> vfs_reachable s'"

definition refs_inv :: "'w vfs_state \<Rightarrow> bool" where
  "refs_inv s \<longleftrightarrow> file_table s \<noteq> None \<and> pipe_refs_ok s"

lemma refs_inv_frame: "refs_inv s \<Longrightarrow> same_refs s s' \<Longrightarrow> refs_inv s'"
  using pipe_refs_frame by (auto simp: refs_inv_def same_refs_def)

lemma refs_inv_open: "refs_inv s \<Longrightarrow> vfs_open_inode r flags s = (fo, s') \<Longrightarrow> (\<And>a. r \<noteq> PipeInode a) \<Longrightarrow> refs_inv s'"
  unfolding refs_inv_def
  by (cases fo) (auto dest: vfs_open_inode_None vfs_open_inode_refs elim: vfs_open_inodeE)

lemma release_table [simp]: "file_table (vfs_release_file f s) = None \<longleftrightarrow> file_table s = None"
  by (auto simp: vfs_release_file_def Let_def split: option.splits inode_ref.splits)

lemma refs_inv_release: "refs_inv s \<Longrightarrow> f < VFS_MAX_FILES \<Longrightarrow> refs_inv (vfs_release_file f s)"
  by (simp add: refs_inv_def vfs_release_file_refs)

lemma refs_inv_retain:
  assumes "fref_count (file_at s f) + 1 \<noteq> 0"
  shows "same_refs s (vfs_retain_file f s)"
proof (cases "fref_count (file_at s f) = 0 \<or> file_table s = None")
  case True
  then have "vfs_retain_file f s = s" by (auto simp: vfs_retain_file_def upd_file_def)
  then show ?thesis by simp
next
  case False
  then have "end_of ((file_at s f)\<lparr>fref_count := fref_count (file_at s f) + 1\<rparr>) = end_of (file_at s f)"
    using assms by (simp add: end_of_def split: option.splits inode_ref.splits)
  then show ?thesis
    using False pipe_end_same [of s "\<lambda>x. x\<lparr>fref_count := fref_count x + 1\<rparr>" f]
    by (simp add: vfs_retain_file_def same_refs_def option.rel_refl)
qed

lemma open_inode_table: "vfs_open_inode r fl s = (fo, s') \<Longrightarrow> file_table s' = None \<longleftrightarrow> file_table s = None"
  by (auto simp: vfs_open_inode_def vfs_alloc_file_def split: option.splits)

lemma create_pipe_table: "vfs_create_pipe mem s = (r, s') \<Longrightarrow> file_table s' = None \<longleftrightarrow> file_table s = None"
  by (auto simp: vfs_create_pipe_def Let_def vfs_close_file_def dest!: open_inode_table split: option.splits prod.splits)

lemma vfs_step_refs: "vfs_step s s' \<Longrightarrow> refs_inv s \<Longrightarrow> refs_inv s'"
proof (induction rule: vfs_step.induct)
  case (open_path path flags cred s r s')
  then show ?case
    by (auto simp: vfs_open_path_def Let_def intro: refs_inv_open split: option.splits if_splits prod.splits)
next
  case (create_path path flags mode cred s r s')
  have "refs_inv (s\<lparr>fs := x\<rparr>)" for x using create_path by (auto intro: refs_inv_frame)
  with create_path show ?case
    by (auto simp: vfs_create_path_def intro: refs_inv_open split: option.splits if_splits prod.splits sum.splits)
next
  case (close_file f s)
  then show ?case by (simp add: vfs_close_file_def refs_inv_release)
next
  case (create_pipe mem s r s')
  then have "pipe_refs_ok s'" by (intro vfs_create_pipe_refs [of s mem r s']) (auto simp: refs_inv_def)
  with create_pipe show ?case using create_pipe_table [of mem s r s'] by (simp add: refs_inv_def)
qed (auto intro: refs_inv_frame refs_inv_retain vfs_read_file_refs vfs_write_file_refs vfs_seek_file_refs
    vfs_truncate_file_refs vfs_rewind_file_refs vfs_mkdir_path_refs vfs_unlink_path_refs)

lemma vfs_reachable_refs: "vfs_reachable s \<Longrightarrow> refs_inv s"
proof (induction rule: vfs_reachable.induct)
  case (start s)
  then have "pipe_end s f = None" for f by (simp add: vfs_fresh_def pipe_end_def file_at_def end_of_def zero_file_def)
  then show ?case using start by (simp add: refs_inv_def pipe_refs_ok_def counts_ok_def vfs_fresh_def holders_def)
next
  case (step s s')
  then show ?case using vfs_step_refs by blast
qed

text \<open>The open files that hold a pipe in a given mode.\<close>

definition open_on :: "'w vfs_state \<Rightarrow> nat \<Rightarrow> (u32 \<Rightarrow> bool) \<Rightarrow> nat set" where
  "open_on s a P = {f. f < VFS_MAX_FILES \<and> fref_count (file_at s f) \<noteq> 0 \<and> finode (file_at s f) = Some (PipeInode a) \<and>
     P (fflags (file_at s f))}"

lemma holders_open_on: "holders (pipe_end s) a P = open_on s a P"
proof -
  have "(\<exists>fl. end_of x = Some (a, fl) \<and> P fl) \<longleftrightarrow> fref_count x \<noteq> 0 \<and> finode x = Some (PipeInode a) \<and> P (fflags x)" for x
    by (cases "finode x"; cases "the (finode x)") (auto simp: end_of_def)
  then show ?thesis by (simp add: holders_def open_on_def pipe_end_def)
qed

definition sample_pipe_vfs :: "(nat \<Rightarrow> u8 list) vfs_state" where
  "sample_pipe_vfs = snd (vfs_create_pipe (Some 4096) (sample_vfs\<lparr>file_table := Some (\<lambda>_. zero_file), pipes := (\<lambda>_. None)\<rparr>))"

text \<open>
  C28. In every state the calls can reach, an open pipe file refers to a pipe that is still allocated, the pipe's
  reference, reader and writer counters are the numbers of open files that hold, read and write it, and no pipe
  without an open file stays allocated.
\<close>

theorem vfs_pipe_references:
  assumes "vfs_reachable s"
  shows "(\<forall>a. pipes s a = None \<longrightarrow> open_on s a (\<lambda>_. True) = {}) \<and>
    (\<forall>a p. pipes s a = Some p \<longrightarrow> open_on s a (\<lambda>_. True) \<noteq> {} \<and> unat (iref_count (pinode p)) = card (open_on s a (\<lambda>_. True)) \<and>
       unat (reader_count p) = card (open_on s a (\<lambda>fl. fl AND VFS_O_RDONLY \<noteq> 0)) \<and>
       unat (writer_count p) = card (open_on s a (\<lambda>fl. fl AND VFS_O_WRONLY \<noteq> 0)) \<and> pipe_ok p)"
proof -
  have c: "counts_ok (pipe_end s) a (pipes s a)" for a
    using vfs_reachable_refs [OF assms] by (simp add: refs_inv_def pipe_refs_ok_def)
  have "open_on s a (\<lambda>_. True) = {}" if "pipes s a = None" for a
    using c [of a] that by (simp add: counts_ok_def holders_open_on)
  moreover have "open_on s a (\<lambda>_. True) \<noteq> {} \<and> unat (iref_count (pinode p)) = card (open_on s a (\<lambda>_. True)) \<and>
       unat (reader_count p) = card (open_on s a (\<lambda>fl. fl AND VFS_O_RDONLY \<noteq> 0)) \<and>
       unat (writer_count p) = card (open_on s a (\<lambda>fl. fl AND VFS_O_WRONLY \<noteq> 0)) \<and> pipe_ok p" if "pipes s a = Some p" for a p
    using c [of a] that by (simp add: counts_ok_def holders_open_on)
  ultimately show ?thesis by blast
qed

lemma sample_pipe_reachable: "vfs_reachable sample_pipe_vfs"
proof -
  let ?s = "sample_vfs\<lparr>file_table := Some (\<lambda>_. zero_file), pipes := (\<lambda>_. None)\<rparr>"
  have "vfs_reachable ?s" by (rule vfs_reachable.start) (simp add: vfs_fresh_def)
  moreover have "vfs_step ?s sample_pipe_vfs"
    by (rule create_pipe [of "Some 4096" ?s "fst (vfs_create_pipe (Some 4096) ?s)"]) (simp_all add: sample_pipe_vfs_def)
  ultimately show ?thesis by (rule vfs_reachable.step)
qed

lemma sample_pipe_files:
  "file_at sample_pipe_vfs 0 = \<lparr>finode = Some (PipeInode 4096), fflags = 1, foffset = 0, fref_count = 1\<rparr>"
  "file_at sample_pipe_vfs 1 = \<lparr>finode = Some (PipeInode 4096), fflags = 2, foffset = 0, fref_count = 1\<rparr>"
  "pipes sample_pipe_vfs 4096 = Some (new_pipe\<lparr>pinode := (pinode new_pipe)\<lparr>iref_count := 2\<rparr>, reader_count := 1, writer_count := 1\<rparr>)"
  by (simp_all add: sample_pipe_vfs_def vfs_create_pipe_def vfs_open_inode_def vfs_alloc_file_def upd_file_def upd_inode_def upd_pipe_def
      file_at_def zero_file_def new_pipe_def reset_vfs_inode_def upt_rec)

theorem vfs_pipe_references_witness:
  "card (open_on sample_pipe_vfs 4096 (\<lambda>_. True)) = 2 \<and> card (open_on sample_pipe_vfs 4096 (\<lambda>fl. fl AND VFS_O_RDONLY \<noteq> 0)) = 1"
  using conjunct2 [OF vfs_pipe_references [OF sample_pipe_reachable], rule_format, OF sample_pipe_files(3)] by simp

theorem pipe_inode_write_fifo_witness:
  "\<exists>s' p'. pipe_inode_write 1 [7, 8, 9] sample_pipe_vfs = (Inr 3, s') \<and> pipes s' 4096 = Some p' \<and> pipe_bytes p' = [7, 8, 9]"
  using pipe_inode_write_fifo [of sample_pipe_vfs 1 4096 _ "[7, 8, 9]"] sample_pipe_files
  by (auto simp: new_pipe_def pipe_ok_def pipe_bytes_def)

theorem pipe_inode_read_fifo_witness:
  "pipe_inode_read 0 2 sample_pipe_vfs = (Inl EWOULDBLOCK, snd (pipe_inode_read 0 2 sample_pipe_vfs))"
  using pipe_inode_read_fifo [of sample_pipe_vfs 0 4096 _ 2] sample_pipe_files
  by (auto simp: new_pipe_def pipe_ok_def pipe_bytes_def)

section \<open>Positions and numbers\<close>

text \<open>The position a seek starts from, a mathematical integer.\<close>

definition seek_origin :: "'w vfs_state \<Rightarrow> nat \<Rightarrow> inode_ref \<Rightarrow> u32 \<Rightarrow> int option" where
  "seek_origin s f r whence = (if whence = 0 then Some 0 else if whence = 1 then Some (uint (foffset (file_at s f)))
      else if whence = 2 then Some (uint (isize (inode_at s r))) else None)"

text \<open>
  C31. Seeking succeeds exactly on a file that is not a directory, with a known origin, when the position computed
  without overflow is between 0 and the largest signed 32-bit value; the file then stands at that position, and
  otherwise nothing changes.
\<close>

theorem vfs_seek_file_position:
  assumes "finode (file_at s f) = Some r" "file_table s \<noteq> None"
  shows "case vfs_seek_file f off whence s of
      (Inr pos, s') \<Rightarrow> kind (inode_at s r) \<noteq> VFS_INODE_DIR \<and> (\<exists>b. seek_origin s f r whence = Some b \<and> uint pos = b + sint off \<and> uint pos \<le> 0x7FFFFFFF) \<and>
         foffset (file_at s' f) = pos \<and> (\<forall>g. g \<noteq> f \<longrightarrow> file_at s' g = file_at s g)
    | (Inl e, s') \<Rightarrow> e = EFAIL \<and> s' = s \<and> (kind (inode_at s r) = VFS_INODE_DIR \<or> seek_origin s f r whence = None \<or>
         (\<exists>b. seek_origin s f r whence = Some b \<and> (b + sint off < 0 \<or> b + sint off > 0x7FFFFFFF)))"
proof (cases "kind (inode_at s r) = VFS_INODE_DIR")
  case True
  then show ?thesis using assms(1) by (simp add: vfs_seek_file_def)
next
  case False
  have o: "vfs_seek_file f off whence s = (case seek_origin s f r whence of None \<Rightarrow> (Inl EFAIL, s) | Some base \<Rightarrow>
      let target = base + sint off in if target < 0 \<or> target > 0x7FFFFFFF then (Inl EFAIL, s)
      else (Inr (word_of_int target), upd_file f (\<lambda>x. x\<lparr>foffset := word_of_int target\<rparr>) s))"
    using False assms(1) unfolding vfs_seek_file_def seek_origin_def by simp
  show ?thesis
  proof (cases "seek_origin s f r whence")
    case None
    then show ?thesis unfolding o by simp
  next
    case (Some b)
    have "uint (word_of_int t :: u32) = t" if "0 \<le> t" "t \<le> 0x7FFFFFFF" for t
      using that by (simp add: uint_word_of_int take_bit_eq_mod)
    from this [of "b + sint off"] show ?thesis using Some False assms(2) unfolding o by (auto simp: Let_def file_at_upd_file)
  qed
qed

theorem vfs_seek_file_position_witness:
  "case vfs_seek_file 0 5 1 sample_pipe_vfs of (Inr pos, s') \<Rightarrow> pos = 5 \<and> foffset (file_at s' 0) = 5 | (Inl e, s') \<Rightarrow> False"
proof -
  have t: "file_table sample_pipe_vfs \<noteq> None" using vfs_reachable_refs [OF sample_pipe_reachable] by (simp add: refs_inv_def)
  have k: "kind (inode_at sample_pipe_vfs (PipeInode 4096)) \<noteq> VFS_INODE_DIR"
    by (simp add: inode_at_def sample_pipe_files new_pipe_def reset_vfs_inode_def)
  show ?thesis
    using vfs_seek_file_position [of sample_pipe_vfs 0 "PipeInode 4096", where off = 5 and whence = 1] t k sample_pipe_files(1)
    by (auto simp: seek_origin_def word_uint_eq_iff split: prod.splits sum.splits)
qed

lemma hex_digit_value: "d < 16 \<Longrightarrow> hex_value (''0123456789ABCDEF'' ! d) = Some (of_nat d)"
proof -
  assume "d < 16"
  then have "d \<in> set [0..<16]" by simp
  moreover have "\<forall>d\<in>set [0..<16]. hex_value (''0123456789ABCDEF'' ! d) = Some (of_nat d)" by code_simp
  ultimately show ?thesis by blast
qed

lemma nibble: "w AND 0xF = take_bit 4 (w :: u32)"
  by (simp add: take_bit_eq_mask mask_eq_exp_minus_1)

lemma nibble_step: "push_bit 4 (drop_bit 4 w) OR take_bit 4 w = (w :: u32)"
  by (rule bit_eqI) (auto simp: bit_simps)

lemma parse_hex_digits:
  "n \<le> 8 \<Longrightarrow> parse_hex_loop (map (\<lambda>i. ''0123456789ABCDEF'' ! unat (drop_bit ((7 - i) * 4) v AND 0xF)) [8 - n..<8]) (drop_bit (4 * n) v) = v"
proof (induction n)
  case (Suc n)
  have e: "8 - n = Suc (7 - n)" "8 - Suc n = 7 - n" using Suc.prems by auto
  have u: "[8 - Suc n..<8] = (7 - n) # [8 - n..<8]" unfolding e by (rule upt_conv_Cons) simp
  have n: "7 - (7 - n) = n" using Suc.prems by simp
  let ?w = "drop_bit (n * 4) v"
  have d: "drop_bit (4 * Suc n) v = drop_bit 4 ?w" by (simp add: algebra_simps)
  have "unat (take_bit 4 ?w) < 16" by (simp add: take_bit_eq_mod unat_mod)
  then have h: "hex_value (''0123456789ABCDEF'' ! unat (take_bit 4 ?w)) = Some (take_bit 4 ?w)"
    using hex_digit_value by fastforce
  show ?case
    using Suc.IH Suc.prems unfolding u list.map n d nibble parse_hex_loop.simps h option.case nibble_step by (simp add: mult.commute)
qed simp

text \<open>
  The boot counter's text can be read back: parsing the eight hexadecimal digits of a number gives the number.
\<close>

theorem parse_format_hex32: "parse_hex32 (format_hex32 v) = v"
proof -
  have "drop_bit 32 v = 0" by (rule bit_eqI) (simp add: bit_simps)
  then show ?thesis using parse_hex_digits [of 8 v] by (simp add: parse_hex32_def format_hex32_def)
qed

end
