(* ===== verification/Usercopy.thy ===== *)
theory Usercopy
  imports Paging Word_Mem
begin

text \<open>
  Copying between the kernel and a user address space, \<^verbatim>\<open>src/kernel/usercopy.c\<close>. A kernel buffer that is
  filled is the list of its bytes, one that is read is \<open>Some\<close> list or \<open>None\<close> for a null pointer; where a
  destination may be null, \<open>destination\<close> says whether it is given. User pages are reached through the direct
  map, as in the page-table model.
\<close>

section \<open>Operations\<close>

definition min_u32 :: "u32 \<Rightarrow> u32 \<Rightarrow> u32" where
  "min_u32 left right = (if left < right then left else right)"

definition page_offset :: "u32 \<Rightarrow> u32" where
  "page_offset virtual_address = virtual_address AND (PAGE_SIZE - 1)"

definition copy_chunk :: "u32 \<Rightarrow> u32 \<Rightarrow> u32 \<Rightarrow> u32" where
  "copy_chunk len copied virtual_address = min_u32 (len - copied) (PAGE_SIZE - page_offset virtual_address)"

lemma page_offset_unat: "unat (page_offset va) = unat va mod 4096"
  using low_bits [of va] by (simp add: page_offset_def)

lemma copy_chunk_unat:
  "copied < len \<Longrightarrow> unat (copy_chunk len copied va) = min (unat len - unat copied) (4096 - unat va mod 4096)"
proof -
  assume "copied < len"
  then have "unat (len - copied) = unat len - unat copied" by (simp add: unat_sub_if' word_less_nat_alt)
  moreover have "unat (PAGE_SIZE - page_offset va) = 4096 - unat va mod 4096"
    by (simp add: unat_sub_if' page_offset_unat)
  ultimately show ?thesis by (simp add: copy_chunk_def min_u32_def word_less_nat_alt min_def)
qed

lemma copy_chunk_step:
  assumes "copied < len"
  shows "0 < unat (copy_chunk len copied va)" "unat (copied + copy_chunk len copied va) = unat copied + unat (copy_chunk len copied va)"
    "unat copied + unat (copy_chunk len copied va) \<le> unat len"
proof -
  have l: "unat copied < unat len" using assms by (simp add: word_less_nat_alt)
  show "0 < unat (copy_chunk len copied va)" using l by (simp add: copy_chunk_unat [OF assms])
  show s: "unat copied + unat (copy_chunk len copied va) \<le> unat len" using l by (simp add: copy_chunk_unat [OF assms])
  show "unat (copied + copy_chunk len copied va) = unat copied + unat (copy_chunk len copied va)"
    using s unat_u32_lt [of len] by (intro unat_add_u32) linarith
qed

lemma copy_chunk_measure:
  "copied < len \<Longrightarrow> unat len - unat (copied + copy_chunk len copied va) < unat len - unat copied"
  using copy_chunk_step [of copied len va] by (simp add: word_less_nat_alt)

function copy_from_loop :: "u32 \<Rightarrow> u32 \<Rightarrow> u32 \<Rightarrow> u32 \<Rightarrow> u8 list \<Rightarrow> mem_state \<Rightarrow> u8 list result" where
  "copy_from_loop directory_phys source_address len copied dst s =
     (if copied < len then
        let virtual_address = source_address + copied in
        case paging_lookup_page_in directory_phys virtual_address s of
          Inl e \<Rightarrow> Inl EFAIL
        | Inr (physical_page, page_flags) \<Rightarrow>
            if page_flags AND PAGE_USER = 0 then Inl EFAIL
            else
              let chunk = copy_chunk len copied virtual_address in
              copy_from_loop directory_phys source_address len (copied + chunk)
                (dst @ load_bytes (pm s) (physical_page + page_offset virtual_address) (unat chunk)) s
      else Inr dst)"
  by auto

termination
  by (relation "measure (\<lambda>(_, _, len, copied, _, _). unat len - unat copied)")
    (simp_all add: copy_chunk_measure)

declare copy_from_loop.simps [simp del]

definition user_copy_from_in :: "u32 \<Rightarrow> bool \<Rightarrow> u32 \<Rightarrow> u32 \<Rightarrow> mem_state \<Rightarrow> u8 list result" where
  "user_copy_from_in directory_phys destination source_address len s =
     (if \<not> destination then Inl EFAIL else copy_from_loop directory_phys source_address len 0 [] s)"

text \<open>The page a byte is written to: a copy-on-write page is made private first.\<close>

definition writable_page :: "u32 \<Rightarrow> u32 \<Rightarrow> mem_state \<Rightarrow> u32 result \<times> mem_state" where
  "writable_page directory_phys virtual_address s =
     (case paging_lookup_page_in directory_phys virtual_address s of
        Inl e \<Rightarrow> (Inl EFAIL, s)
      | Inr (physical_page, page_flags) \<Rightarrow>
          if page_flags AND PAGE_USER = 0 then (Inl EFAIL, s)
          else if page_flags AND PAGE_WRITABLE = 0 then
            if page_flags AND PAGE_COPY_ON_WRITE = 0 then (Inl EFAIL, s)
            else
              case paging_resolve_copy_on_write_in directory_phys virtual_address s of
                (Inl e, s1) \<Rightarrow> (Inl EFAIL, s1)
              | (Inr _, s1) \<Rightarrow>
                  (case paging_lookup_page_in directory_phys virtual_address s1 of
                     Inl e \<Rightarrow> (Inl EFAIL, s1)
                   | Inr (physical_page1, page_flags1) \<Rightarrow>
                       if page_flags1 AND (PAGE_USER OR PAGE_WRITABLE) \<noteq> PAGE_USER OR PAGE_WRITABLE then (Inl EFAIL, s1)
                       else (Inr physical_page1, s1))
          else (Inr physical_page, s))"

function copy_to_loop :: "u32 \<Rightarrow> u32 \<Rightarrow> u8 list \<Rightarrow> u32 \<Rightarrow> u32 \<Rightarrow> mem_state \<Rightarrow> unit result \<times> mem_state" where
  "copy_to_loop directory_phys destination_address src len copied s =
     (if copied < len then
        let virtual_address = destination_address + copied in
        case writable_page directory_phys virtual_address s of
          (Inl e, s1) \<Rightarrow> (Inl EFAIL, s1)
        | (Inr physical_page, s1) \<Rightarrow>
            let chunk = copy_chunk len copied virtual_address;
                bytes = take (unat chunk) (drop (unat copied) src)
            in copy_to_loop directory_phys destination_address src len (copied + chunk)
                 (s1\<lparr>pm := store_bytes (physical_page + page_offset virtual_address) bytes (pm s1)\<rparr>)
      else (Inr (), s))"
  by auto

termination
  by (relation "measure (\<lambda>(_, _, _, len, copied, _). unat len - unat copied)")
    (simp_all add: copy_chunk_measure)

declare copy_to_loop.simps [simp del]

definition user_copy_to_in :: "u32 \<Rightarrow> u32 \<Rightarrow> u8 list option \<Rightarrow> u32 \<Rightarrow> mem_state \<Rightarrow> unit result \<times> mem_state" where
  "user_copy_to_in directory_phys destination_address src len s =
     (case src of None \<Rightarrow> (Inl EFAIL, s) | Some bytes \<Rightarrow> copy_to_loop directory_phys destination_address bytes len 0 s)"

text \<open>Copying a string: the bytes up to and including the terminator.\<close>

fun copy_string_loop :: "u32 \<Rightarrow> u32 \<Rightarrow> nat list \<Rightarrow> u8 list \<Rightarrow> mem_state \<Rightarrow> u8 list result" where
  "copy_string_loop directory_phys source_address [] dst s = Inl EFAIL"
| "copy_string_loop directory_phys source_address (index # rest) dst s =
     (case user_copy_from_in directory_phys True (source_address + of_nat index) 1 s of
        Inl e \<Rightarrow> Inl EFAIL
      | Inr bytes \<Rightarrow>
          if bytes ! 0 = 0 then Inr (dst @ bytes) else copy_string_loop directory_phys source_address rest (dst @ bytes) s)"

definition user_copy_string_from_in :: "u32 \<Rightarrow> bool \<Rightarrow> u32 \<Rightarrow> u32 \<Rightarrow> mem_state \<Rightarrow> u8 list result" where
  "user_copy_string_from_in directory_phys destination source_address max_length s =
     (if \<not> destination \<or> max_length = 0 then Inl EFAIL
      else copy_string_loop directory_phys source_address [0..<unat max_length] [] s)"

definition user_copy_from :: "bool \<Rightarrow> u32 \<Rightarrow> u32 \<Rightarrow> mem_state \<Rightarrow> u8 list result" where
  "user_copy_from destination source_address len s =
     user_copy_from_in (paging_current_directory_phys s) destination source_address len s"

definition user_copy_to :: "u32 \<Rightarrow> u8 list option \<Rightarrow> u32 \<Rightarrow> mem_state \<Rightarrow> unit result \<times> mem_state" where
  "user_copy_to destination_address src len s =
     user_copy_to_in (paging_current_directory_phys s) destination_address src len s"

definition user_copy_string_from :: "bool \<Rightarrow> u32 \<Rightarrow> u32 \<Rightarrow> mem_state \<Rightarrow> u8 list result" where
  "user_copy_string_from destination source_address max_length s =
     user_copy_string_from_in (paging_current_directory_phys s) destination source_address max_length s"

section \<open>User memory as bytes\<close>

text \<open>The byte a user program may read at a virtual address.\<close>

definition user_byte :: "u32 \<Rightarrow> u32 \<Rightarrow> mem_state \<Rightarrow> u8 option" where
  "user_byte d va s =
     (case paging_lookup_page_in d va s of
        Inl e \<Rightarrow> None
      | Inr (p, f) \<Rightarrow> if f AND PAGE_USER = 0 then None else Some (load_byte (pm s) (p + page_offset va)))"

lemma lookup_same_page:
  assumes "unat a div 4096 = unat b div 4096"
  shows "paging_lookup_page_in d a s = paging_lookup_page_in d b s"
proof -
  have "unat c div 4194304 = unat c div 4096 div 1024" for c :: u32 by (simp add: div_mult2_eq [symmetric])
  then have "page_directory_index a = page_directory_index b" "page_table_index a = page_table_index b"
    using assms by (simp_all add: index_unat)
  then show ?thesis by (simp add: paging_lookup_page_in_def Let_def)
qed

lemma page_step:
  assumes "i < 4096 - unat va mod 4096"
  shows "unat (va + of_nat i) div 4096 = unat va div 4096" "page_offset (va + of_nat i) = page_offset va + of_nat i"
proof -
  obtain k r where v: "unat va = 4096 * k + r" "r < 4096" using mult_div_mod_eq [of 4096 "unat va"] mod_less_divisor [of 4096 "unat va"] by (metis zero_less_numeral)
  have k: "k < 1048576" using unat_u32_lt [of va] v by simp
  have m: "unat va mod 4096 = r" "unat va div 4096 = k" using v by simp_all
  have i: "r + i < 4096" using assms m by simp
  then have u: "unat (va + of_nat i) = 4096 * k + (r + i)"
    using v k by (subst unat_add_u32) (simp_all add: unat_of_nat_u32)
  show "unat (va + of_nat i) div 4096 = unat va div 4096" unfolding u m using i by simp
  have "unat (page_offset (va + of_nat i)) = r + i" unfolding page_offset_unat u using i by simp
  moreover have "unat (page_offset va + of_nat i) = r + i"
    using i m by (subst unat_add_u32) (simp_all add: unat_of_nat_u32 page_offset_unat)
  ultimately show "page_offset (va + of_nat i) = page_offset va + of_nat i" by (simp add: word_unat_eq_iff)
qed

lemma user_byte_page:
  assumes "paging_lookup_page_in d va s = Inr (p, f)" "f AND PAGE_USER \<noteq> 0" "i < 4096 - unat va mod 4096"
  shows "user_byte d (va + of_nat i) s = Some (load_byte (pm s) (p + page_offset va + of_nat i))"
  using assms lookup_same_page [OF page_step(1) [OF assms(3)], of d s] page_step(2) [OF assms(3)]
  by (simp add: user_byte_def add.assoc)

lemma copy_from_loop_bytes:
  assumes "unat copied \<le> unat len"
  shows "copy_from_loop d src len copied dst s =
    (if \<forall>i\<in>{unat copied..<unat len}. user_byte d (src + of_nat i) s \<noteq> None
     then Inr (dst @ map (\<lambda>i. the (user_byte d (src + of_nat i) s)) [unat copied..<unat len]) else Inl EFAIL)"
  using assms
proof (induction d src len copied dst s rule: copy_from_loop.induct)
  case (1 d src len copied dst s)
  show ?case
  proof (cases "copied < len")
    case False
    then show ?thesis using 1(2) by (simp add: copy_from_loop.simps word_less_nat_alt)
  next
    case True
    let ?va = "src + copied"
    have l: "unat copied < unat len" using True by (simp add: word_less_nat_alt)
    show ?thesis
    proof (cases "\<exists>p f. paging_lookup_page_in d ?va s = Inr (p, f) \<and> f AND PAGE_USER \<noteq> 0")
      case False
      then have "user_byte d (src + of_nat (unat copied)) s = None"
        by (auto simp: user_byte_def split: sum.splits)
      moreover have "copy_from_loop d src len copied dst s = Inl EFAIL"
        using False True by (subst copy_from_loop.simps) (auto simp: Let_def split: sum.splits)
      ultimately show ?thesis using l by force
    next
      case ok: True
      then obtain p f where pf: "paging_lookup_page_in d ?va s = Inr (p, f)" "f AND PAGE_USER \<noteq> 0" by blast
      define c where "c = copy_chunk len copied ?va"
      note st = copy_chunk_step [OF True, of ?va, folded c_def]
      have cb: "unat c \<le> 4096 - unat ?va mod 4096" using copy_chunk_unat [OF True, of ?va] by (simp add: c_def)
      let ?bs = "load_bytes (pm s) (p + page_offset ?va) (unat c)"
      have step: "copy_from_loop d src len copied dst s = copy_from_loop d src len (copied + c) (dst @ ?bs) s"
        using True pf by (subst copy_from_loop.simps) (simp add: Let_def c_def)
      have ub: "user_byte d (src + of_nat (unat copied + i)) s = Some (?bs ! i)" if "i < unat c" for i
        using user_byte_page [OF pf, of i] that cb by (simp add: load_bytes_nth algebra_simps)
      have "?bs = map (\<lambda>i. the (user_byte d (src + of_nat i) s)) [unat copied..<unat copied + unat c]"
        by (rule nth_equalityI) (use ub in auto)
      moreover have "[unat copied..<unat len] = [unat copied..<unat copied + unat c] @ [unat copied + unat c..<unat len]"
        using upt_add_eq_append [of "unat copied" "unat copied + unat c" "unat len - (unat copied + unat c)"] st(3) by simp
      moreover have "(\<forall>i\<in>{unat copied..<unat len}. user_byte d (src + of_nat i) s \<noteq> None) \<longleftrightarrow>
          (\<forall>i\<in>{unat copied + unat c..<unat len}. user_byte d (src + of_nat i) s \<noteq> None)"
      proof -
        have "user_byte d (src + of_nat i) s \<noteq> None" if "unat copied \<le> i" "i < unat copied + unat c" for i
          using ub [of "i - unat copied"] that by simp
        then show ?thesis by force
      qed
      ultimately show ?thesis
        unfolding step using 1(1) [OF True refl pf(1) refl _ refl, folded c_def] pf(2) st by simp
    qed
  qed
qed

text \<open>
  C36. Copying from user memory succeeds exactly when every byte of the range is in a page the user may read, and
  then returns the bytes at those virtual addresses, page boundaries included.
\<close>

theorem user_copy_from_in_correct:
  "user_copy_from_in d True src len s =
    (if list_all (\<lambda>i. user_byte d (src + of_nat i) s \<noteq> None) [0..<unat len]
     then Inr (map (\<lambda>i. the (user_byte d (src + of_nat i) s)) [0..<unat len]) else Inl EFAIL)"
  using copy_from_loop_bytes [of 0 len d src "[]" s]
  by (simp add: user_copy_from_in_def list_all_iff atLeast0LessThan)

section \<open>Isolation of copies to user memory\<close>

lemma word_addr_page:
  assumes "page_aligned p" "off < 4096"
  shows "word_addr (p + off) = p + word_addr off" "byte_pos (p + off) = byte_pos off" "word_addr off < 4096"
proof -
  have m: "unat (x AND NOT 3) = unat x div 4 * 4" for x :: u32
    using unat_and_not_mask [of x 2] by (simp add: mask_eq_exp_minus_1)
  have m3: "unat (x AND 3) = unat x mod 4" for x :: u32
  proof -
    have "x AND 3 = take_bit 2 x" by (simp add: take_bit_eq_mask mask_eq_exp_minus_1)
    then show ?thesis by (simp add: take_bit_eq_mod unat_mod)
  qed
  obtain k where k: "unat p = 4096 * k" "k < 1048576" using page_alignedE [OF assms(1)] .
  have o: "unat off < 4096" using assms(2) by (simp add: word_less_nat_alt)
  have u: "unat (p + off) = 4096 * k + unat off" using k o by (simp add: unat_add_u32)
  have w: "unat (word_addr off) = unat off div 4 * 4" unfolding word_addr_def by (rule m)
  have w': "unat (p + word_addr off) = 4096 * k + unat off div 4 * 4" using k o w by (subst unat_add_u32) simp_all
  have d: "(4096 * k + unat off) div 4 * 4 = 4096 * k + unat off div 4 * 4" "(4096 * k + unat off) mod 4 = unat off mod 4"
    using div_mult_self4 [of 4 "1024 * k" "unat off"] mod_mult_self4 [of 4 "1024 * k" "unat off"] by simp_all
  show "word_addr (p + off) = p + word_addr off" unfolding word_unat_eq_iff w' unfolding word_addr_def m u by (rule d(1))
  show "byte_pos (p + off) = byte_pos off" using d(2) by (simp add: byte_pos_def m3 u)
  show "word_addr off < 4096" using o w by (simp add: word_less_nat_alt)
qed

lemma load_byte_page:
  assumes "\<forall>off<4096. m (q + off) = n (p + off)" "page_aligned p" "page_aligned q" "off < 4096"
  shows "load_byte m (q + off) = load_byte n (p + off)"
  using assms word_addr_page [OF assms(2,4)] word_addr_page [OF assms(3,4)] by (simp add: load_byte_def)

lemma store_bytes_page:
  assumes "page_aligned q" "unat off + length bs \<le> 4096" "\<not> a - q < 4096"
  shows "store_bytes (q + off) bs m a = m a"
  using assms(2)
proof (induction bs arbitrary: off m)
  case (Cons b bs)
  have o: "off < 4096" using Cons.prems by (simp add: word_less_nat_alt)
  have "word_addr (q + off) \<noteq> a"
    using word_addr_page [OF assms(1) o] assms(3) by auto
  moreover have "unat (off + 1) + length bs \<le> 4096"
    using Cons.prems by (simp add: unat_Suc_u32)
  ultimately show ?case using Cons.IH [of "off + 1"] by (simp add: store_byte_def add.assoc)
qed simp

definition user_va :: "u32 \<Rightarrow> bool" where
  "user_va va \<longleftrightarrow> USER_VIRT_BASE \<le> va \<and> va < USER_VIRT_LIMIT"

text \<open>
  The memory of the user address spaces \<open>D\<close>: the places where a frame is mapped, as pairs of directory and page
  number. Every mapped frame has a reference for each of its places and holds no table, and a frame that is
  writable somewhere is mapped nowhere else.
\<close>

definition user_dirs :: "mem_state \<Rightarrow> u32 set \<Rightarrow> u32 set" where
  "user_dirs s D = D - {kernel_page_directory_phys s}"

definition places :: "mem_state \<Rightarrow> u32 set \<Rightarrow> u32 \<Rightarrow> (u32 \<times> nat) set" where
  "places s D p = {(d, unat va div 4096) | d va f. d \<in> user_dirs s D \<and> user_va va \<and> paging_lookup_page_in d va s = Inr (p, f)}"

definition user_mem :: "mem_state \<Rightarrow> u32 set \<Rightarrow> bool" where
  "user_mem s D \<longleftrightarrow> as_inv s D \<and> finite D
     \<and> (\<forall>p. card (places s D p) \<le> page_refs (pal s) p \<and> (places s D p \<noteq> {} \<longrightarrow> p \<notin> table_pages s D \<and> p \<noteq> 0))
     \<and> (\<forall>d\<in>user_dirs s D. \<forall>va p f. user_va va \<longrightarrow> paging_lookup_page_in d va s = Inr (p, f) \<longrightarrow>
          f AND PAGE_WRITABLE \<noteq> 0 \<longrightarrow> places s D p = {(d, unat va div 4096)})"

lemma placesI: "d \<in> user_dirs s D \<Longrightarrow> user_va va \<Longrightarrow> paging_lookup_page_in d va s = Inr (p, f) \<Longrightarrow> (d, unat va div 4096) \<in> places s D p"
  unfolding places_def by blast

lemma finite_places:
  assumes "finite D"
  shows "finite (places s D p)"
proof (rule finite_subset)
  have "unat va div 4096 < 1048576" for va :: u32 using unat_u32_lt [of va] by (simp add: less_mult_imp_div_less)
  then show "places s D p \<subseteq> D \<times> {..<1048576}" unfolding places_def user_dirs_def by auto
qed (use assms in simp)

lemma user_memD:
  assumes "user_mem s D"
  shows "as_inv s D" "finite D" "card (places s D p) \<le> page_refs (pal s) p"
    "d \<in> user_dirs s D \<Longrightarrow> user_va va \<Longrightarrow> paging_lookup_page_in d va s = Inr (p, f) \<Longrightarrow>
      0 < page_refs (pal s) p \<and> p \<notin> table_pages s D \<and> p \<noteq> 0"
    "d \<in> user_dirs s D \<Longrightarrow> user_va va \<Longrightarrow> paging_lookup_page_in d va s = Inr (p, f) \<Longrightarrow>
      f AND PAGE_WRITABLE \<noteq> 0 \<Longrightarrow> places s D p = {(d, unat va div 4096)}"
    "places s D p \<noteq> {} \<Longrightarrow> p \<notin> table_pages s D \<and> p \<noteq> 0"
proof -
  show i: "as_inv s D" "finite D" "card (places s D p) \<le> page_refs (pal s) p"
    "d \<in> user_dirs s D \<Longrightarrow> user_va va \<Longrightarrow> paging_lookup_page_in d va s = Inr (p, f) \<Longrightarrow>
      f AND PAGE_WRITABLE \<noteq> 0 \<Longrightarrow> places s D p = {(d, unat va div 4096)}"
    "places s D p \<noteq> {} \<Longrightarrow> p \<notin> table_pages s D \<and> p \<noteq> 0"
    using assms unfolding user_mem_def by blast+
  assume d: "d \<in> user_dirs s D" "user_va va" "paging_lookup_page_in d va s = Inr (p, f)"
  have ne: "places s D p \<noteq> {}" using placesI [OF d] by blast
  then have "0 < card (places s D p)" using finite_places [OF i(2)] by (simp add: card_gt_0_iff)
  then show "0 < page_refs (pal s) p \<and> p \<notin> table_pages s D \<and> p \<noteq> 0" using i(3,5) ne by linarith
qed

lemma user_va_slot: "user_va va \<Longrightarrow> user_slot (page_directory_index va)"
  using user_slot_va by (simp add: user_va_def)

lemma page_base:
  "unat (va AND PAGE_FRAME_MASK) = unat va div 4096 * 4096" "page_aligned (va AND PAGE_FRAME_MASK)"
  "user_va va \<Longrightarrow> user_va (va AND PAGE_FRAME_MASK)"
  "va AND PAGE_FRAME_MASK = wa AND PAGE_FRAME_MASK \<longleftrightarrow> unat va div 4096 = unat wa div 4096"
proof -
  have u: "unat (x AND PAGE_FRAME_MASK) = unat x div 4096 * 4096" for x :: u32
  proof -
    have "PAGE_FRAME_MASK = NOT (mask 12)" by (simp add: mask_eq_exp_minus_1)
    then show ?thesis using unat_and_not_mask [of x 12] by simp
  qed
  then show "unat (va AND PAGE_FRAME_MASK) = unat va div 4096 * 4096" .
  show "page_aligned (va AND PAGE_FRAME_MASK)" by (simp add: page_aligned_unat u)
  show "va AND PAGE_FRAME_MASK = wa AND PAGE_FRAME_MASK \<longleftrightarrow> unat va div 4096 = unat wa div 4096"
    by (simp add: word_unat_eq_iff u)
  assume "user_va va"
  then have "4194304 \<le> unat va" "unat va < 3221225472" by (simp_all add: user_va_def word_le_nat_alt word_less_nat_alt)
  then have "1024 \<le> unat va div 4096" "unat va div 4096 * 4096 \<le> unat va" by simp_all
  then show "user_va (va AND PAGE_FRAME_MASK)"
    using \<open>unat va < 3221225472\<close> by (simp add: user_va_def word_le_nat_alt word_less_nat_alt u)
qed

lemma page_offset_lt: "page_offset va < 4096"
  by (simp add: word_less_nat_alt page_offset_unat)

text \<open>Two states with the same translations and the same bytes in every mapped page.\<close>

lemma user_byte_cong:
  assumes "paging_lookup_page_in e wa s' = Inr (q, g)" "paging_lookup_page_in e wa s = Inr (p, f)"
    "g AND PAGE_USER = f AND PAGE_USER" "\<forall>off<4096. load s' (q + off) = load s (p + off)"
  shows "user_byte e wa s' = user_byte e wa s"
  using assms load_byte_page [of "pm s'" q "pm s" p "page_offset wa"] page_offset_lt lookup_InrD(3)
  by (auto simp: user_byte_def load_def)

lemma and_exp: "x AND 2 ^ n = (if bit x n then 2 ^ n else (0 :: u32))"
  by (rule bit_eqI) (auto simp: bit_simps)

lemma cow_bits:
  fixes f :: u32
  assumes "f AND PAGE_PRESENT \<noteq> 0" "f AND PAGE_USER \<noteq> 0" "f AND PAGE_COPY_ON_WRITE \<noteq> 0"
  shows "f AND cow_flags = cow_flags"
proof -
  have "bit f 0" "bit f 2" "bit f 9" using assms and_exp [of f 0] and_exp [of f 2] and_exp [of f 9] by (auto split: if_splits)
  then have "f AND 1 = 1" "f AND 4 = 4" "f AND 0x200 = 0x200" using and_exp [of f 0] and_exp [of f 2] and_exp [of f 9] by simp_all
  then have "f AND (1 OR 4 OR 0x200) = (1 OR 4 OR 0x200)" by (simp only: bit.conj_disj_distrib)
  then show ?thesis .
qed

lemma lookup_present: "paging_lookup_page_in d va s = Inr (p, f) \<Longrightarrow> f AND PAGE_PRESENT \<noteq> 0"
  by (auto simp: paging_lookup_page_in_def Let_def and.assoc split: if_splits)

lemma promote_bits:
  "f AND PAGE_USER \<noteq> 0 \<Longrightarrow> promote f AND PAGE_USER = f AND PAGE_USER" "promote f AND PAGE_WRITABLE \<noteq> 0"
proof -
  have b: "bit (promote f) 1" "bit (promote f) 2 = bit f 2" by (auto simp: promote_def bit_simps)
  show "promote f AND PAGE_WRITABLE \<noteq> 0" using b(1) and_exp [of "promote f" 1] by simp
  show "promote f AND PAGE_USER = f AND PAGE_USER" using b(2) and_exp [of "promote f" 2] and_exp [of f 2] by simp
qed

lemma resolve_base:
  "paging_resolve_copy_on_write_in d va s = paging_resolve_copy_on_write_in d (va AND PAGE_FRAME_MASK) s"
  unfolding paging_resolve_copy_on_write_in_def page_base_mask by (simp add: and.assoc)

text \<open>Moving one place from the frame \<open>p\<close> to \<open>q\<close>, which is \<open>p\<close> itself or a frame that was not in use.\<close>

lemma remap_user_mem:
  assumes um: "user_mem s D" and d: "d \<in> user_dirs s D" and va: "user_va va"
    and look: "paging_lookup_page_in d va s = Inr (p, f)"
    and inv': "as_inv s' D" and tp: "table_pages s' D \<subseteq> table_pages s D" and ud: "user_dirs s' D = user_dirs s D"
    and q: "q \<noteq> 0" "q \<notin> table_pages s D"
    and refs: "if page_refs (pal s) p = 1 then q = p \<and> pal s' = pal s
        else page_refs (pal s) q = 0 \<and> page_refs (pal s') = (page_refs (pal s))(q := 1, p := page_refs (pal s) p - 1)"
    and lk': "\<And>e wa. e \<in> user_dirs s D \<Longrightarrow> user_va wa \<Longrightarrow> paging_lookup_page_in e wa s' =
        (if e = d \<and> unat wa div 4096 = unat va div 4096 then Inr (q, g) else paging_lookup_page_in e wa s)"
  shows "places s D q \<subseteq> {(d, unat va div 4096)}" "user_mem s' D"
proof -
  note i = user_memD [OF um]
  let ?k = "unat va div 4096"
  have p: "0 < page_refs (pal s) p" using i(4) [OF d va look] by simp
  have pl: "places s' D x = (places s D x - {(d, ?k)}) \<union> (if x = q then {(d, ?k)} else {})" for x
  proof (intro set_eqI iffI)
    fix y assume "y \<in> places s' D x"
    then obtain e wa g where y: "y = (e, unat wa div 4096)" "e \<in> user_dirs s D" "user_va wa" "paging_lookup_page_in e wa s' = Inr (x, g)"
      unfolding places_def ud by blast
    then show "y \<in> (places s D x - {(d, ?k)}) \<union> (if x = q then {(d, ?k)} else {})"
      using lk' [OF y(2,3)] placesI [OF y(2,3)] by (auto split: if_splits)
  next
    fix y assume y: "y \<in> (places s D x - {(d, ?k)}) \<union> (if x = q then {(d, ?k)} else {})"
    show "y \<in> places s' D x"
    proof (cases "y = (d, ?k)")
      case True
      then have "x = q" using y by (auto split: if_splits)
      then show ?thesis using True placesI [of d s' D va q g] d va lk' [OF d va] ud by simp
    next
      case False
      then have "y \<in> places s D x" using y by (auto split: if_splits)
      then obtain e wa g where y: "y = (e, unat wa div 4096)" "e \<in> user_dirs s D" "user_va wa" "paging_lookup_page_in e wa s = Inr (x, g)"
        unfolding places_def by blast
      then show ?thesis using lk' [OF y(2,3)] False placesI [of e s' D wa x g] ud by auto
    qed
  qed
  show alone: "places s D q \<subseteq> {(d, ?k)}"
  proof (cases "page_refs (pal s) p = 1")
    case True
    then have c: "card (places s D p) \<le> 1" "q = p" using i(3) [of p] refs by auto
    then show ?thesis using placesI [OF d va look] finite_places [OF i(2), of s p] by (metis card_le_Suc0_iff_eq One_nat_def insertI1 subsetI)
  next
    case False
    then have "card (places s D q) = 0" using i(3) [of q] refs by simp
    then show ?thesis using finite_places [OF i(2), of s q] by simp
  qed
  have card: "card (places s' D x) \<le> page_refs (pal s') x" for x
  proof (cases "x = q")
    case True
    then have "places s' D x = {(d, ?k)}" using alone by (auto simp: pl)
    then show ?thesis using refs True p by (cases "page_refs (pal s) p = 1") (auto split: if_splits)
  next
    case False
    have e: "places s' D x = places s D x - {(d, ?k)}" using False by (simp add: pl)
    show ?thesis
    proof (cases "x = p")
      case True
      then have "card (places s D x - {(d, ?k)}) = card (places s D x) - 1" using placesI [OF d va look] by simp
      then show ?thesis using True False refs i(3) [of p] unfolding e by (auto split: if_splits)
    next
      case ne: False
      have "card (places s D x - {(d, ?k)}) \<le> card (places s D x)" using finite_places [OF i(2)] by (simp add: card_mono)
      then show ?thesis using i(3) [of x] refs False ne by (auto simp: e split: if_splits)
    qed
  qed
  show "user_mem s' D"
    unfolding user_mem_def ud
  proof (intro conjI allI ballI impI inv' i(2) card)
    fix x assume "places s' D x \<noteq> {}"
    then have "x = q \<or> places s D x \<noteq> {}" by (auto simp: pl split: if_splits)
    then show "x \<notin> table_pages s' D" "x \<noteq> 0" using i(6) [of x] q tp by auto
  next
    fix e wa x h assume e: "e \<in> user_dirs s D" "user_va wa" "paging_lookup_page_in e wa s' = Inr (x, h)" "h AND PAGE_WRITABLE \<noteq> 0"
    show "places s' D x = {(e, unat wa div 4096)}"
    proof (cases "e = d \<and> unat wa div 4096 = ?k")
      case True
      then have "x = q" using e(3) lk' [OF e(1,2)] by simp
      then show ?thesis using True alone by (auto simp: pl)
    next
      case False
      then have l: "paging_lookup_page_in e wa s = Inr (x, h)" using e(3) lk' [OF e(1,2)] by auto
      note one = i(5) [OF e(1,2) l e(4)]
      have "x \<noteq> q" using alone one False by auto
      then show ?thesis using one False by (auto simp: pl)
    qed
  qed
qed

text \<open>Making a copy-on-write page private is invisible in every address space.\<close>

lemma cow_user_mem:
  assumes um: "user_mem s D" and d: "d \<in> user_dirs s D" and va: "user_va va"
    and look: "paging_lookup_page_in d va s = Inr (p, f)"
    and f: "f AND PAGE_USER \<noteq> 0" "f AND PAGE_WRITABLE = 0" "f AND PAGE_COPY_ON_WRITE \<noteq> 0"
    and run: "paging_resolve_copy_on_write_in d va s = (r, s')"
  shows "user_mem s' D" "user_dirs s' D = user_dirs s D"
    "e \<in> user_dirs s D \<Longrightarrow> user_va wa \<Longrightarrow> user_byte e wa s' = user_byte e wa s"
    "r = Inr u \<Longrightarrow> \<exists>q. paging_lookup_page_in d va s' = Inr (q, promote f)"
proof -
  note i = user_memD [OF um]
  let ?b = "va AND PAGE_FRAME_MASK" and ?k = "unat va div 4096"
  have lb: "paging_lookup_page_in d ?b s = Inr (p, f)"
    using look lookup_same_page [of ?b va d s] page_base(1) [of va] by simp
  have p: "0 < page_refs (pal s) p" "p \<notin> table_pages s D" "p \<noteq> 0" using i(4) [OF d va look] by simp_all
  note fb = cow_bits [OF lookup_present [OF look] f(1,3)]
  have dD: "d \<in> D" "d \<noteq> kernel_page_directory_phys s" using d by (simp_all add: user_dirs_def)
  have bv: "USER_VIRT_BASE \<le> ?b" "?b < USER_VIRT_LIMIT" using page_base(3) [OF va] by (simp_all add: user_va_def)
  note eff = cow_effect [OF i(1) dD page_base(2) bv lb fb f(2) p run [unfolded resolve_base [of d va]]]
  have "user_mem s' D \<and> user_dirs s' D = user_dirs s D
    \<and> (\<forall>e\<in>user_dirs s D. \<forall>wa. user_va wa \<longrightarrow> user_byte e wa s' = user_byte e wa s)
    \<and> (r \<noteq> Inl EFAIL \<longrightarrow> (\<exists>q. paging_lookup_page_in d va s' = Inr (q, promote f))) \<and> (\<forall>e. r = Inl e \<longrightarrow> s' = s)"
  proof (cases r)
    case (Inl e)
    then have "s' = s" using eff by simp
    moreover have "r = Inl EFAIL"
      using run Inl by (auto simp: paging_resolve_copy_on_write_in_def Let_def split: sum.splits prod.splits if_splits)
    ultimately show ?thesis using um by simp
  next
    case (Inr u)
    from eff have inv': "as_inv s' D" and tp: "table_pages s' D \<subseteq> table_pages s D"
      and kd: "kernel_page_directory_phys s' = kernel_page_directory_phys s" unfolding Inr by simp_all
    from eff [unfolded Inr sum.case] obtain q where refs: "if page_refs (pal s) p = 1 then q = p \<and> pal s' = pal s
        else page_refs (pal s) q = 0 \<and> page_refs (pal s') = (page_refs (pal s))(q := 1, p := page_refs (pal s) p - 1)"
      and q: "page_aligned q" "q \<noteq> 0" "q \<notin> table_pages s D"
      and cq: "\<forall>off<4096. load s' (q + off) = load s (p + off)"
      and cx: "\<forall>x off. off < 4096 \<longrightarrow> page_aligned x \<longrightarrow> x \<notin> table_pages s D \<longrightarrow> x \<noteq> q \<longrightarrow> load s' (x + off) = load s (x + off)"
      and lk: "\<forall>e\<in>D. \<forall>wa. page_directory_index wa \<noteq> RECURSIVE_DIRECTORY_INDEX \<longrightarrow> paging_lookup_page_in e wa s' =
          (if e = d \<and> wa AND PAGE_FRAME_MASK = ?b then Inr (q, promote f) else paging_lookup_page_in e wa s)"
      by blast
    have ud: "user_dirs s' D = user_dirs s D" by (simp add: user_dirs_def kd)
    have lk': "paging_lookup_page_in e wa s' = (if e = d \<and> unat wa div 4096 = ?k then Inr (q, promote f) else paging_lookup_page_in e wa s)"
      if "e \<in> user_dirs s D" "user_va wa" for e wa
      using lk that user_va_slot [OF that(2)] by (auto simp: user_dirs_def user_slot_def page_base(4))
    note rm = remap_user_mem [OF um d va look inv' tp ud q(2,3) refs lk']
    have "user_byte e wa s' = user_byte e wa s" if e: "e \<in> user_dirs s D" "user_va wa" for e wa
    proof (cases "e = d \<and> unat wa div 4096 = ?k")
      case True
      then have "paging_lookup_page_in e wa s' = Inr (q, promote f)" "paging_lookup_page_in e wa s = Inr (p, f)"
        using lk' [OF e] look lookup_same_page [of wa va d s] by simp_all
      then show ?thesis using cq promote_bits(1) [OF f(1)] by (intro user_byte_cong [of e wa s' q "promote f" s p f]) simp_all
    next
      case False
      then have same: "paging_lookup_page_in e wa s' = paging_lookup_page_in e wa s" using lk' [OF e] by auto
      show ?thesis
      proof (cases "paging_lookup_page_in e wa s")
        case (Inl err)
        then show ?thesis using same by (simp add: user_byte_def)
      next
        case (Inr xg)
        then obtain x g where l: "paging_lookup_page_in e wa s = Inr (x, g)" by (cases xg) simp
        have "x \<noteq> q" using rm(1) placesI [OF e l] False by auto
        then show ?thesis using same l cx lookup_InrD(3) [OF l] i(4) [OF e l] by (intro user_byte_cong [of _ _ _ x g _ x g]) simp_all
      qed
    qed
    moreover have "paging_lookup_page_in d va s' = Inr (q, promote f)" using lk' [OF d va] by simp
    ultimately show ?thesis using rm(2) ud Inr by auto
  qed
  then show "user_mem s' D" "user_dirs s' D = user_dirs s D"
    "e \<in> user_dirs s D \<Longrightarrow> user_va wa \<Longrightarrow> user_byte e wa s' = user_byte e wa s"
    "r = Inr u \<Longrightarrow> \<exists>q. paging_lookup_page_in d va s' = Inr (q, promote f)" by auto
qed

lemma writable_page_ok:
  assumes um: "user_mem s D" and d: "d \<in> user_dirs s D" and va: "user_va va" and run: "writable_page d va s = (r, s')"
  shows "user_mem s' D" "user_dirs s' D = user_dirs s D"
    "e \<in> user_dirs s D \<Longrightarrow> user_va wa \<Longrightarrow> user_byte e wa s' = user_byte e wa s"
    "r = Inr p \<Longrightarrow> \<exists>f. paging_lookup_page_in d va s' = Inr (p, f) \<and> f AND PAGE_USER \<noteq> 0 \<and> f AND PAGE_WRITABLE \<noteq> 0"
proof -
  have "user_mem s' D \<and> user_dirs s' D = user_dirs s D \<and>
    (\<forall>e\<in>user_dirs s D. \<forall>wa. user_va wa \<longrightarrow> user_byte e wa s' = user_byte e wa s) \<and>
    (\<forall>p. r = Inr p \<longrightarrow> (\<exists>f. paging_lookup_page_in d va s' = Inr (p, f) \<and> f AND PAGE_USER \<noteq> 0 \<and> f AND PAGE_WRITABLE \<noteq> 0))"
  proof (cases "\<exists>p f. paging_lookup_page_in d va s = Inr (p, f) \<and> f AND PAGE_USER \<noteq> 0 \<and> f AND PAGE_WRITABLE = 0 \<and> f AND PAGE_COPY_ON_WRITE \<noteq> 0")
    case True
    then obtain p f where l: "paging_lookup_page_in d va s = Inr (p, f)"
      and f: "f AND PAGE_USER \<noteq> 0" "f AND PAGE_WRITABLE = 0" "f AND PAGE_COPY_ON_WRITE \<noteq> 0" by blast
    obtain c s1 where c: "paging_resolve_copy_on_write_in d va s = (c, s1)" by force
    note cow = cow_user_mem [OF um d va l f c]
    have s': "s' = s1" using run l f c by (auto simp: writable_page_def split: sum.splits if_splits)
    have "\<exists>g. paging_lookup_page_in d va s1 = Inr (q, g) \<and> g AND PAGE_USER \<noteq> 0 \<and> g AND PAGE_WRITABLE \<noteq> 0" if q: "r = Inr q" for q
    proof -
      obtain u where cu: "c = Inr u" using run l f c q by (auto simp: writable_page_def split: sum.splits if_splits)
      from cow(4) [OF this] obtain q' where q': "paging_lookup_page_in d va s1 = Inr (q', promote f)" by blast
      moreover have "q' = q" using run l f c q cu q' by (auto simp: writable_page_def split: if_splits)
      ultimately show ?thesis using promote_bits [of f] f(1) by auto
    qed
    then show ?thesis using cow(1-3) s' by blast
  next
    case False
    then have "s' = s" using run by (auto simp: writable_page_def split: sum.splits if_splits)
    moreover have "\<exists>f. paging_lookup_page_in d va s = Inr (p, f) \<and> f AND PAGE_USER \<noteq> 0 \<and> f AND PAGE_WRITABLE \<noteq> 0" if "r = Inr p" for p
      using run that False by (auto simp: writable_page_def split: sum.splits if_splits)
    ultimately show ?thesis using um by simp
  qed
  then show "user_mem s' D" "user_dirs s' D = user_dirs s D"
    "e \<in> user_dirs s D \<Longrightarrow> user_va wa \<Longrightarrow> user_byte e wa s' = user_byte e wa s"
    "r = Inr p \<Longrightarrow> \<exists>f. paging_lookup_page_in d va s' = Inr (p, f) \<and> f AND PAGE_USER \<noteq> 0 \<and> f AND PAGE_WRITABLE \<noteq> 0" by blast+
qed

text \<open>Writing bytes within a page that is writable changes those bytes of that address space and no others.\<close>

lemma page_write_other:
  assumes "page_aligned p" "page_aligned q" "p \<noteq> q" "a < 4096" "unat b + n \<le> 4096"
  shows "\<not> unat (p + a - (q + b)) < n"
proof
  assume l: "unat (p + a - (q + b)) < n"
  obtain i where i: "unat p = 4096 * i" "i < 1048576" using page_alignedE [OF assms(1)] .
  obtain j where j: "unat q = 4096 * j" "j < 1048576" using page_alignedE [OF assms(2)] .
  define x where "x = p + a - (q + b)"
  have pa: "p + a = q + (b + x)" by (simp add: x_def)
  have "unat b + unat x < 4096" using l assms(5) by (simp add: x_def)
  then have "unat (b + x) = unat b + unat x" by (intro unat_add_u32) simp
  moreover from this have "unat (q + (b + x)) = 4096 * j + (unat b + unat x)" using j \<open>unat b + unat x < 4096\<close> by (subst unat_add_u32) simp_all
  moreover have "unat (p + a) = 4096 * i + unat a" using i assms(4) by (subst unat_add_u32) (simp_all add: word_less_nat_alt)
  ultimately have "4096 * i + unat a = 4096 * j + (unat b + unat x)" using pa by simp
  then have "(4096 * i + unat a) div 4096 = (4096 * j + (unat b + unat x)) div 4096" by simp
  then have "i = j" using assms(4) \<open>unat b + unat x < 4096\<close> by (simp add: word_less_nat_alt)
  then show False using assms(3) i j by (simp add: word_unat_eq_iff)
qed

lemma page_split: "va = (va AND PAGE_FRAME_MASK) + page_offset va"
proof -
  have "unat ((va AND PAGE_FRAME_MASK) + page_offset va) = unat va"
    using unat_u32_lt [of va] by (subst unat_add_u32) (simp_all add: page_base(1) page_offset_unat)
  then show ?thesis by (simp add: word_unat_eq_iff)
qed

lemma page_diff:
  assumes "unat wa div 4096 = unat va div 4096"
  shows "page_offset wa - page_offset va = wa - va"
proof -
  have "wa AND PAGE_FRAME_MASK = va AND PAGE_FRAME_MASK" using assms by (simp add: page_base(4))
  then show ?thesis using page_split [of wa] page_split [of va] by (metis add_diff_cancel_left)
qed

lemma in_chunk_page:
  fixes va wa :: u32
  assumes "unat (wa - va) < n" "n \<le> 4096 - unat va mod 4096"
  shows "unat wa div 4096 = unat va div 4096"
  using page_step(1) [of "unat (wa - va)" va] assms by simp

text \<open>Memory written in a page that holds no table.\<close>

lemma data_user_mem:
  assumes um: "user_mem s D" and p: "page_aligned p" "p \<notin> table_pages s D"
    and same: "\<And>a. \<not> a - p < 4096 \<Longrightarrow> load s' a = load s a"
    and pal: "pal s' = pal s" and kd: "kernel_page_directory_phys s' = kernel_page_directory_phys s"
  shows "user_mem s' D" "user_dirs s' D = user_dirs s D" "table_pages s' D = table_pages s D" "places s' D = places s D"
    "e \<in> user_dirs s D \<Longrightarrow> user_va wa \<Longrightarrow> paging_lookup_page_in e wa s' = paging_lookup_page_in e wa s"
proof -
  note i = user_memD [OF um]
  note w = data_page_write [OF i(1) p same, unfolded pal kd, OF _ as_dirD(4) [OF i(1)] _ refl]
  have inv': "as_inv s' D" and tp: "table_pages s' D = table_pages s D" using w(1,2) by simp_all
  have tr: "translate s' e k l = translate s e k l" if "e \<in> D" "k < 1023" "l < 1024" for e k l using w(3) that by simp
  show ud: "user_dirs s' D = user_dirs s D" by (simp add: user_dirs_def kd)
  show lk: "paging_lookup_page_in e wa s' = paging_lookup_page_in e wa s" if "e \<in> user_dirs s D" "user_va wa" for e wa
    using tr [of e] that user_va_slot [OF that(2)] as_dirD(1) [OF i(1)]
    by (simp add: lookup_translate user_dirs_def user_slot_def Let_def)
  have "places s' D x = places s D x" for x unfolding places_def ud using lk by (auto; metis)
  then show pl: "places s' D = places s D" by (rule ext)
  show "table_pages s' D = table_pages s D" using tp .
  show "user_mem s' D" using um lk unfolding user_mem_def ud pl tp pal using inv' by auto
qed

lemma store_chunk:
  assumes um: "user_mem s D" and d: "d \<in> user_dirs s D" and va: "user_va va"
    and look: "paging_lookup_page_in d va s = Inr (p, f)" and f: "f AND PAGE_USER \<noteq> 0" and one: "places s D p = {(d, unat va div 4096)}"
    and len: "length bs \<le> 4096 - unat va mod 4096"
    and s': "s' = s\<lparr>pm := store_bytes (p + page_offset va) bs (pm s)\<rparr>"
  shows "user_mem s' D" "user_dirs s' D = user_dirs s D" "places s' D = places s D"
    "e \<in> user_dirs s D \<Longrightarrow> user_va wa \<Longrightarrow> user_byte e wa s' =
      (if e = d \<and> unat (wa - va) < length bs then Some (bs ! unat (wa - va)) else user_byte e wa s)"
    "e \<in> user_dirs s D \<Longrightarrow> user_va wa \<Longrightarrow> paging_lookup_page_in e wa s' = paging_lookup_page_in e wa s"
proof -
  note i = user_memD [OF um]
  have p: "p \<notin> table_pages s D" "page_aligned p" using i(4) [OF d va look] lookup_InrD(3) [OF look] by simp_all
  have ol: "unat (page_offset va) + length bs \<le> 4096" using len by (simp add: page_offset_unat)
  have same: "load s' a = load s a" if "\<not> a - p < 4096" for a
    using store_bytes_page [OF p(2) ol that] by (simp add: s' load_def)
  note du = data_user_mem [OF um p(2,1) same]
  show "user_mem s' D" "user_dirs s' D = user_dirs s D" "places s' D = places s D" using du(1,2,4) by (simp_all add: s')
  show lk: "paging_lookup_page_in e wa s' = paging_lookup_page_in e wa s" if "e \<in> user_dirs s D" "user_va wa" for e wa
    using du(5) that by (simp add: s')
  assume e: "e \<in> user_dirs s D" "user_va wa"
  have st: "load_byte (pm s') y = (if unat (y - (p + page_offset va)) < length bs then bs ! unat (y - (p + page_offset va)) else load_byte (pm s) y)" for y
    using load_store_bytes [of bs "p + page_offset va" "pm s" y] ol by (simp add: s')
  show "user_byte e wa s' = (if e = d \<and> unat (wa - va) < length bs then Some (bs ! unat (wa - va)) else user_byte e wa s)"
  proof (cases "e = d \<and> unat wa div 4096 = unat va div 4096")
    case True
    then have "paging_lookup_page_in e wa s = Inr (p, f)" using look lookup_same_page [of wa va d s] by simp
    moreover have "p + page_offset wa - (p + page_offset va) = wa - va" using page_diff [of wa va] True by simp
    ultimately show ?thesis using True lk [OF e] f st [of "p + page_offset wa"] by (simp add: user_byte_def)
  next
    case False
    then have out: "\<not> (e = d \<and> unat (wa - va) < length bs)" using in_chunk_page len by blast
    have "load_byte (pm s') (x + page_offset wa) = load_byte (pm s) (x + page_offset wa)" if l: "paging_lookup_page_in e wa s = Inr (x, g)" for x g
    proof -
      have "x \<noteq> p" using placesI [OF e l] one False by auto
      then show ?thesis using st page_write_other [OF lookup_InrD(3) [OF l] p(2) _ page_offset_lt ol] by simp
    qed
    then show ?thesis using out lk [OF e] by (auto simp: user_byte_def split: sum.splits)
  qed
qed

lemma chunk_window:
  fixes x copied :: u32
  assumes "unat copied + n < 4294967296"
  shows "unat (x - copied) < n \<longleftrightarrow> unat copied \<le> unat x \<and> unat x < unat copied + n"
    "unat copied \<le> unat x \<Longrightarrow> unat (x - copied) = unat x - unat copied"
  using assms by (auto simp: unat_sub_if')

lemma copy_to_loop_ok:
  assumes "user_mem s D" "d \<in> user_dirs s D" "USER_VIRT_BASE \<le> dst" "unat dst + unat len \<le> 0xC0000000"
    "unat len \<le> length src" "unat copied \<le> unat len" "copy_to_loop d dst src len copied s = (r, s')"
  shows "user_mem s' D \<and> user_dirs s' D = user_dirs s D \<and>
    (\<forall>e\<in>user_dirs s D. \<forall>wa. user_va wa \<longrightarrow>
      (if e = d \<and> unat copied \<le> unat (wa - dst) \<and> unat (wa - dst) < unat len
       then r = Inr () \<longrightarrow> user_byte e wa s' = Some (src ! unat (wa - dst))
       else user_byte e wa s' = user_byte e wa s))"
  using assms
proof (induction d dst src len copied s rule: copy_to_loop.induct)
  case (1 d dst src len copied s)
  note um = 1(2) and d = 1(3) and rg = 1(4,5) and src = 1(6) and cl = 1(7) and run = 1(8)
  show ?case
  proof (cases "copied < len")
    case False
    then have "s' = s" using run by (simp add: copy_to_loop.simps)
    then show ?thesis using um False by (auto simp: word_less_nat_alt)
  next
    case True
    define va where "va = dst + copied"
    have lt: "unat copied < unat len" using True by (simp add: word_less_nat_alt)
    have uva: "unat va = unat dst + unat copied" using rg(2) lt by (simp add: va_def unat_add_u32)
    have va: "user_va va" using rg lt uva by (simp add: user_va_def word_le_nat_alt word_less_nat_alt)
    obtain q s1 where wp: "writable_page d va s = (q, s1)" by force
    note w = writable_page_ok [OF um d va wp]
    show ?thesis
    proof (cases q)
      case (Inl e)
      then have "s' = s1" "r = Inl EFAIL" using run True wp by (simp_all add: copy_to_loop.simps va_def)
      then show ?thesis using w(1-3) by simp
    next
      case (Inr p)
      define c where "c = copy_chunk len copied va"
      define bs where "bs = take (unat c) (drop (unat copied) src)"
      define s2 where "s2 = s1\<lparr>pm := store_bytes (p + page_offset va) bs (pm s1)\<rparr>"
      note st = copy_chunk_step [OF True, of va, folded c_def]
      have lb: "length bs = unat c" using st(3) src by (simp add: bs_def)
      have lc: "length bs \<le> 4096 - unat va mod 4096" using copy_chunk_unat [OF True, of va] by (simp add: lb c_def)
      obtain f where f: "paging_lookup_page_in d va s1 = Inr (p, f)" "f AND PAGE_USER \<noteq> 0" "f AND PAGE_WRITABLE \<noteq> 0"
        using w(4) [OF Inr] by blast
      note sc = store_chunk [OF w(1) d [folded w(2)] va f(1,2) user_memD(5) [OF w(1) d [folded w(2)] va f(1,3)] lc s2_def, unfolded w(2)]
      have rec: "copy_to_loop d dst src len (copied + c) s2 = (r, s')"
        using run True wp Inr by (subst (asm) copy_to_loop.simps) (simp add: Let_def va_def c_def bs_def s2_def)
      note ih = 1(1) [OF True refl wp [unfolded va_def, symmetric] Inr refl refl, folded va_def, folded c_def, folded bs_def,
          folded s2_def, OF sc(1) d [folded sc(2)] rg src _ rec, unfolded sc(2)]
      have cw: "unat copied + unat c < 4294967296" using st(3) unat_u32_lt [of len] by linarith
      have sub: "wa - va = wa - dst - copied" for wa by (simp add: va_def)
      have one: "user_byte e wa s2 = (if e = d \<and> unat copied \<le> unat (wa - dst) \<and> unat (wa - dst) < unat copied + unat c
          then Some (src ! unat (wa - dst)) else user_byte e wa s)" if "e \<in> user_dirs s D" "user_va wa" for e wa
        using sc(4) [OF that] w(3) [OF that] chunk_window [OF cw, of "wa - dst"] st(3) src
        by (auto simp: lb sub bs_def)
      have all: "\<forall>e\<in>user_dirs s D. \<forall>wa. user_va wa \<longrightarrow>
          (if e = d \<and> unat copied + unat c \<le> unat (wa - dst) \<and> unat (wa - dst) < unat len
           then r = Inr () \<longrightarrow> user_byte e wa s' = Some (src ! unat (wa - dst))
           else user_byte e wa s' = user_byte e wa s2)" using ih [unfolded st(2), OF st(3)] by blast
      have "if e = d \<and> unat copied \<le> unat (wa - dst) \<and> unat (wa - dst) < unat len
          then r = Inr () \<longrightarrow> user_byte e wa s' = Some (src ! unat (wa - dst))
          else user_byte e wa s' = user_byte e wa s" if e: "e \<in> user_dirs s D" "user_va wa" for e wa
      proof -
        have "if e = d \<and> unat copied + unat c \<le> unat (wa - dst) \<and> unat (wa - dst) < unat len
          then r = Inr () \<longrightarrow> user_byte e wa s' = Some (src ! unat (wa - dst))
          else user_byte e wa s' = user_byte e wa s2" using all e by blast
        then show ?thesis using one [OF e] st by (auto split: if_splits)
      qed
      then show ?thesis using ih [unfolded st(2), OF st(3)] by blast
    qed
  qed
qed

text \<open>
  C35. A copy to user memory of an address space leaves every byte of every other address space as it was, shared
  copy-on-write pages included, and of its own address space it changes no byte outside the range; when it
  succeeds the range holds the bytes of the source. The page tables stay well formed and no writable page
  becomes shared.
\<close>

theorem user_copy_to_in_isolated:
  assumes "user_mem s D" "d \<in> user_dirs s D" "USER_VIRT_BASE \<le> dst" "unat dst + unat len \<le> 0xC0000000"
    "unat len \<le> length src" "user_copy_to_in d dst (Some src) len s = (r, s')"
  shows "user_mem s' D \<and>
    (\<forall>e\<in>user_dirs s D. \<forall>wa. user_va wa \<longrightarrow>
      (if e = d \<and> unat (wa - dst) < unat len
       then r = Inr () \<longrightarrow> user_byte e wa s' = Some (src ! unat (wa - dst))
       else user_byte e wa s' = user_byte e wa s))"
proof -
  have "copy_to_loop d dst src len 0 s = (r, s')" using assms(6) by (simp add: user_copy_to_in_def)
  from copy_to_loop_ok [OF assms(1-5) _ this] show ?thesis by (simp cong: if_cong)
qed

lemma demo_lookups:
  assumes "user_va va" "d \<in> user_dirs demo_mem {0x1000, 0x2000}"
  shows "d = 0x2000"
    "paging_lookup_page_in d va demo_mem = (if unat va div 4096 = 1024 then Inr (0x4000, 0x205) else Inl EFAIL)"
proof -
  show d: "d = 0x2000" using assms(2) by (auto simp: user_dirs_def demo_kernel)
  define n where "n = unat va div 4096"
  have ix: "page_directory_index va = n div 1024" "page_table_index va = n mod 1024"
    by (simp_all add: index_unat n_def flip: div_mult2_eq)
  have "n div 1024 < 1024" using index_bounds(1) [of va] ix by simp
  then have pde: "pde demo_mem 0x2000 (n div 1024) = (if n div 1024 = 1 then 0x3007 else 0)" using demo_pde [of "n div 1024" "0x2000"] by simp
  have pte: "load demo_mem (entry_addr 0x3000 j) = (if j = 0 then 0x4205 else 0)" if "j < 1024" for j
    using demo_aligned that by (auto simp: demo_mem_def load_def entry_addr_eq)
  have "n = 1024 \<longleftrightarrow> n div 1024 = 1 \<and> n mod 1024 = 0"
    using mult_div_mod_eq [of 1024 n] by (auto simp del: mult_div_mod_eq)
  then have "translate demo_mem 0x2000 (n div 1024) (n mod 1024) = (if n = 1024 then 0x4205 else 0)"
    unfolding translate_def pde by (simp add: pte table_of_def)
  then show "paging_lookup_page_in d va demo_mem = (if unat va div 4096 = 1024 then Inr (0x4000, 0x205) else Inl EFAIL)"
    unfolding d lookup_translate [of "0x2000", simplified] ix n_def [symmetric] by simp
qed

lemma demo_user_mem: "user_mem demo_mem {0x1000, 0x2000}"
proof -
  let ?D = "{0x1000, 0x2000} :: u32 set"
  have pl: "places demo_mem ?D p \<subseteq> (if p = 0x4000 then {(0x2000, 1024)} else {})" for p
    unfolding places_def using demo_lookups by (fastforce split: if_splits)
  have "card (places demo_mem ?D p) \<le> page_refs (pal demo_mem) p" for p
  proof (cases "p = 0x4000")
    case True
    then have "card (places demo_mem ?D p) \<le> card {(0x2000 :: u32, 1024 :: nat)}" using pl [of p] by (intro card_mono) auto
    then show ?thesis using True by (simp add: demo_refs)
  qed (use pl [of p] in simp)
  moreover have "p \<notin> table_pages demo_mem ?D \<and> p \<noteq> 0" if "places demo_mem ?D p \<noteq> {}" for p
    using pl [of p] that by (auto simp: table_pages_def demo_pde table_of_def split: if_splits)
  ultimately show ?thesis
    unfolding user_mem_def using demo_as_inv demo_lookups by (auto split: if_splits)
qed

theorem user_copy_to_in_isolated_witness:
  "case user_copy_to_in 0x2000 0x400FFE (Some [1, 2]) 2 demo_mem of
     (r, s') \<Rightarrow> user_mem s' {0x1000, 0x2000} \<and> user_byte 0x2000 0x400000 s' = user_byte 0x2000 0x400000 demo_mem \<and>
       (case r of Inl _ \<Rightarrow> True | Inr _ \<Rightarrow> user_byte 0x2000 0x400FFF s' = Some 2)"
proof -
  obtain r s' where run: "user_copy_to_in 0x2000 0x400FFE (Some [1, 2]) 2 demo_mem = (r, s')" by force
  have d: "0x2000 \<in> user_dirs demo_mem {0x1000, 0x2000}" by (simp add: user_dirs_def demo_kernel)
  have "user_mem s' {0x1000, 0x2000} \<and>
    (\<forall>e\<in>user_dirs demo_mem {0x1000, 0x2000}. \<forall>wa. user_va wa \<longrightarrow>
      (if e = 0x2000 \<and> unat (wa - 0x400FFE) < unat (2 :: u32)
       then r = Inr () \<longrightarrow> user_byte e wa s' = Some ([1, 2] ! unat (wa - 0x400FFE))
       else user_byte e wa s' = user_byte e wa demo_mem))"
    by (rule user_copy_to_in_isolated [OF demo_user_mem d _ _ _ run]) simp_all
  note r = conjunct1 [OF this] bspec [OF conjunct2 [OF this] d]
  show ?thesis using r(1) spec [OF r(2), of "0x400000"] spec [OF r(2), of "0x400FFF"]
    by (simp add: run user_va_def split: sum.splits)
qed

end
