(* ===== verification/Exec.thy ===== *)
theory Exec
  imports Usercopy Vfs
begin

text \<open>
  Program images, \<^verbatim>\<open>src/kernel/exec.c\<close>: reading an ELF file into a fresh address space, laying out the initial
  stack, sharing an image copy-on-write and releasing it. The state is the memory and the virtual file
  system. A pointer to an image is the record itself and an argument vector is a list of strings, so the tests
  for null pointers have no counterpart; console messages are not modelled.
\<close>

section \<open>Data\<close>

abbreviation EXEC_MAX_MAPPED_PAGES :: u32 where "EXEC_MAX_MAPPED_PAGES \<equiv> 32"
abbreviation EXEC_USER_STACK_TOP :: u32 where "EXEC_USER_STACK_TOP \<equiv> 0x00800000"
abbreviation EXEC_MAX_ARGS :: nat where "EXEC_MAX_ARGS \<equiv> 8"
abbreviation EXEC_ARG_MAX :: nat where "EXEC_ARG_MAX \<equiv> 64"
abbreviation ELF_FLAG_WRITE :: u32 where "ELF_FLAG_WRITE \<equiv> 2"
abbreviation ELF_MAX_PROGRAM_HEADERS :: u16 where "ELF_MAX_PROGRAM_HEADERS \<equiv> 8"
abbreviation ELF_HEADER_SIZE :: u32 where "ELF_HEADER_SIZE \<equiv> 52"
abbreviation ELF_PHENT_SIZE :: u32 where "ELF_PHENT_SIZE \<equiv> 32"

record exec_image =
  img_entry_point :: u32
  img_stack_top :: u32
  mapped_virtuals :: "nat \<Rightarrow> u32"
  mapped_pages :: "nat \<Rightarrow> u32"
  mapped_page_count :: u32

record elf32_header =
  e_ident :: "u8 list"
  e_type :: u16
  e_machine :: u16
  e_entry :: u32
  e_phoff :: u32
  e_phentsize :: u16
  e_phnum :: u16

record elf32_program_header =
  p_type :: u32
  p_offset :: u32
  p_vaddr :: u32
  p_filesz :: u32
  p_memsz :: u32
  p_flags :: u32

text \<open>The packed structures of the file format; the fields the loader does not use are left out.\<close>

definition decode_elf32_header :: "u8 list \<Rightarrow> elf32_header" where
  "decode_elf32_header b =
     \<lparr>e_ident = take 16 b, e_type = rd16 b 16, e_machine = rd16 b 18, e_entry = rd32 b 24, e_phoff = rd32 b 28,
      e_phentsize = rd16 b 42, e_phnum = rd16 b 44\<rparr>"

definition decode_elf32_program_header :: "u8 list \<Rightarrow> elf32_program_header" where
  "decode_elf32_program_header b =
     \<lparr>p_type = rd32 b 0, p_offset = rd32 b 4, p_vaddr = rd32 b 8, p_filesz = rd32 b 16, p_memsz = rd32 b 20, p_flags = rd32 b 24\<rparr>"

section \<open>Helpers\<close>

definition exec_align_down :: "u32 \<Rightarrow> u32 \<Rightarrow> u32" where
  "exec_align_down value alignment = value AND NOT (alignment - 1)"

definition exec_align_up :: "u32 \<Rightarrow> u32 \<Rightarrow> u32" where
  "exec_align_up value alignment = (value + alignment - 1) AND NOT (alignment - 1)"

definition exec_reset_image :: exec_image where
  "exec_reset_image =
     \<lparr>img_entry_point = 0, img_stack_top = 0, mapped_virtuals = (\<lambda>_. 0), mapped_pages = (\<lambda>_. 0), mapped_page_count = 0\<rparr>"

definition exec_chunk :: "u32 \<Rightarrow> u32 \<Rightarrow> u32" where
  "exec_chunk cursor remaining =
     (let chunk = PAGE_SIZE - page_offset cursor in if chunk > remaining then remaining else chunk)"

lemma exec_chunk_unat: "unat (exec_chunk cursor remaining) = min (unat remaining) (4096 - unat cursor mod 4096)"
proof -
  have "unat (PAGE_SIZE - page_offset cursor) = 4096 - unat cursor mod 4096"
    by (simp add: unat_sub_if' page_offset_unat)
  then show ?thesis by (simp add: exec_chunk_def Let_def word_less_nat_alt)
qed

lemma exec_chunk_pos: "remaining \<noteq> 0 \<Longrightarrow> 0 < unat (exec_chunk cursor remaining)"
  by (simp add: exec_chunk_unat unat_gt_0)

lemma exec_chunk_measure: "remaining \<noteq> 0 \<Longrightarrow> unat (remaining - exec_chunk cursor remaining) < unat remaining"
proof -
  assume r: "remaining \<noteq> 0"
  have "unat (exec_chunk cursor remaining) \<le> unat remaining" by (simp add: exec_chunk_unat)
  then have "unat (remaining - exec_chunk cursor remaining) = unat remaining - unat (exec_chunk cursor remaining)"
    by (simp add: unat_sub word_le_nat_alt)
  then show ?thesis using exec_chunk_pos [OF r, of cursor] \<open>unat (exec_chunk cursor remaining) \<le> unat remaining\<close> by linarith
qed

text \<open>Writing to the pages of a directory whatever their protection; \<open>src\<close> is what is left to write.\<close>

function exec_write_loop :: "u32 \<Rightarrow> u32 \<Rightarrow> u8 list \<Rightarrow> u32 \<Rightarrow> mem_state \<Rightarrow> unit result \<times> mem_state" where
  "exec_write_loop directory_phys cursor src remaining m =
     (if remaining \<noteq> 0 then
        let physical_page = paging_resolve_physical_in directory_phys cursor m in
        if physical_page = 0 then (Inl EFAIL, m)
        else
          let chunk = exec_chunk cursor remaining in
          exec_write_loop directory_phys (cursor + chunk) (drop (unat chunk) src) (remaining - chunk)
            (m\<lparr>pm := store_bytes (physical_page + page_offset cursor) (take (unat chunk) src) (pm m)\<rparr>)
      else (Inr (), m))"
  by auto

termination
  by (relation "measure (\<lambda>(_, _, _, remaining, _). unat remaining)") (simp_all add: exec_chunk_measure)

declare exec_write_loop.simps [simp del]

definition exec_write_user :: "u32 \<Rightarrow> u32 \<Rightarrow> u8 list \<Rightarrow> mem_state \<Rightarrow> unit result \<times> mem_state" where
  "exec_write_user directory_phys virtual_address src m =
     exec_write_loop directory_phys virtual_address src (of_nat (length src)) m"

definition exec_track_mapping :: "u32 \<Rightarrow> u32 \<Rightarrow> exec_image \<Rightarrow> unit result \<times> exec_image" where
  "exec_track_mapping virtual_address physical img =
     (if mapped_page_count img \<ge> EXEC_MAX_MAPPED_PAGES then (Inl EFAIL, img)
      else (Inr (), img\<lparr>mapped_virtuals := (mapped_virtuals img)(unat (mapped_page_count img) := virtual_address),
              mapped_pages := (mapped_pages img)(unat (mapped_page_count img) := physical),
              mapped_page_count := mapped_page_count img + 1\<rparr>))"

definition exec_mapping_flags :: "u32 \<Rightarrow> u32" where
  "exec_mapping_flags page_flags =
     PAGE_USER OR (if page_flags AND PAGE_WRITABLE \<noteq> 0 then PAGE_WRITABLE else 0)
       OR (if page_flags AND PAGE_COPY_ON_WRITE \<noteq> 0 then PAGE_COPY_ON_WRITE else 0)"

definition exec_validate_header :: "elf32_header \<Rightarrow> u32 \<Rightarrow> bool" where
  "exec_validate_header header image_length =
     (if image_length < ELF_HEADER_SIZE then False
      else if take 4 (e_ident header) \<noteq> [0x7F, 0x45, 0x4C, 0x46] then False
      else if e_ident header ! 4 \<noteq> 1 \<or> e_ident header ! 5 \<noteq> 1 \<or> e_ident header ! 6 \<noteq> 1 then False
      else if e_type header \<noteq> 2 \<or> e_machine header \<noteq> 3 then False
      else if ucast (e_phentsize header) \<noteq> ELF_PHENT_SIZE \<or> e_phnum header = 0 then False
      else
        let ph_end = e_phoff header + ucast (e_phnum header) * ucast (e_phentsize header) in
        \<not> (ph_end < e_phoff header \<or> ph_end > image_length))"

definition exec_segment_in_user_range :: "elf32_program_header \<Rightarrow> bool" where
  "exec_segment_in_user_range ph =
     (let stack_guard = EXEC_USER_STACK_TOP - PAGE_SIZE;
          segment_start = p_vaddr ph;
          segment_end = segment_start + p_memsz ph in
      if p_memsz ph < p_filesz ph then False
      else if segment_end < segment_start then False
      else if segment_start < USER_VIRT_BASE \<or> segment_end > stack_guard then False
      else True)"

text \<open>
  Reading exactly \<open>len\<close> bytes at an offset. The bytes that were read are in the buffer even when there are
  too few of them. \<open>devs\<close> is what the input devices deliver, for a path that names the console.
\<close>

definition exec_read_exact ::
  "input_devices list \<Rightarrow> nat \<Rightarrow> u32 \<Rightarrow> u32 \<Rightarrow> 'w vfs_state \<Rightarrow> bool \<times> u8 list \<times> 'w vfs_state" where
  "exec_read_exact devs f offset len v =
     (case vfs_read_file devs f len (upd_file f (\<lambda>x. x\<lparr>foffset := offset\<rparr>) v) of
        (Inl e, v1) \<Rightarrow> (False, [], v1)
      | (Inr bytes, v1) \<Rightarrow> (length bytes = unat len, bytes, v1))"

section \<open>Loading\<close>

text \<open>
  The pages of a segment. The range check has bounded the segment by the stack page, so the page address does
  not wrap and the loop runs over the list of the pages.
\<close>

definition segment_page_list :: "u32 \<Rightarrow> u32 \<Rightarrow> u32 list" where
  "segment_page_list segment_page segment_end =
     map (\<lambda>i. segment_page + of_nat i * PAGE_SIZE) [0..<(unat segment_end - unat segment_page + 4095) div 4096]"

fun map_segment_pages ::
  "u32 \<Rightarrow> u32 \<Rightarrow> u32 list \<Rightarrow> exec_image \<Rightarrow> mem_state \<Rightarrow> unit result \<times> exec_image \<times> mem_state" where
  "map_segment_pages directory_phys flags [] img m = (Inr (), img, m)"
| "map_segment_pages directory_phys flags (segment_page # rest) img m =
     (if paging_resolve_physical_in directory_phys segment_page m \<noteq> 0 then (Inl EFAIL, img, m)
      else
        let (physical_page, m1) = alloc_page m in
        if physical_page = 0 then (Inl EFAIL, img, m1)
        else
          let page_flags = PAGE_USER OR (if flags AND ELF_FLAG_WRITE \<noteq> 0 then PAGE_WRITABLE else 0) in
          case paging_map_page_in directory_phys segment_page physical_page page_flags (zero_page physical_page m1) of
            (Inl e, m2) \<Rightarrow> (Inl EFAIL, img, release_page physical_page m2)
          | (Inr _, m2) \<Rightarrow>
              (case exec_track_mapping segment_page physical_page img of
                 (Inl e, img1) \<Rightarrow> (Inl EFAIL, img1, release_page physical_page (paging_unmap_page_in directory_phys segment_page m2))
               | (Inr _, img1) \<Rightarrow> map_segment_pages directory_phys flags rest img1 m2))"

function fill_segment ::
  "input_devices list \<Rightarrow> u32 \<Rightarrow> nat \<Rightarrow> u32 \<Rightarrow> u32 \<Rightarrow> u32 \<Rightarrow> mem_state \<Rightarrow> 'w vfs_state \<Rightarrow> unit result \<times> mem_state \<times> 'w vfs_state" where
  "fill_segment devs directory_phys f file_offset virtual_address remaining_file_bytes m v =
     (if remaining_file_bytes \<noteq> 0 then
        let physical_page = paging_resolve_physical_in directory_phys virtual_address m in
        if physical_page = 0 then (Inl EFAIL, m, v)
        else
          let chunk = exec_chunk virtual_address remaining_file_bytes;
              (ok, bytes, v1) = exec_read_exact devs f file_offset chunk v;
              m1 = m\<lparr>pm := store_bytes (physical_page + page_offset virtual_address) bytes (pm m)\<rparr> in
          if \<not> ok then (Inl EFAIL, m1, v1)
          else fill_segment devs directory_phys f (file_offset + chunk) (virtual_address + chunk) (remaining_file_bytes - chunk) m1 v1
      else (Inr (), m, v))"
  by auto

termination
  by (relation "measure (\<lambda>(_, _, _, _, _, remaining, _, _). unat remaining)") (simp_all add: exec_chunk_measure)

declare fill_segment.simps [simp del]

definition exec_map_segment ::
  "input_devices list \<Rightarrow> u32 \<Rightarrow> nat \<Rightarrow> u32 \<Rightarrow> elf32_program_header \<Rightarrow> exec_image \<Rightarrow> mem_state \<Rightarrow> 'w vfs_state \<Rightarrow>
     unit result \<times> exec_image \<times> mem_state \<times> 'w vfs_state" where
  "exec_map_segment devs directory_phys f image_length ph img m v =
     (if \<not> exec_segment_in_user_range ph then (Inl EFAIL, img, m, v)
      else if p_offset ph + p_filesz ph > image_length then (Inl EFAIL, img, m, v)
      else
        let segment_page = exec_align_down (p_vaddr ph) PAGE_SIZE;
            segment_end = exec_align_up (p_vaddr ph + p_memsz ph) PAGE_SIZE in
        case map_segment_pages directory_phys (p_flags ph) (segment_page_list segment_page segment_end) img m of
          (Inl e, img1, m1) \<Rightarrow> (Inl EFAIL, img1, m1, v)
        | (Inr _, img1, m1) \<Rightarrow>
            let (r, m2, v1) = fill_segment devs directory_phys f (p_offset ph) (p_vaddr ph) (p_filesz ph) m1 v
            in (r, img1, m2, v1))"

definition exec_map_stack :: "u32 \<Rightarrow> exec_image \<Rightarrow> mem_state \<Rightarrow> unit result \<times> exec_image \<times> mem_state" where
  "exec_map_stack directory_phys img m =
     (let stack_page = EXEC_USER_STACK_TOP - PAGE_SIZE; (physical_page, m1) = alloc_page m in
      if physical_page = 0 then (Inl EFAIL, img, m1)
      else
        case paging_map_page_in directory_phys stack_page physical_page (PAGE_USER OR PAGE_WRITABLE) (zero_page physical_page m1) of
          (Inl e, m2) \<Rightarrow> (Inl EFAIL, img, release_page physical_page m2)
        | (Inr _, m2) \<Rightarrow>
            (case exec_track_mapping stack_page physical_page img of
               (Inl e, img1) \<Rightarrow> (Inl EFAIL, img1, release_page physical_page (paging_unmap_page_in directory_phys stack_page m2))
             | (Inr _, img1) \<Rightarrow> (Inr (), img1\<lparr>img_stack_top := EXEC_USER_STACK_TOP\<rparr>, m2)))"

definition release_image_page :: "u32 \<Rightarrow> exec_image \<Rightarrow> nat \<Rightarrow> mem_state \<Rightarrow> mem_state" where
  "release_image_page directory_phys img index m =
     (case paging_lookup_page_in directory_phys (mapped_virtuals img index) m of
        Inl e \<Rightarrow> m
      | Inr (physical_page, _) \<Rightarrow>
          release_page physical_page (paging_unmap_page_in directory_phys (mapped_virtuals img index) m))"

definition exec_release_image :: "u32 \<Rightarrow> exec_image \<Rightarrow> mem_state \<Rightarrow> exec_image \<times> mem_state" where
  "exec_release_image directory_phys img m =
     (exec_reset_image, fold (release_image_page directory_phys img) [0..<unat (mapped_page_count img)] m)"

fun load_segments ::
  "input_devices list \<Rightarrow> u32 \<Rightarrow> nat \<Rightarrow> u32 \<Rightarrow> elf32_program_header list \<Rightarrow> nat \<Rightarrow> exec_image \<Rightarrow> mem_state \<Rightarrow> 'w vfs_state \<Rightarrow>
     nat result \<times> exec_image \<times> mem_state \<times> 'w vfs_state" where
  "load_segments devs directory_phys f image_length [] loaded img m v = (Inr loaded, img, m, v)"
| "load_segments devs directory_phys f image_length (ph # rest) loaded img m v =
     (if p_type ph \<noteq> 1 \<or> p_memsz ph = 0 then load_segments devs directory_phys f image_length rest loaded img m v
      else
        case exec_map_segment devs directory_phys f image_length ph img m v of
          (Inl e, img1, m1, v1) \<Rightarrow> (Inl EFAIL, img1, m1, v1)
        | (Inr _, img1, m1, v1) \<Rightarrow> load_segments devs directory_phys f image_length rest (Suc loaded) img1 m1 v1)"

text \<open>The common end of the failing branches after the first segment.\<close>

definition load_failed :: "u32 \<Rightarrow> nat \<Rightarrow> exec_image \<Rightarrow> mem_state \<Rightarrow> 'w vfs_state \<Rightarrow> unit result \<times> exec_image \<times> mem_state \<times> 'w vfs_state" where
  "load_failed directory_phys f img m v =
     (let (img1, m1) = exec_release_image directory_phys img m in (Inl EFAIL, img1, m1, vfs_close_file f v))"

text \<open>The segments, the stack and the entry point, once the headers are read.\<close>

definition load_image ::
  "input_devices list \<Rightarrow> u32 \<Rightarrow> nat \<Rightarrow> u32 \<Rightarrow> elf32_header \<Rightarrow> elf32_program_header list \<Rightarrow> mem_state \<Rightarrow> 'w vfs_state \<Rightarrow>
     unit result \<times> exec_image \<times> mem_state \<times> 'w vfs_state" where
  "load_image devs directory_phys f image_length header program_headers m v =
     (case load_segments devs directory_phys f image_length program_headers 0 exec_reset_image m v of
        (Inl e, img1, m1, v1) \<Rightarrow> load_failed directory_phys f img1 m1 v1
      | (Inr loaded, img1, m1, v1) \<Rightarrow>
          if loaded = 0 then load_failed directory_phys f img1 m1 v1
          else
            case exec_map_stack directory_phys img1 m1 of
              (Inl e, img2, m2) \<Rightarrow> load_failed directory_phys f img2 m2 v1
            | (Inr _, img2, m2) \<Rightarrow> (Inr (), img2\<lparr>img_entry_point := e_entry header\<rparr>, m2, vfs_close_file f v1))"

definition exec_load_path ::
  "input_devices list \<Rightarrow> u32 \<Rightarrow> string \<Rightarrow> exec_image \<Rightarrow> mem_state \<Rightarrow> 'w vfs_state \<Rightarrow> unit result \<times> exec_image \<times> mem_state \<times> 'w vfs_state" where
  "exec_load_path devs directory_phys path img m v =
     (if directory_phys = 0 then (Inl EFAIL, img, m, v)
      else
        case vfs_open_path path VFS_O_RDONLY None v of
          (Inl e, v1) \<Rightarrow> (Inl EFAIL, exec_reset_image, m, v1)
        | (Inr f, v1) \<Rightarrow>
            let image_length = (case finode (file_at v1 f) of None \<Rightarrow> 0 | Some r \<Rightarrow> isize (inode_at v1 r));
                (ok, bytes, v2) = exec_read_exact devs f 0 ELF_HEADER_SIZE v1 in
            if \<not> ok then (Inl EFAIL, exec_reset_image, m, vfs_close_file f v2)
            else
              let header = decode_elf32_header bytes in
              if \<not> exec_validate_header header image_length \<or> e_phnum header > ELF_MAX_PROGRAM_HEADERS
              then (Inl EFAIL, exec_reset_image, m, vfs_close_file f v2)
              else
                let (ok2, phs, v3) = exec_read_exact devs f (e_phoff header) (ucast (e_phnum header) * ELF_PHENT_SIZE) v2 in
                if \<not> ok2 then (Inl EFAIL, exec_reset_image, m, vfs_close_file f v3)
                else
                  let program_headers = map (\<lambda>i. decode_elf32_program_header (drop (32 * i) phs)) [0..<unat (e_phnum header)] in
                  load_image devs directory_phys f image_length header program_headers m v3)"

section \<open>The initial stack\<close>

definition stack_floor :: u32 where "stack_floor = EXEC_USER_STACK_TOP - PAGE_SIZE"

text \<open>The strings, from the first argument down.\<close>

fun push_args :: "u32 \<Rightarrow> string list \<Rightarrow> u32 \<Rightarrow> u32 list \<Rightarrow> mem_state \<Rightarrow> (u32 \<times> u32 list) result \<times> mem_state" where
  "push_args directory_phys [] stack_pointer addresses m = (Inr (stack_pointer, addresses), m)"
| "push_args directory_phys (arg # rest) stack_pointer addresses m =
     (let len = length arg + 1 in
      if len > EXEC_ARG_MAX then (Inl EFAIL, m)
      else
        let sp = stack_pointer - of_nat len in
        if sp < stack_floor then (Inl EFAIL, m)
        else
          case exec_write_user directory_phys sp (text_bytes arg @ [0]) m of
            (Inl e, m1) \<Rightarrow> (Inl EFAIL, m1)
          | (Inr _, m1) \<Rightarrow> push_args directory_phys rest sp (addresses @ [sp]) m1)"

definition push_word :: "u32 \<Rightarrow> u32 \<Rightarrow> u32 \<Rightarrow> mem_state \<Rightarrow> u32 result \<times> mem_state" where
  "push_word directory_phys value stack_pointer m =
     (let sp = stack_pointer - 4 in
      if sp < stack_floor then (Inl EFAIL, m)
      else
        case exec_write_user directory_phys sp (enc32 value) m of
          (Inl e, m1) \<Rightarrow> (Inl EFAIL, m1)
        | (Inr _, m1) \<Rightarrow> (Inr sp, m1))"

fun push_words :: "u32 \<Rightarrow> u32 list \<Rightarrow> u32 \<Rightarrow> mem_state \<Rightarrow> u32 result \<times> mem_state" where
  "push_words directory_phys [] stack_pointer m = (Inr stack_pointer, m)"
| "push_words directory_phys (value # rest) stack_pointer m =
     (case push_word directory_phys value stack_pointer m of
        (Inl e, m1) \<Rightarrow> (Inl EFAIL, m1)
      | (Inr sp, m1) \<Rightarrow> push_words directory_phys rest sp m1)"

text \<open>After the strings: a null pointer, the addresses from the last argument to the first, and their number.\<close>

definition exec_prepare_stack :: "u32 \<Rightarrow> string list \<Rightarrow> exec_image \<Rightarrow> mem_state \<Rightarrow> unit result \<times> exec_image \<times> mem_state" where
  "exec_prepare_stack directory_phys argv img m =
     (if directory_phys = 0 \<or> length argv > EXEC_MAX_ARGS then (Inl EFAIL, img, m)
      else
        case push_args directory_phys argv EXEC_USER_STACK_TOP [] m of
          (Inl e, m1) \<Rightarrow> (Inl EFAIL, img, m1)
        | (Inr (stack_pointer, addresses), m1) \<Rightarrow>
            case push_words directory_phys (0 # rev addresses @ [of_nat (length argv)]) (stack_pointer AND NOT 3) m1 of
              (Inl e, m2) \<Rightarrow> (Inl EFAIL, img, m2)
            | (Inr sp, m2) \<Rightarrow> (Inr (), img\<lparr>img_stack_top := sp\<rparr>, m2))"

section \<open>Sharing\<close>

fun clone_pages :: "u32 \<Rightarrow> u32 \<Rightarrow> exec_image \<Rightarrow> nat list \<Rightarrow> exec_image \<Rightarrow> mem_state \<Rightarrow> unit result \<times> exec_image \<times> mem_state" where
  "clone_pages source_directory target_directory source_image [] target_image m = (Inr (), target_image, m)"
| "clone_pages source_directory target_directory source_image (index # rest) target_image m =
     (let virtual_address = mapped_virtuals source_image index;
          fail = (\<lambda>im mm. let (im1, mm1) = exec_release_image target_directory im mm in (Inl EFAIL, im1, mm1)) in
      case paging_lookup_page_in source_directory virtual_address m of
        Inl e \<Rightarrow> fail target_image m
      | Inr (source_page, page_flags) \<Rightarrow>
          let flags0 = exec_mapping_flags page_flags;
              shared = flags0 AND PAGE_WRITABLE \<noteq> 0;
              target_flags = (if shared then (flags0 AND NOT PAGE_WRITABLE) OR PAGE_COPY_ON_WRITE else flags0);
              (r1, m1) = (if shared then paging_map_page_in source_directory virtual_address source_page target_flags m else (Inr (), m)) in
          case r1 of
            Inl e \<Rightarrow> fail target_image m1
          | Inr _ \<Rightarrow>
              (case palloc_retain_page source_page (pal m1) of
                 (Inl e, a) \<Rightarrow> fail target_image (m1\<lparr>pal := a\<rparr>)
               | (Inr _, a) \<Rightarrow>
                  (case paging_map_page_in target_directory virtual_address source_page target_flags (m1\<lparr>pal := a\<rparr>) of
                     (Inl e, m2) \<Rightarrow> fail target_image (release_page source_page m2)
                   | (Inr _, m2) \<Rightarrow>
                      (case exec_track_mapping virtual_address source_page target_image of
                         (Inl e, im) \<Rightarrow> fail im (release_page source_page (paging_unmap_page_in target_directory virtual_address m2))
                       | (Inr _, im) \<Rightarrow> clone_pages source_directory target_directory source_image rest im m2))))"

definition exec_clone_image :: "u32 \<Rightarrow> u32 \<Rightarrow> exec_image \<Rightarrow> exec_image \<Rightarrow> mem_state \<Rightarrow> unit result \<times> exec_image \<times> mem_state" where
  "exec_clone_image source_directory target_directory source_image target_image m =
     (if source_directory = 0 \<or> target_directory = 0 then (Inl EFAIL, target_image, m)
      else clone_pages source_directory target_directory source_image [0..<unat (mapped_page_count source_image)]
             (exec_reset_image\<lparr>img_entry_point := img_entry_point source_image, img_stack_top := img_stack_top source_image\<rparr>) m)"

end
