(* ===== verification/Exec_Share.thy ===== *)
theory Exec_Share
  imports Exec
begin

text \<open>
  The images of \<^verbatim>\<open>src/kernel/exec.c\<close> as parts of the user memory of theory \<open>Usercopy\<close>: what mapping, retaining, unmapping
  and releasing a user page do to the places of the frames, and from that the correctness of sharing an image
  copy-on-write and of releasing it.
\<close>

section \<open>Changing one place\<close>

text \<open>The frames in use that hold no table keep their bytes and stay clear of the tables.\<close>

definition frames_kept :: "mem_state \<Rightarrow> mem_state \<Rightarrow> u32 set \<Rightarrow> bool" where
  "frames_kept s s' D \<longleftrightarrow>
     (\<forall>x. page_aligned x \<longrightarrow> 0 < page_refs (pal s) x \<longrightarrow> x \<notin> table_pages s D \<longrightarrow>
        x \<notin> table_pages s' D \<and> (\<forall>off<4096. load s' (x + off) = load s (x + off)))"

definition place_set :: "mem_state \<Rightarrow> mem_state \<Rightarrow> u32 set \<Rightarrow> u32 \<Rightarrow> u32 \<Rightarrow> (u32 \<times> u32) result \<Rightarrow> bool" where
  "place_set s s' D d va R \<longleftrightarrow>
     as_inv s' D \<and> user_dirs s' D = user_dirs s D \<and> frames_kept s s' D
     \<and> (\<forall>e\<in>user_dirs s D. \<forall>wa. user_va wa \<longrightarrow> paging_lookup_page_in e wa s' =
          (if e = d \<and> unat wa div 4096 = unat va div 4096 then R else paging_lookup_page_in e wa s))"

lemma place_setD:
  assumes "place_set s s' D d va R"
  shows "as_inv s' D" "user_dirs s' D = user_dirs s D" "frames_kept s s' D"
    "e \<in> user_dirs s D \<Longrightarrow> user_va wa \<Longrightarrow> paging_lookup_page_in e wa s' =
       (if e = d \<and> unat wa div 4096 = unat va div 4096 then R else paging_lookup_page_in e wa s)"
  using assms by (simp_all add: place_set_def)

lemma placesE:
  assumes "y \<in> places s D x"
  obtains e wa g where "y = (e, unat wa div 4096)" "e \<in> user_dirs s D" "user_va wa" "paging_lookup_page_in e wa s = Inr (x, g)"
  using assms unfolding places_def by blast

lemma places_set:
  assumes "place_set s s' D d va R" "d \<in> user_dirs s D" "user_va va"
  shows "places s' D x = (places s D x - {(d, unat va div 4096)}) \<union> (if \<exists>g. R = Inr (x, g) then {(d, unat va div 4096)} else {})"
proof (intro set_eqI iffI)
  note st = place_setD [OF assms(1)]
  fix y assume "y \<in> places s' D x"
  then show "y \<in> (places s D x - {(d, unat va div 4096)}) \<union> (if \<exists>g. R = Inr (x, g) then {(d, unat va div 4096)} else {})"
    using st(4) placesI [of _ s D] by (elim placesE) (auto simp: st(2) split: if_splits)
next
  note st = place_setD [OF assms(1)]
  fix y assume y: "y \<in> (places s D x - {(d, unat va div 4096)}) \<union> (if \<exists>g. R = Inr (x, g) then {(d, unat va div 4096)} else {})"
  show "y \<in> places s' D x"
  proof (cases "y = (d, unat va div 4096)")
    case True
    then obtain g where "R = Inr (x, g)" using y by (auto split: if_splits)
    then show ?thesis using True placesI [of d s' D va x g] assms(2,3) st(2) st(4) [OF assms(2,3)] by simp
  next
    case False
    then have "y \<in> places s D x" using y by (auto split: if_splits)
    then obtain e wa g where y: "y = (e, unat wa div 4096)" "e \<in> user_dirs s D" "user_va wa" "paging_lookup_page_in e wa s = Inr (x, g)"
      by (rule placesE)
    then show ?thesis using st(4) [OF y(2,3)] False placesI [of e s' D wa x g] st(2) by auto
  qed
qed

lemma user_mem_set:
  assumes um: "user_mem s D" and st: "place_set s s' D d va R" and d: "d \<in> user_dirs s D" "user_va va"
    and card: "\<And>x. card (places s' D x) \<le> page_refs (pal s') x"
    and q: "\<And>q g. R = Inr (q, g) \<Longrightarrow> q \<noteq> 0 \<and> q \<notin> table_pages s' D \<and>
      (if g AND PAGE_WRITABLE \<noteq> 0 then places s D q \<subseteq> {(d, unat va div 4096)}
       else \<forall>e\<in>user_dirs s D. \<forall>wa h. user_va wa \<longrightarrow> (e, unat wa div 4096) \<noteq> (d, unat va div 4096) \<longrightarrow>
          paging_lookup_page_in e wa s = Inr (q, h) \<longrightarrow> h AND PAGE_WRITABLE = 0)"
  shows "user_mem s' D"
  unfolding user_mem_def
proof (intro conjI allI ballI impI place_setD(1) [OF st] user_memD(2) [OF um] card)
  note i = user_memD [OF um] and pl = places_set [OF st d]
  fix x assume ne: "places s' D x \<noteq> {}"
  have "x \<notin> table_pages s' D \<and> x \<noteq> 0"
  proof (cases "\<exists>g. R = Inr (x, g)")
    case True
    then show ?thesis using q by blast
  next
    case False
    then obtain z where "z \<in> places s D x" using ne unfolding pl by auto
    then obtain e wa g where y: "e \<in> user_dirs s D" "user_va wa" "paging_lookup_page_in e wa s = Inr (x, g)"
      by (rule placesE)
    then show ?thesis using i(4) [OF y] lookup_InrD(3) [OF y(3)] place_setD(3) [OF st] by (auto simp: frames_kept_def)
  qed
  then show "x \<notin> table_pages s' D" "x \<noteq> 0" by simp_all
next
  note i = user_memD [OF um] and pl = places_set [OF st d]
  let ?k = "unat va div 4096"
  fix e wa x h assume e': "e \<in> user_dirs s' D" "user_va wa" "paging_lookup_page_in e wa s' = Inr (x, h)" "h AND PAGE_WRITABLE \<noteq> 0"
  then have e: "e \<in> user_dirs s D" using place_setD(2) [OF st] by simp
  note lk = place_setD(4) [OF st e e'(2)]
  show "places s' D x = {(e, unat wa div 4096)}"
  proof (cases "e = d \<and> unat wa div 4096 = ?k")
    case True
    then have R: "R = Inr (x, h)" using e'(3) lk by simp
    then have "places s D x \<subseteq> {(d, ?k)}" using q [OF R] e'(4) by (simp split: if_splits)
    then show ?thesis using True R by (auto simp: pl)
  next
    case False
    then have l: "paging_lookup_page_in e wa s = Inr (x, h)" using e'(3) lk by auto
    note one = i(5) [OF e e'(2) l e'(4)]
    have "R \<noteq> Inr (x, g)" for g
    proof
      assume R: "R = Inr (x, g)"
      show False
      proof (cases "g AND PAGE_WRITABLE \<noteq> 0")
        case True
        then show False using q [OF R] one False by (auto split: if_splits)
      next
        case f: False
        then show False using q [OF R] e e'(2,4) l False by (auto split: if_splits)
      qed
    qed
    then show ?thesis using one False by (auto simp: pl)
  qed
qed

text \<open>What the address spaces see.\<close>

lemma user_byte_set:
  assumes um: "user_mem s D" and st: "place_set s s' D d va R" and e: "e \<in> user_dirs s D" "user_va wa"
    and R: "e = d \<Longrightarrow> unat wa div 4096 = unat va div 4096 \<Longrightarrow>
      \<exists>p f g. R = Inr (p, g) \<and> paging_lookup_page_in e wa s = Inr (p, f) \<and> g AND PAGE_USER = f AND PAGE_USER"
  shows "user_byte e wa s' = user_byte e wa s"
proof -
  note lk = place_setD(4) [OF st e] and kept = place_setD(3) [OF st]
  show ?thesis
  proof (cases "paging_lookup_page_in e wa s")
    case (Inl err)
    then show ?thesis using lk R by (cases "e = d \<and> unat wa div 4096 = unat va div 4096") (auto simp: user_byte_def)
  next
    case (Inr pf)
    then obtain p f where l: "paging_lookup_page_in e wa s = Inr (p, f)" by (cases pf) simp
    have "\<forall>off<4096. load s' (p + off) = load s (p + off)"
      using kept user_memD(4) [OF um e l] lookup_InrD(3) [OF l] by (simp add: frames_kept_def)
    moreover obtain g where "paging_lookup_page_in e wa s' = Inr (p, g)" "g AND PAGE_USER = f AND PAGE_USER"
      using lk R l by (cases "e = d \<and> unat wa div 4096 = unat va div 4096") auto
    ultimately show ?thesis using l by (intro user_byte_cong [of e wa s' p g s p f])
  qed
qed

section \<open>The operations\<close>

lemma page_number_eq: "page_aligned va \<Longrightarrow> wa AND PAGE_FRAME_MASK = va \<longleftrightarrow> unat wa div 4096 = unat va div 4096"
  using page_base(4) [of wa va] by (simp add: aligned_frame_mask)

lemma tables_grow_kept:
  assumes "tables_grow s s' D"
  shows "frames_kept s s' D"
  unfolding frames_kept_def
proof (intro allI impI conjI)
  fix x assume x: "page_aligned x" "0 < page_refs (pal s) x" "x \<notin> table_pages s D"
  then show n: "x \<notin> table_pages s' D" using assms by (auto simp: tables_grow_def)
  fix off :: u32 assume "off < 4096"
  then have "x + off - x < 4096" by (simp only: add_diff_cancel_left')
  then have "outside_tables s' D (x + off)" using assms x(1) n by (intro outside_tablesI [of s' D x]) (simp_all add: tables_grow_def)
  then show "load s' (x + off) = load s (x + off)" using assms by (simp add: tables_grow_def)
qed

lemma map_place:
  assumes inv: "as_inv s D" and d: "d \<in> user_dirs s D" and va: "page_aligned va" "user_va va"
    and q: "page_aligned q" "flags AND PAGE_FRAME_MASK = 0"
    and run: "paging_map_page_in d va q flags s = (Inr u, s')"
  shows "place_set s s' D d va (Inr (q, flags OR PAGE_PRESENT))"
    "0 < page_refs (pal s) x \<Longrightarrow> page_refs (pal s') x = page_refs (pal s) x"
proof -
  have dD: "d \<in> D" "d \<noteq> kernel_page_directory_phys s" using d by (simp_all add: user_dirs_def)
  have u: "u = ()" by simp
  note mp = map_page_in_cases [OF inv dD va(1) user_va_slot [OF va(2)] q(1) run]
  have g: "tables_grow s s' D" using mp(3) by simp
  then show "0 < page_refs (pal s) x \<Longrightarrow> page_refs (pal s') x = page_refs (pal s) x" by (simp add: tables_grow_def)
  have fl: "(flags OR PAGE_PRESENT) AND PAGE_FRAME_MASK = 0" using q(2) by (simp add: bit.conj_disj_distrib2)
  have pr: "present (q OR (flags OR PAGE_PRESENT))" by (simp add: present_or)
  have "paging_lookup_page_in e wa s' = (if e = d \<and> unat wa div 4096 = unat va div 4096 then Inr (q, flags OR PAGE_PRESENT)
      else paging_lookup_page_in e wa s)" if e: "e \<in> user_dirs s D" "user_va wa" for e wa
  proof -
    have eD: "e \<in> D" "e \<noteq> 0" using e(1) as_dirD(1) [OF inv] by (auto simp: user_dirs_def)
    show ?thesis
      using mp(4) [of e "page_directory_index wa" "page_table_index wa"] eD user_slot_less(1) [OF user_va_slot [OF e(2)]] index_bounds(2) [of wa]
        page_of_eq [OF va(1), of wa] page_number_eq [OF va(1), of wa] frame_or_flags [OF q(1) fl] pr
      by (auto simp: lookup_translate Let_def)
  qed
  then show "place_set s s' D d va (Inr (q, flags OR PAGE_PRESENT))"
    using g tables_grow_kept [OF g] unfolding place_set_def by (auto simp: tables_grow_def user_dirs_def)
qed

lemma unmap_place:
  assumes inv: "as_inv s D" and d: "d \<in> user_dirs s D" and va: "page_aligned va" "user_va va"
  defines "s' \<equiv> paging_unmap_page_in d va s"
  shows "place_set s s' D d va (Inl EFAIL)" "pal s' = pal s"
proof -
  have dD: "d \<in> D" "d \<noteq> kernel_page_directory_phys s" using d by (simp_all add: user_dirs_def)
  let ?i = "page_directory_index va" and ?j = "page_table_index va"
  note us = user_va_slot [OF va(2)] and al = page_of_eq [OF va(1)] page_number_eq [OF va(1)]
  have "place_set s s' D d va (Inl EFAIL) \<and> pal s' = pal s"
  proof (cases "present (pde s d ?i)")
    case True
    have s': "s' = store (entry_addr (table_of (pde s d ?i)) ?j) 0 s"
      using True va(1) as_dirD(1) [OF inv dD(1)] by (simp add: s'_def paging_unmap_page_in_def page_aligned_def Let_def)
    note st = store_pte [OF inv dD us index_bounds(2) [of va] True, where v = 0, folded s']
    have t: "table_of (pde s d ?i) \<in> table_pages s D" using table_pagesI [OF dD(1) user_slot_less(1) [OF us] True] .
    have "tables_grow s s' D"
      using st(1,2) t entry_addr_self [OF table_of_aligned index_bounds(2) [of va], of "pde s d ?i"]
      by (auto simp: tables_grow_def s' outside_tables_def)
    moreover have "paging_lookup_page_in e wa s' = (if e = d \<and> unat wa div 4096 = unat va div 4096 then Inl EFAIL
        else paging_lookup_page_in e wa s)" if e: "e \<in> user_dirs s D" "user_va wa" for e wa
    proof -
      have eD: "e \<in> D" "e \<noteq> 0" using e(1) as_dirD(1) [OF inv] by (auto simp: user_dirs_def)
      show ?thesis
        using st(3) [of e "page_directory_index wa" "page_table_index wa"] eD user_slot_less(1) [OF user_va_slot [OF e(2)]]
          index_bounds(2) [of wa] al [of wa]
        by (auto simp: lookup_translate Let_def)
    qed
    ultimately show ?thesis using st(1) tables_grow_kept unfolding place_set_def by (auto simp: user_dirs_def s')
  next
    case False
    then have s': "s' = s" by (simp add: s'_def paging_unmap_page_in_def)
    have "paging_lookup_page_in d wa s = Inl EFAIL" if "unat wa div 4096 = unat va div 4096" for wa
      using False that as_dirD(1) [OF inv dD(1)] al [of wa] by (simp add: lookup_translate translate_def)
    then show ?thesis using inv by (auto simp: s' place_set_def frames_kept_def)
  qed
  then show "place_set s s' D d va (Inl EFAIL)" "pal s' = pal s" by simp_all
qed

text \<open>A change of the reference counts.\<close>

lemma lookup_pal [simp]: "paging_lookup_page_in d va (s\<lparr>pal := a\<rparr>) = paging_lookup_page_in d va s"
  by (simp add: paging_lookup_page_in_def Let_def)

lemma views_pal [simp]:
  "user_byte d va (s\<lparr>pal := a\<rparr>) = user_byte d va s"
  "user_dirs (s\<lparr>pal := a\<rparr>) D = user_dirs s D" "table_pages (s\<lparr>pal := a\<rparr>) D = table_pages s D"
  by (simp_all add: user_byte_def user_dirs_def table_pages_def split: sum.splits)

lemma places_pal [simp]: "places (s\<lparr>pal := a\<rparr>) D = places s D"
  by (rule ext) (simp add: places_def)

lemma pal_user_mem:
  assumes um: "user_mem s D" and a: "palloc_inv a"
    and refs: "\<And>x. card (places s D x) \<le> page_refs a x" "\<And>x. x \<in> table_pages s D \<Longrightarrow> 0 < page_refs a x"
  shows "user_mem (s\<lparr>pal := a\<rparr>) D"
proof -
  have "as_inv (s\<lparr>pal := a\<rparr>) D"
    using user_memD(1) [OF um] a refs(2) unfolding as_inv_def by (auto simp: table_pages_def)
  then show ?thesis using um refs(1) by (simp add: user_mem_def)
qed

text \<open>Taking a page out of an address space and dropping its reference.\<close>

lemma release_place:
  assumes um: "user_mem s D" and d: "d \<in> user_dirs s D" and va: "page_aligned va" "user_va va"
    and look: "paging_lookup_page_in d va s = Inr (p, f)"
  defines "s' \<equiv> release_page p (paging_unmap_page_in d va s)"
  shows "user_mem s' D" "user_dirs s' D = user_dirs s D"
    "e \<in> user_dirs s D \<Longrightarrow> user_va wa \<Longrightarrow> e \<noteq> d \<Longrightarrow> user_byte e wa s' = user_byte e wa s"
    "e \<in> user_dirs s D \<Longrightarrow> user_va wa \<Longrightarrow> paging_lookup_page_in e wa s' =
       (if e = d \<and> unat wa div 4096 = unat va div 4096 then Inl EFAIL else paging_lookup_page_in e wa s)"
    "page_refs (pal s') = (page_refs (pal s))(p := page_refs (pal s) p - 1)"
    "places s' D x = places s D x - {(d, unat va div 4096)}"
proof -
  note i = user_memD [OF um]
  define s1 where "s1 = paging_unmap_page_in d va s"
  note st = unmap_place [OF i(1) d va, folded s1_def]
  note pl = places_set [OF st(1) d va(2), simplified]
  have le: "card (places s1 D x) \<le> page_refs (pal s) x" for x
    using i(3) [of x] card_Diff1_le [of "places s D x" "(d, unat va div 4096)"] by (simp add: pl)
  have um1: "user_mem s1 D"
    by (rule user_mem_set [OF um st(1) d va(2)]) (simp_all add: st(2) le)
  have p: "0 < page_refs (pal s) p" "p \<notin> table_pages s D" "p \<noteq> 0" using i(4) [OF d va(2) look] by simp_all
  have a: "palloc_inv (palloc_free_page p (pal s))" "page_refs (palloc_free_page p (pal s)) = (page_refs (pal s))(p := page_refs (pal s) p - 1)"
    using pages.release_ok [of "pal s" p] as_dirD(4) [OF i(1)] p(3) by simp_all
  have s': "s' = s1\<lparr>pal := palloc_free_page p (pal s)\<rparr>" by (simp add: s'_def s1_def [symmetric] release_page_def st(2))
  show "page_refs (pal s') = (page_refs (pal s))(p := page_refs (pal s) p - 1)" by (simp add: s' a(2))
  show "places s' D x = places s D x - {(d, unat va div 4096)}" by (simp add: s' pl)
  have "p \<notin> table_pages s1 D" using place_setD(3) [OF st(1)] p lookup_InrD(3) [OF look] by (simp add: frames_kept_def)
  moreover have "card (places s1 D p) \<le> page_refs (pal s) p - 1"
    using placesI [OF d va(2) look] i(3) [of p] by (simp add: pl)
  ultimately show "user_mem s' D"
    unfolding s' using le table_pages_live [OF user_memD(1) [OF um1]] st(2) by (intro pal_user_mem [OF um1 a(1)]) (auto simp: a(2))
  show "user_dirs s' D = user_dirs s D" by (simp add: s' place_setD(2) [OF st(1)])
  show "e \<in> user_dirs s D \<Longrightarrow> user_va wa \<Longrightarrow> e \<noteq> d \<Longrightarrow> user_byte e wa s' = user_byte e wa s"
    using user_byte_set [OF um st(1)] by (simp add: s')
  show "e \<in> user_dirs s D \<Longrightarrow> user_va wa \<Longrightarrow> paging_lookup_page_in e wa s' =
       (if e = d \<and> unat wa div 4096 = unat va div 4096 then Inl EFAIL else paging_lookup_page_in e wa s)"
    using place_setD(4) [OF st(1)] by (simp add: s')
qed

text \<open>A new address space.\<close>

lemma create_user_mem:
  assumes um: "user_mem m D" and run: "paging_create_address_space m = (d, m')" and d: "d \<noteq> 0"
  shows "user_mem m' (insert d D)" "user_dirs m' (insert d D) = insert d (user_dirs m D)"
    "places m' (insert d D) = places m D" "0 < page_refs (pal m) x \<Longrightarrow> page_refs (pal m') x = page_refs (pal m) x"
    "user_va wa \<Longrightarrow> paging_lookup_page_in d wa m' = Inl EFAIL"
    "e \<in> user_dirs m D \<Longrightarrow> user_va wa \<Longrightarrow> user_byte e wa m' = user_byte e wa m"
proof -
  note i = user_memD [OF um]
  note n = create_address_space_entries [OF i(1) run d] and ef = create_address_space_effect [OF i(1) run d]
  have dk: "d \<noteq> kernel_page_directory_phys m" using n(5) as_dirD(5) [OF i(1)] by auto
  show dirs: "user_dirs m' (insert d D) = insert d (user_dirs m D)" using dk n(5,6) by (auto simp: user_dirs_def)
  have us: "page_directory_index wa \<noteq> 1023 \<and> user_slot (page_directory_index wa)" if "user_va wa" for wa
    using user_va_slot [OF that] by (simp add: user_slot_def)
  show new: "user_va wa \<Longrightarrow> paging_lookup_page_in d wa m' = Inl EFAIL" for wa using ef(4) [of wa] us by simp
  have old: "paging_lookup_page_in e wa m' = paging_lookup_page_in e wa m" if "e \<in> user_dirs m D" "user_va wa" for e wa
    using ef(3) [of e wa] us [OF that(2)] that(1) by (simp add: user_dirs_def)
  have "places m' (insert d D) x = places m D x" for x
    unfolding places_def dirs using new old by fastforce
  then show pl: "places m' (insert d D) = places m D" by (rule ext)
  show refs: "0 < page_refs (pal m) x \<Longrightarrow> page_refs (pal m') x = page_refs (pal m) x" for x using n(1,2) by auto
  have none: "places m D d = {}" using i(3) [of d] n(1) finite_places [OF i(2), of m d] by simp
  show "user_mem m' (insert d D)"
    unfolding user_mem_def pl
  proof (intro conjI allI ballI impI ef(1))
    show "finite (insert d D)" using i(2) by simp
    show "card (places m D p) \<le> page_refs (pal m') p" for p using i(3) [of p] none by (cases "p = d") (simp_all add: n(2))
    show "p \<notin> table_pages m' (insert d D)" "p \<noteq> 0" if "places m D p \<noteq> {}" for p
      using i(6) [OF that] ef(2) none that by auto
    show "places m D p = {(e, unat va div 4096)}" if "e \<in> user_dirs m' (insert d D)" "user_va va"
      "paging_lookup_page_in e va m' = Inr (p, f)" "f AND PAGE_WRITABLE \<noteq> 0" for e va p f
      using i(5) [of e va p f] that new [of va] old [of e va] dirs by auto
  qed
  show "user_byte e wa m' = user_byte e wa m" if e: "e \<in> user_dirs m D" "user_va wa"
  proof (cases "paging_lookup_page_in e wa m")
    case (Inr pf)
    then obtain p f where l: "paging_lookup_page_in e wa m = Inr (p, f)" by (cases pf) simp
    have "p \<noteq> d" using none placesI [OF e l] by auto
    then have "\<not> p + off - d < 4096" if "off < 4096" for off
      using same_frame [OF lookup_InrD(3) [OF l] n(4), of "p + off"] that by (auto simp only: add_diff_cancel_left')
    then have "\<forall>off<4096. load m' (p + off) = load m (p + off)" using n(7) by blast
    then show ?thesis using l old [OF e] by (intro user_byte_cong [of e wa m' p f m p f]) simp_all
  qed (simp add: user_byte_def old [OF e])
qed

section \<open>Releasing an image\<close>

definition image_pages_ok :: "exec_image \<Rightarrow> bool" where
  "image_pages_ok img \<longleftrightarrow> (\<forall>i<unat (mapped_page_count img). page_aligned (mapped_virtuals img i) \<and> user_va (mapped_virtuals img i))"

text \<open>The address spaces other than \<open>d\<close> see the same bytes.\<close>

definition others_same :: "mem_state \<Rightarrow> mem_state \<Rightarrow> u32 set \<Rightarrow> u32 \<Rightarrow> bool" where
  "others_same s s' D d \<longleftrightarrow> user_dirs s' D = user_dirs s D \<and>
     (\<forall>e\<in>user_dirs s D. \<forall>wa. e \<noteq> d \<longrightarrow> user_va wa \<longrightarrow> user_byte e wa s' = user_byte e wa s)"

lemma others_same_refl [simp]: "others_same s s D d"
  by (simp add: others_same_def)

lemma others_same_trans [trans]: "others_same s s1 D d \<Longrightarrow> others_same s1 s2 D d \<Longrightarrow> others_same s s2 D d"
  by (simp add: others_same_def)

lemma release_image_page_ok:
  assumes "user_mem s D" "d \<in> user_dirs s D" "page_aligned (mapped_virtuals img i)" "user_va (mapped_virtuals img i)"
  shows "user_mem (release_image_page d img i s) D" "others_same s (release_image_page d img i s) D d"
    "user_va wa \<Longrightarrow> paging_lookup_page_in d wa (release_image_page d img i s) =
      (if unat wa div 4096 = unat (mapped_virtuals img i) div 4096 then Inl EFAIL else paging_lookup_page_in d wa s)"
proof -
  let ?va = "mapped_virtuals img i" and ?s' = "release_image_page d img i s"
  have "user_mem ?s' D \<and> others_same s ?s' D d \<and> (\<forall>wa. user_va wa \<longrightarrow> paging_lookup_page_in d wa ?s' =
      (if unat wa div 4096 = unat ?va div 4096 then Inl EFAIL else paging_lookup_page_in d wa s))"
  proof (cases "paging_lookup_page_in d ?va s")
    case (Inl e)
    then have "e = EFAIL" by (auto simp: paging_lookup_page_in_def Let_def split: if_splits)
    then have "paging_lookup_page_in d wa s = Inl EFAIL" if "unat wa div 4096 = unat ?va div 4096" for wa
      using lookup_same_page [OF that, of d s] Inl by simp
    then show ?thesis using Inl assms(1) by (simp add: release_image_page_def)
  next
    case (Inr pf)
    then obtain p f where l: "paging_lookup_page_in d ?va s = Inr (p, f)" by (cases pf) simp
    note rp = release_place [OF assms l]
    show ?thesis using rp(1,2,3) rp(4) [OF assms(2)] l by (simp add: release_image_page_def others_same_def)
  qed
  then show "user_mem ?s' D" "others_same s ?s' D d"
    "user_va wa \<Longrightarrow> paging_lookup_page_in d wa ?s' = (if unat wa div 4096 = unat ?va div 4096 then Inl EFAIL else paging_lookup_page_in d wa s)"
    by blast+
qed

lemma release_pages_ok:
  assumes "user_mem s D" "d \<in> user_dirs s D" "\<forall>i\<in>set is. page_aligned (mapped_virtuals img i) \<and> user_va (mapped_virtuals img i)"
  shows "user_mem (fold (release_image_page d img) is s) D \<and> others_same s (fold (release_image_page d img) is s) D d \<and>
    (\<forall>wa. user_va wa \<longrightarrow> paging_lookup_page_in d wa (fold (release_image_page d img) is s) =
      (if \<exists>i\<in>set is. unat wa div 4096 = unat (mapped_virtuals img i) div 4096 then Inl EFAIL else paging_lookup_page_in d wa s))"
  using assms
proof (induction "is" arbitrary: s)
  case (Cons i "is")
  have i: "page_aligned (mapped_virtuals img i)" "user_va (mapped_virtuals img i)" using Cons.prems(3) by simp_all
  note st = release_image_page_ok [OF Cons.prems(1,2) i]
  have d: "d \<in> user_dirs (release_image_page d img i s) D" using st(2) Cons.prems(2) by (simp add: others_same_def)
  show ?case
    using Cons.IH [OF st(1) d] Cons.prems(3) st(3) others_same_trans [OF st(2)] by auto
qed simp

section \<open>Sharing an image\<close>

text \<open>The flags of a shared page: readable by the user and not writable.\<close>

definition shared_flags :: "u32 \<Rightarrow> u32" where
  "shared_flags f = (if exec_mapping_flags f AND PAGE_WRITABLE \<noteq> 0
     then (exec_mapping_flags f AND NOT PAGE_WRITABLE) OR PAGE_COPY_ON_WRITE else exec_mapping_flags f)"

lemma shared_flags:
  "(exec_mapping_flags f AND PAGE_WRITABLE = 0) = (f AND PAGE_WRITABLE = 0)"
  "shared_flags f AND PAGE_FRAME_MASK = 0"
  "(shared_flags f OR PAGE_PRESENT) AND PAGE_WRITABLE = 0" "(shared_flags f OR PAGE_PRESENT) AND PAGE_USER = PAGE_USER"
  by (simp_all add: shared_flags_def exec_mapping_flags_def)

lemma user_bit: "f AND PAGE_USER \<noteq> 0 \<Longrightarrow> f AND PAGE_USER = PAGE_USER"
  using and_exp [of f 2] by (simp split: if_splits)

lemma user_byte_user: "paging_lookup_page_in d va s = Inr (p, f) \<Longrightarrow> user_byte d va s \<noteq> None \<longleftrightarrow> f AND PAGE_USER \<noteq> 0"
  by (simp add: user_byte_def)

text \<open>A page that is mapped read-only is mapped writable nowhere.\<close>

lemma read_only_places:
  assumes um: "user_mem s D" and d: "d \<in> user_dirs s D" "user_va va" "paging_lookup_page_in d va s = Inr (p, f)" "f AND PAGE_WRITABLE = 0"
    and e: "e \<in> user_dirs s D" "user_va wa" "paging_lookup_page_in e wa s = Inr (p, h)"
  shows "h AND PAGE_WRITABLE = 0"
proof (rule ccontr)
  assume "h AND PAGE_WRITABLE \<noteq> 0"
  from user_memD(5) [OF um e this] placesI [OF d(1-3)] have "d = e" "unat va div 4096 = unat wa div 4096" by auto
  then show False using d(3,4) e(3) \<open>h AND PAGE_WRITABLE \<noteq> 0\<close> lookup_same_page [of va wa e s] by simp
qed

lemma share_source:
  assumes um: "user_mem m D" and s: "s \<in> user_dirs m D" and va: "page_aligned va" "user_va va"
    and look: "paging_lookup_page_in s va m = Inr (p, f)" and u: "f AND PAGE_USER \<noteq> 0" and w: "f AND PAGE_WRITABLE \<noteq> 0"
    and run: "paging_map_page_in s va p (shared_flags f) m = (r, m')"
  shows "\<exists>x. r = Inr x" "place_set m m' D s va (Inr (p, shared_flags f OR PAGE_PRESENT))" "user_mem m' D"
    "e \<in> user_dirs m D \<Longrightarrow> user_va wa \<Longrightarrow> user_byte e wa m' = user_byte e wa m"
    "page_refs (pal m') p = page_refs (pal m) p" "places m' D = places m D" "pal m' = pal m"
proof -
  note i = user_memD [OF um]
  have sD: "s \<in> D" "s \<noteq> kernel_page_directory_phys m" using s by (simp_all add: user_dirs_def)
  have p: "page_aligned p" using lookup_InrD(3) [OF look] .
  note mp = map_page_in_present [OF i(1) sD va(1) user_va_slot [OF va(2)] p lookup_InrD(2) [OF look] run]
  then show r: "\<exists>x. r = Inr x" and pal: "pal m' = pal m" by auto
  from r obtain x where "r = Inr x" ..
  note run' = run [unfolded this]
  show st: "place_set m m' D s va (Inr (p, shared_flags f OR PAGE_PRESENT))"
    using map_place(1) [OF i(1) s va p shared_flags(2) run'] .
  have one: "places m D p = {(s, unat va div 4096)}" using i(5) [OF s va(2) look w] .
  have "places m' D y = places m D y" for y
  proof (cases "y = p")
    case False
    have "(s, unat va div 4096) \<notin> places m D y"
    proof
      assume "(s, unat va div 4096) \<in> places m D y"
      then obtain wa g where "unat va div 4096 = unat wa div 4096" "paging_lookup_page_in s wa m = Inr (y, g)" by (auto elim!: placesE)
      then show False using look False lookup_same_page [of va wa s m] by simp
    qed
    then show ?thesis using False by (simp add: places_set [OF st s va(2)])
  qed (simp add: places_set [OF st s va(2)] one)
  then show pl: "places m' D = places m D" by (rule ext)
  show "page_refs (pal m') p = page_refs (pal m) p" by (simp add: pal)
  show "user_mem m' D"
  proof (rule user_mem_set [OF um st s va(2)])
    show "card (places m' D x) \<le> page_refs (pal m') x" for x using i(3) by (simp add: pl pal)
    fix q g assume "Inr (p, shared_flags f OR PAGE_PRESENT) = (Inr (q, g) :: (u32 \<times> u32) result)"
    then have q: "q = p" "g AND PAGE_WRITABLE = 0" using shared_flags(3) [of f] by auto
    have "p \<notin> table_pages m' D" "p \<noteq> 0" using i(4) [OF s va(2) look] mp(3) by auto
    moreover have "(e, unat wa div 4096) = (s, unat va div 4096)"
      if "e \<in> user_dirs m D" "user_va wa" "paging_lookup_page_in e wa m = Inr (p, h)" for e wa h
      using placesI [OF that] one by simp
    ultimately show "q \<noteq> 0 \<and> q \<notin> table_pages m' D \<and>
      (if g AND PAGE_WRITABLE \<noteq> 0 then places m D q \<subseteq> {(s, unat va div 4096)}
       else \<forall>e\<in>user_dirs m D. \<forall>wa h. user_va wa \<longrightarrow> (e, unat wa div 4096) \<noteq> (s, unat va div 4096) \<longrightarrow>
          paging_lookup_page_in e wa m = Inr (q, h) \<longrightarrow> h AND PAGE_WRITABLE = 0)" using q by auto
  qed
  show "user_byte e wa m' = user_byte e wa m" if "e \<in> user_dirs m D" "user_va wa"
    using user_byte_set [OF um st that] look lookup_same_page [of wa va s m] shared_flags(4) [of f] user_bit [OF u] by auto
qed

lemma share_retain:
  assumes um: "user_mem m D" and d: "d \<in> user_dirs m D" and va: "user_va va"
    and look: "paging_lookup_page_in d va m = Inr (p, f)" and b: "page_refs (pal m) p < 65535"
    and run: "palloc_retain_page p (pal m) = (c, a)"
  shows "\<exists>u. c = Inr u" "user_mem (m\<lparr>pal := a\<rparr>) D" "page_refs a = (page_refs (pal m))(p := Suc (page_refs (pal m) p))"
proof -
  note i = user_memD [OF um]
  have p: "0 < page_refs (pal m) p" using i(4) [OF d va look] by simp
  from palloc_retain_page_ok [OF as_dirD(4) [OF i(1)] p b] run
  have a: "c = Inr ()" "palloc_inv a" "page_refs a = (page_refs (pal m))(p := Suc (page_refs (pal m) p))" by auto
  then show "\<exists>u. c = Inr u" "page_refs a = (page_refs (pal m))(p := Suc (page_refs (pal m) p))" by simp_all
  show "user_mem (m\<lparr>pal := a\<rparr>) D"
    using i(3) table_pages_live [OF i(1)] by (intro pal_user_mem [OF um a(2)]) (auto simp: a(3) intro: le_SucI)
qed

text \<open>A reference that stands for no place can be dropped.\<close>

lemma drop_reference:
  assumes um: "user_mem m D" and p: "p \<noteq> 0" "p \<notin> table_pages m D" "card (places m D p) < page_refs (pal m) p"
  shows "user_mem (release_page p m) D" "others_same m (release_page p m) D d"
proof -
  note i = user_memD [OF um]
  have a: "palloc_inv (palloc_free_page p (pal m))" "page_refs (palloc_free_page p (pal m)) = (page_refs (pal m))(p := page_refs (pal m) p - 1)"
    using pages.release_ok [of "pal m" p] as_dirD(4) [OF i(1)] p(1) by simp_all
  show "user_mem (release_page p m) D"
    unfolding release_page_def
    using i(3) p table_pages_live [OF i(1)] by (intro pal_user_mem [OF um a(1)]) (auto simp: a(2))
  show "others_same m (release_page p m) D d" by (simp add: release_page_def others_same_def)
qed

lemma share_target:
  assumes um: "user_mem m D" and t: "t \<in> user_dirs m D" and s: "s \<in> user_dirs m D" "s \<noteq> t"
    and va: "page_aligned va" "user_va va"
    and look: "paging_lookup_page_in s va m = Inr (p, f)" and w: "f AND PAGE_WRITABLE = 0" "F AND PAGE_WRITABLE = 0"
    and free: "card (places m D p) < page_refs (pal m) p" and fl: "F' AND PAGE_FRAME_MASK = 0" "F = F' OR PAGE_PRESENT"
    and run: "paging_map_page_in t va p F' m = (Inr x, m')"
  shows "place_set m m' D t va (Inr (p, F))" "user_mem m' D" "0 < page_refs (pal m) y \<Longrightarrow> page_refs (pal m') y = page_refs (pal m) y"
proof -
  note i = user_memD [OF um]
  have p: "page_aligned p" "0 < page_refs (pal m) p" "p \<notin> table_pages m D" "p \<noteq> 0"
    using lookup_InrD(3) [OF look] i(4) [OF s(1) va(2) look] by simp_all
  show st: "place_set m m' D t va (Inr (p, F))" and rf: "0 < page_refs (pal m) y \<Longrightarrow> page_refs (pal m') y = page_refs (pal m) y" for y
    using map_place [OF i(1) t va p(1) fl(1) run] by (simp_all add: fl(2))
  note pl = places_set [OF st t va(2)]
  show "user_mem m' D"
  proof (rule user_mem_set [OF um st t va(2)])
    fix y
    show "card (places m' D y) \<le> page_refs (pal m') y"
    proof (cases "y = p")
      case True
      have "card (places m' D p) \<le> Suc (card (places m D p))"
        using finite_places [OF i(2), of m p] by (simp add: pl card_insert_if le_SucI)
      then show ?thesis using True free rf [OF p(2)] by simp
    next
      case False
      then have le: "card (places m' D y) \<le> card (places m D y)" using finite_places [OF i(2)] by (simp add: pl card_mono)
      show ?thesis
      proof (cases "page_refs (pal m) y = 0")
        case True
        then show ?thesis using le i(3) [of y] by simp
      next
        case False
        then show ?thesis using le i(3) [of y] rf [of y] by simp
      qed
    qed
  next
    fix q g assume R: "Inr (p, F) = (Inr (q, g) :: (u32 \<times> u32) result)"
    have "p \<notin> table_pages m' D" using place_setD(3) [OF st] p by (simp add: frames_kept_def)
    then show "q \<noteq> 0 \<and> q \<notin> table_pages m' D \<and>
      (if g AND PAGE_WRITABLE \<noteq> 0 then places m D q \<subseteq> {(t, unat va div 4096)}
       else \<forall>e\<in>user_dirs m D. \<forall>wa h. user_va wa \<longrightarrow> (e, unat wa div 4096) \<noteq> (t, unat va div 4096) \<longrightarrow>
          paging_lookup_page_in e wa m = Inr (q, h) \<longrightarrow> h AND PAGE_WRITABLE = 0)"
      using R p(4) w read_only_places [OF um s(1) va(2) look w(1)] by auto
  qed
qed

text \<open>One page, as the loop body leaves it: mapped in both address spaces, writable in neither.\<close>

definition shared_page :: "u32 \<Rightarrow> u32 \<Rightarrow> u32 \<Rightarrow> mem_state \<Rightarrow> bool" where
  "shared_page s t va m \<longleftrightarrow>
     (case (paging_lookup_page_in s va m, paging_lookup_page_in t va m) of
        (Inr (p, f), Inr (q, g)) \<Rightarrow>
          p = q \<and> f AND PAGE_USER \<noteq> 0 \<and> g AND PAGE_USER \<noteq> 0 \<and> f AND PAGE_WRITABLE = 0 \<and> g AND PAGE_WRITABLE = 0
      | _ \<Rightarrow> False)"

lemma shared_page_byte:
  assumes "shared_page s t va m" "unat wa div 4096 = unat va div 4096"
  shows "user_byte t wa m = user_byte s wa m"
  using assms lookup_same_page [OF assms(2), of s m] lookup_same_page [OF assms(2), of t m]
  by (auto simp: shared_page_def user_byte_def split: sum.splits)

lemma share_source_any:
  assumes um: "user_mem m D" and s: "s \<in> user_dirs m D" and va: "page_aligned va" "user_va va"
    and look: "paging_lookup_page_in s va m = Inr (p, f)" and u: "f AND PAGE_USER \<noteq> 0"
    and run: "(if exec_mapping_flags f AND PAGE_WRITABLE \<noteq> 0 then paging_map_page_in s va p (shared_flags f) m else (Inr (), m)) = (r, m1)"
  shows "\<exists>x. r = Inr x" "user_mem m1 D" "user_dirs m1 D = user_dirs m D" "places m1 D = places m D" "pal m1 = pal m"
    "e \<in> user_dirs m D \<Longrightarrow> user_va wa \<Longrightarrow> user_byte e wa m1 = user_byte e wa m"
    "\<exists>g. paging_lookup_page_in s va m1 = Inr (p, g) \<and> g AND PAGE_USER \<noteq> 0 \<and> g AND PAGE_WRITABLE = 0"
    "e \<in> user_dirs m D \<Longrightarrow> user_va wa \<Longrightarrow> (e, unat wa div 4096) \<noteq> (s, unat va div 4096) \<Longrightarrow>
       paging_lookup_page_in e wa m1 = paging_lookup_page_in e wa m"
proof -
  have "(\<exists>x. r = Inr x) \<and> user_mem m1 D \<and> user_dirs m1 D = user_dirs m D \<and> places m1 D = places m D \<and> pal m1 = pal m
    \<and> (\<forall>e\<in>user_dirs m D. \<forall>wa. user_va wa \<longrightarrow> user_byte e wa m1 = user_byte e wa m)
    \<and> (\<exists>g. paging_lookup_page_in s va m1 = Inr (p, g) \<and> g AND PAGE_USER \<noteq> 0 \<and> g AND PAGE_WRITABLE = 0)
    \<and> (\<forall>e\<in>user_dirs m D. \<forall>wa. user_va wa \<longrightarrow> (e, unat wa div 4096) \<noteq> (s, unat va div 4096) \<longrightarrow>
       paging_lookup_page_in e wa m1 = paging_lookup_page_in e wa m)"
  proof (cases "f AND PAGE_WRITABLE = 0")
    case True
    then have "r = Inr ()" "m1 = m" using run shared_flags(1) by simp_all
    then show ?thesis using um look u True by simp
  next
    case False
    then have "paging_map_page_in s va p (shared_flags f) m = (r, m1)" using run shared_flags(1) by simp
    note ss = share_source [OF um s va look u False this]
    show ?thesis using ss(1,3,4,6,7) place_setD(2) [OF ss(2)] place_setD(4) [OF ss(2)] s va(2) shared_flags(3,4) [of f] by auto
  qed
  then show "\<exists>x. r = Inr x" "user_mem m1 D" "user_dirs m1 D = user_dirs m D" "places m1 D = places m D" "pal m1 = pal m"
    "e \<in> user_dirs m D \<Longrightarrow> user_va wa \<Longrightarrow> user_byte e wa m1 = user_byte e wa m"
    "\<exists>g. paging_lookup_page_in s va m1 = Inr (p, g) \<and> g AND PAGE_USER \<noteq> 0 \<and> g AND PAGE_WRITABLE = 0"
    "e \<in> user_dirs m D \<Longrightarrow> user_va wa \<Longrightarrow> (e, unat wa div 4096) \<noteq> (s, unat va div 4096) \<Longrightarrow>
       paging_lookup_page_in e wa m1 = paging_lookup_page_in e wa m" by blast+
qed

text \<open>
  The effect of one round on the memory: either the address spaces other than the target are as before and the round fails,
  or the page is shared too.
\<close>

definition page_shared :: "u32 \<Rightarrow> u32 \<Rightarrow> u32 set \<Rightarrow> u32 \<Rightarrow> mem_state \<Rightarrow> mem_state \<Rightarrow> bool" where
  "page_shared s t D va m m' \<longleftrightarrow>
     user_mem m' D \<and> others_same m m' D t \<and> shared_page s t va m'
     \<and> (\<forall>wa. user_va wa \<longrightarrow> unat wa div 4096 \<noteq> unat va div 4096 \<longrightarrow> shared_page s t wa m' = shared_page s t wa m)
     \<and> (\<forall>x. places m' D x \<noteq> {} \<longrightarrow> places m D x \<noteq> {} \<and> page_refs (pal m') x \<le> Suc (page_refs (pal m) x))"

lemma clone_pages_Cons:
  assumes "paging_lookup_page_in s (mapped_virtuals img i) m = Inr (p, f)"
  shows "clone_pages s t img (i # rest) im m =
    (case (if exec_mapping_flags f AND PAGE_WRITABLE \<noteq> 0
           then paging_map_page_in s (mapped_virtuals img i) p (shared_flags f) m else (Inr (), m)) of
       (Inl e, m1) \<Rightarrow> (Inl EFAIL, exec_release_image t im m1)
     | (Inr _, m1) \<Rightarrow> (case palloc_retain_page p (pal m1) of
           (Inl e, a) \<Rightarrow> (Inl EFAIL, exec_release_image t im (m1\<lparr>pal := a\<rparr>))
         | (Inr _, a) \<Rightarrow> (case paging_map_page_in t (mapped_virtuals img i) p (shared_flags f) (m1\<lparr>pal := a\<rparr>) of
              (Inl e, m2) \<Rightarrow> (Inl EFAIL, exec_release_image t im (release_page p m2))
            | (Inr _, m2) \<Rightarrow> (case exec_track_mapping (mapped_virtuals img i) p im of
                 (Inl e, im') \<Rightarrow> (Inl EFAIL, exec_release_image t im' (release_page p (paging_unmap_page_in t (mapped_virtuals img i) m2)))
               | (Inr _, im') \<Rightarrow> clone_pages s t img rest im' m2))))"
proof -
  have pair: "(case x of (a, b) \<Rightarrow> (c, a, b)) = (c, x)" for x :: "'a \<times> 'b" and c :: 'c by (simp add: split_def)
  show ?thesis
    unfolding clone_pages.simps assms Let_def sum.case prod.case shared_flags_def [symmetric] pair by (rule refl)
qed

lemma clone_round:
  assumes um: "user_mem m D" and s: "s \<in> user_dirs m D" "s \<noteq> t" and t: "t \<in> user_dirs m D"
    and va: "page_aligned va" "user_va va" "va = mapped_virtuals img i" and u: "user_byte s va m \<noteq> None"
    and b: "\<And>x. places m D x \<noteq> {} \<Longrightarrow> page_refs (pal m) x < 65535"
  shows "\<exists>m2. (user_mem m2 D \<and> others_same m m2 D t
        \<and> clone_pages s t img (i # rest) im m = (Inl EFAIL, exec_release_image t im m2))
    \<or> (page_shared s t D va m m2 \<and> (\<exists>p u im2. exec_track_mapping va p im = (Inr u, im2)
        \<and> clone_pages s t img (i # rest) im m = clone_pages s t img rest im2 m2))"
proof -
  obtain p f where look: "paging_lookup_page_in s va m = Inr (p, f)" and fu: "f AND PAGE_USER \<noteq> 0"
    using u by (auto simp: user_byte_def split: sum.splits if_splits)
  have b': "page_refs (pal m) p < 65535" using b placesI [OF s(1) va(2) look] by blast
  obtain r1 m1 where r1: "(if exec_mapping_flags f AND PAGE_WRITABLE \<noteq> 0 then paging_map_page_in s va p (shared_flags f) m else (Inr (), m)) = (r1, m1)"
    by force
  note ss = share_source_any [OF um s(1) va(1,2) look fu r1]
  from ss(1) obtain x1 where x1: "r1 = Inr x1" ..
  from ss(7) obtain g where look1: "paging_lookup_page_in s va m1 = Inr (p, g)" and g: "g AND PAGE_USER \<noteq> 0" "g AND PAGE_WRITABLE = 0" by blast
  have s1: "s \<in> user_dirs m1 D" "t \<in> user_dirs m1 D" using s(1) t ss(3) by simp_all
  obtain c a where c: "palloc_retain_page p (pal m1) = (c, a)" by force
  note sr = share_retain [OF ss(2) s1(1) va(2) look1 b' [folded ss(5)] c]
  from sr(1) obtain x2 where x2: "c = Inr x2" ..
  define ma where "ma = m1\<lparr>pal := a\<rparr>"
  note uma = sr(2) [folded ma_def]
  have looka: "paging_lookup_page_in s va ma = Inr (p, g)" by (simp add: ma_def look1)
  have sa: "s \<in> user_dirs ma D" "t \<in> user_dirs ma D" using s1 by (simp_all add: ma_def)
  have free: "card (places ma D p) < page_refs (pal ma) p" using user_memD(3) [OF ss(2), of p] by (simp add: ma_def sr(3))
  have same: "others_same m ma D t" using ss(3,6) by (simp add: others_same_def ma_def)
  obtain r2 m2 where r2: "paging_map_page_in t va p (shared_flags f) ma = (r2, m2)" by force
  have body: "clone_pages s t img (i # rest) im m =
     (case (r2, m2) of
        (Inl e, m2) \<Rightarrow> (Inl EFAIL, exec_release_image t im (release_page p m2))
      | (Inr _, m2) \<Rightarrow> (case exec_track_mapping va p im of
           (Inl e, im') \<Rightarrow> (Inl EFAIL, exec_release_image t im' (release_page p (paging_unmap_page_in t va m2)))
         | (Inr _, im') \<Rightarrow> clone_pages s t img rest im' m2))"
    unfolding clone_pages_Cons [OF look [unfolded va(3)]] va(3) [symmetric] r1 x1
    by (simp only: prod.case sum.case c x2 r2 flip: ma_def)
  have p: "p \<noteq> 0" "p \<notin> table_pages ma D" using user_memD(4) [OF uma sa(1) va(2) looka] by simp_all
  show ?thesis
  proof (cases r2)
    case (Inl e)
    have tD: "t \<in> D" "t \<noteq> kernel_page_directory_phys ma" using sa(2) by (simp_all add: user_dirs_def)
    note mp = map_page_in_cases(1,2) [OF user_memD(1) [OF uma] tD va(1) user_va_slot [OF va(2)] lookup_InrD(3) [OF looka] r2]
    have "m2 = ma" using mp Inl by auto
    then have "user_mem (release_page p m2) D" "others_same m (release_page p m2) D t"
      using drop_reference [OF uma p free] others_same_trans [OF same] by simp_all
    then show ?thesis using body Inl by auto
  next
    case (Inr x3)
    note st = share_target [OF uma sa(2,1) s(2) va(1,2) looka g(2) shared_flags(3) free shared_flags(2) refl r2 [unfolded Inr]]
    note dirs = place_setD(2) [OF st(1)]
    have same2: "others_same m m2 D t"
      using others_same_trans [OF same, of m2] user_byte_set [OF uma st(1)] dirs by (auto simp: others_same_def)
    have lt: "paging_lookup_page_in t va m2 = Inr (p, shared_flags f OR PAGE_PRESENT)" using place_setD(4) [OF st(1) sa(2) va(2)] by simp
    show ?thesis
    proof (cases "fst (exec_track_mapping va p im)")
      case (Inl e)
      have "snd (exec_track_mapping va p im) = im" using Inl by (auto simp: exec_track_mapping_def split: if_splits)
      then have "clone_pages s t img (i # rest) im m = (Inl EFAIL, exec_release_image t im (release_page p (paging_unmap_page_in t va m2)))"
        using body \<open>r2 = Inr x3\<close> Inl by (cases "exec_track_mapping va p im") simp
      moreover note rp = release_place [OF st(2) sa(2) [folded dirs] va(1,2) lt]
      moreover have "others_same m2 (release_page p (paging_unmap_page_in t va m2)) D t"
        using rp(2,3) by (simp add: others_same_def)
      ultimately show ?thesis using others_same_trans [OF same2] by blast
    next
      case tr: (Inr x4)
      then have go: "clone_pages s t img (i # rest) im m = clone_pages s t img rest (snd (exec_track_mapping va p im)) m2"
        using body \<open>r2 = Inr x3\<close> by (cases "exec_track_mapping va p im") simp
      have ls: "paging_lookup_page_in s va m2 = Inr (p, g)" using place_setD(4) [OF st(1) sa(1) va(2)] looka s(2) by simp
      have sp: "shared_page s t va m2"
        using ls lt g shared_flags(3,4) [of f] by (simp add: shared_page_def)
      have oth: "shared_page s t wa m2 = shared_page s t wa m" if "user_va wa" "unat wa div 4096 \<noteq> unat va div 4096" for wa
        using place_setD(4) [OF st(1) sa(1) that(1)] place_setD(4) [OF st(1) sa(2) that(1)] ss(8) [OF s(1) that(1)] ss(8) [OF t that(1)] that(2)
        by (simp add: shared_page_def ma_def)
      have "places m D x \<noteq> {} \<and> page_refs (pal m2) x \<le> Suc (page_refs (pal m) x)" if x: "places m2 D x \<noteq> {}" for x
      proof -
        have "places ma D x \<noteq> {}" 
          using x placesI [OF sa(1) va(2) looka] by (auto simp: places_set [OF st(1) sa(2) va(2)] split: if_splits)
        then have ne: "places m D x \<noteq> {}" by (simp add: ma_def ss(4))
        then have "0 < page_refs (pal m) x" using user_memD(3) [OF um, of x] finite_places [OF user_memD(2) [OF um], of m x]
          by (metis card_gt_0_iff order_less_le_trans)
        then have "0 < page_refs (pal ma) x" by (simp add: ma_def sr(3) ss(5))
        then show ?thesis using st(3) [of x] ne by (simp add: ma_def sr(3) ss(5))
      qed
      then have "page_shared s t D va m m2" unfolding page_shared_def using st(2) same2 sp oth by blast
      then show ?thesis using go tr by (metis prod.collapse)
    qed
  qed
qed

lemma release_image_ok:
  assumes "user_mem m1 D" "others_same m m1 D t" "t \<in> user_dirs m D" "image_pages_ok im" "exec_release_image t im m1 = (im', m')"
  shows "user_mem m' D" "others_same m m' D t"
proof -
  have t: "t \<in> user_dirs m1 D" using assms(2,3) by (simp add: others_same_def)
  note rp = release_pages_ok [OF assms(1) t, of "[0..<unat (mapped_page_count im)]" im]
  then show "user_mem m' D" "others_same m m' D t"
    using assms(4,5) others_same_trans [OF assms(2)] by (auto simp: exec_release_image_def image_pages_ok_def)
qed

text \<open>The image that the pages \<open>vs\<close> are tracked in, after the image \<open>im\<close>.\<close>

definition tracks :: "exec_image \<Rightarrow> u32 list \<Rightarrow> exec_image \<Rightarrow> bool" where
  "tracks im vs im' \<longleftrightarrow> img_entry_point im' = img_entry_point im \<and> img_stack_top im' = img_stack_top im
     \<and> unat (mapped_page_count im') = unat (mapped_page_count im) + length vs
     \<and> (\<forall>j<unat (mapped_page_count im). mapped_virtuals im' j = mapped_virtuals im j)
     \<and> (\<forall>j<length vs. mapped_virtuals im' (unat (mapped_page_count im) + j) = vs ! j)"

lemma track_one:
  assumes "exec_track_mapping va p im = (Inr u, im')"
  shows "tracks im [va] im'" "image_pages_ok im \<Longrightarrow> page_aligned va \<Longrightarrow> user_va va \<Longrightarrow> image_pages_ok im'"
proof -
  have c: "mapped_page_count im < 32" "im' = im\<lparr>mapped_virtuals := (mapped_virtuals im)(unat (mapped_page_count im) := va),
              mapped_pages := (mapped_pages im)(unat (mapped_page_count im) := p), mapped_page_count := mapped_page_count im + 1\<rparr>"
    using assms by (auto simp: exec_track_mapping_def not_le split: if_splits)
  have "unat (mapped_page_count im + 1) = unat (mapped_page_count im) + 1"
    using c(1) by (simp add: unat_plus_if' word_less_nat_alt)
  then show "tracks im [va] im'" "image_pages_ok im \<Longrightarrow> page_aligned va \<Longrightarrow> user_va va \<Longrightarrow> image_pages_ok im'"
    by (auto simp: c(2) tracks_def image_pages_ok_def less_Suc_eq)
qed

lemma tracks_trans:
  assumes "tracks im [v] im1" "tracks im1 vs im2"
  shows "tracks im (v # vs) im2"
  using assms by (auto simp: tracks_def nth_Cons split: nat.splits)

lemma clone_pages_ok:
  assumes "user_mem m D" "s \<in> user_dirs m D" "s \<noteq> t" "t \<in> user_dirs m D" "image_pages_ok im"
    and "\<forall>i\<in>set is. page_aligned (mapped_virtuals img i) \<and> user_va (mapped_virtuals img i) \<and> user_byte s (mapped_virtuals img i) m \<noteq> None"
    and "\<forall>x. places m D x \<noteq> {} \<longrightarrow> page_refs (pal m) x + length is < 65536"
    and "clone_pages s t img is im m = (r, im', m')"
  shows "user_mem m' D \<and> others_same m m' D t \<and>
    (\<forall>u. r = Inr u \<longrightarrow> tracks im (map (mapped_virtuals img) is) im' \<and> (\<forall>i\<in>set is. shared_page s t (mapped_virtuals img i) m')
      \<and> (\<forall>wa. user_va wa \<longrightarrow> shared_page s t wa m \<longrightarrow> shared_page s t wa m'))"
  using assms
proof (induction "is" arbitrary: m im)
  case Nil
  then show ?case by (simp add: tracks_def)
next
  case (Cons i rest)
  let ?va = "mapped_virtuals img i"
  have i: "page_aligned ?va" "user_va ?va" "user_byte s ?va m \<noteq> None" using Cons.prems(6) by simp_all
  have b: "page_refs (pal m) x < 65535" if "places m D x \<noteq> {}" for x using Cons.prems(7) that by fastforce
  from clone_round [OF Cons.prems(1-4) i(1,2) refl i(3) b, of rest im] consider
      (fail) m2 where "user_mem m2 D" "others_same m m2 D t" "clone_pages s t img (i # rest) im m = (Inl EFAIL, exec_release_image t im m2)"
    | (ok) m2 p u im2 where "page_shared s t D ?va m m2" "exec_track_mapping ?va p im = (Inr u, im2)"
        "clone_pages s t img (i # rest) im m = clone_pages s t img rest im2 m2" by blast
  then show ?case
  proof cases
    case fail
    then have "exec_release_image t im m2 = (im', m')" "r = Inl EFAIL" using Cons.prems(8) by simp_all
    then show ?thesis using release_image_ok [OF fail(1,2) Cons.prems(4,5)] by simp
  next
    case ok
    note ps = ok(1) [unfolded page_shared_def] and tr = track_one [OF ok(2)]
    have dirs: "user_dirs m2 D = user_dirs m D" using ps by (simp add: others_same_def)
    have c6: "\<forall>j\<in>set rest. page_aligned (mapped_virtuals img j) \<and> user_va (mapped_virtuals img j) \<and> user_byte s (mapped_virtuals img j) m2 \<noteq> None"
      using Cons.prems(2,3,6) ps by (auto simp: others_same_def)
    have c7: "\<forall>x. places m2 D x \<noteq> {} \<longrightarrow> page_refs (pal m2) x + length rest < 65536"
      using Cons.prems(7) ps by fastforce
    have "user_mem m' D \<and> others_same m2 m' D t \<and>
      (\<forall>u. r = Inr u \<longrightarrow> tracks im2 (map (mapped_virtuals img) rest) im' \<and> (\<forall>i\<in>set rest. shared_page s t (mapped_virtuals img i) m')
        \<and> (\<forall>wa. user_va wa \<longrightarrow> shared_page s t wa m2 \<longrightarrow> shared_page s t wa m'))"
      using Cons.IH [of m2 im2] Cons.prems(2-4,8) ok(3) c6 c7 tr(2) [OF Cons.prems(5) i(1,2)] ps by (simp add: dirs)
    moreover have "shared_page s t wa m2" if "user_va wa" "shared_page s t wa m" for wa
    proof (cases "unat wa div 4096 = unat ?va div 4096")
      case True
      then show ?thesis using ps lookup_same_page [OF True] by (simp add: shared_page_def)
    next
      case False
      then show ?thesis using ps that by blast
    qed
    ultimately show ?thesis using ps others_same_trans [of m m2 D t m'] tracks_trans [OF tr(1)] i(2) by auto
  qed
qed

lemma user_va_page: "user_va va \<Longrightarrow> unat wa div 4096 = unat va div 4096 \<Longrightarrow> user_va wa"
proof -
  assume "user_va va" "unat wa div 4096 = unat va div 4096"
  then have "4194304 \<le> unat va" "unat va < 3221225472" "unat wa div 4096 = unat va div 4096"
    by (simp_all add: user_va_def word_le_nat_alt word_less_nat_alt)
  moreover then have "1024 \<le> unat wa div 4096" "unat wa div 4096 < 786432" by linarith+
  ultimately have "4194304 \<le> unat wa" "unat wa < 3221225472" by linarith+
  then show "user_va wa" by (simp add: user_va_def word_le_nat_alt word_less_nat_alt)
qed

text \<open>
  C37. Sharing the image of an address space with another one, as \<^verbatim>\<open>fork\<close> does it: whether or not there is memory for
  the page tables and room in the image, the user memory stays consistent and no address space but the target sees
  a byte change. When it succeeds, the new image has the entry point, the stack top and the pages of the old one, every
  page of it is mapped to the same frame in both address spaces and is writable in neither, and the target reads
  from it what the source read before.
\<close>

theorem exec_clone_image_correct:
  assumes "user_mem m D" "s \<in> user_dirs m D" "t \<in> user_dirs m D" "s \<noteq> t" "image_pages_ok img"
    and "\<forall>i<unat (mapped_page_count img). user_byte s (mapped_virtuals img i) m \<noteq> None"
    and "\<forall>x. places m D x \<noteq> {} \<longrightarrow> page_refs (pal m) x + unat (mapped_page_count img) < 65536"
    and "exec_clone_image s t img img0 m = (r, img', m')"
  shows "user_mem m' D \<and> others_same m m' D t \<and>
    (case r of Inl _ \<Rightarrow> True
     | Inr _ \<Rightarrow> mapped_page_count img' = mapped_page_count img \<and> img_entry_point img' = img_entry_point img \<and> img_stack_top img' = img_stack_top img
         \<and> (\<forall>i<unat (mapped_page_count img). mapped_virtuals img' i = mapped_virtuals img i \<and> shared_page s t (mapped_virtuals img i) m'
              \<and> (\<forall>wa. unat wa div 4096 = unat (mapped_virtuals img i) div 4096 \<longrightarrow> user_byte t wa m' = user_byte s wa m)))"
proof -
  let ?is = "[0..<unat (mapped_page_count img)]"
  let ?im = "exec_reset_image\<lparr>img_entry_point := img_entry_point img, img_stack_top := img_stack_top img\<rparr>"
  have nz: "s \<noteq> 0" "t \<noteq> 0" using assms(2,3) as_dirD(1) [OF user_memD(1) [OF assms(1)]] by (auto simp: user_dirs_def)
  have run: "clone_pages s t img ?is ?im m = (r, img', m')" using assms(8) nz by (simp add: exec_clone_image_def)
  have "image_pages_ok ?im" by (simp add: image_pages_ok_def exec_reset_image_def)
  note ok = clone_pages_ok [OF assms(1,2,4,3) this _ _ run]
  have *: "user_mem m' D \<and> others_same m m' D t \<and>
    (\<forall>u. r = Inr u \<longrightarrow> tracks ?im (map (mapped_virtuals img) ?is) img' \<and> (\<forall>i\<in>set ?is. shared_page s t (mapped_virtuals img i) m')
      \<and> (\<forall>wa. user_va wa \<longrightarrow> shared_page s t wa m \<longrightarrow> shared_page s t wa m'))"
    using assms(5-7) by (intro ok) (simp_all add: image_pages_ok_def)
  have byte: "user_byte t wa m' = user_byte s wa m"
    if "i < unat (mapped_page_count img)" "shared_page s t (mapped_virtuals img i) m'" "unat wa div 4096 = unat (mapped_virtuals img i) div 4096" for i wa
  proof -
    have "user_va (wa AND PAGE_FRAME_MASK)" "user_va wa"
      using that(1,3) assms(5) user_va_page [of "mapped_virtuals img i" wa] page_base(3) by (auto simp: image_pages_ok_def)
    then show ?thesis using shared_page_byte [OF that(2,3)] * assms(2,4) by (simp add: others_same_def)
  qed
  show ?thesis
  proof (cases r)
    case (Inr u)
    then have tr: "tracks ?im (map (mapped_virtuals img) ?is) img'" and sh: "\<forall>i\<in>set ?is. shared_page s t (mapped_virtuals img i) m'" using * by simp_all
    then show ?thesis using * Inr byte by (simp add: tracks_def exec_reset_image_def word_unat_eq_iff)
  qed (use * in simp)
qed

definition demo_image :: exec_image where
  "demo_image = exec_reset_image\<lparr>mapped_virtuals := (\<lambda>_. 0x400000), mapped_page_count := 1\<rparr>"

text \<open>A second address space beside the one of \<^const>\<open>demo_mem\<close>.\<close>

lemma demo_space:
  assumes new: "paging_create_address_space demo_mem = (t, m)"
  defines "D \<equiv> insert t {0x1000, 0x2000}"
  shows "t \<noteq> 0x2000" "user_mem m D" "t \<in> user_dirs m D" "0x2000 \<in> user_dirs m D" "user_va 0x400000" "user_byte 0x2000 0x400000 m = Some 42"
    "user_va wa \<Longrightarrow> paging_lookup_page_in t wa m = Inl EFAIL" "places m D x \<noteq> {} \<Longrightarrow> page_refs (pal m) x = 2"
proof -
  have t0: "t \<noteq> 0" using new demo_alloc by (auto simp: paging_create_address_space_def Let_def split: prod.splits if_splits)
  note cr = create_user_mem [OF demo_user_mem new t0, folded D_def]
  have d: "0x2000 \<in> user_dirs demo_mem {0x1000, 0x2000}" by (simp add: user_dirs_def demo_kernel)
  show va: "user_va 0x400000" by (simp add: user_va_def)
  show "t \<noteq> 0x2000" using create_address_space_entries(5) [OF demo_as_inv new t0] by auto
  show "user_byte 0x2000 0x400000 m = Some 42"
    using cr(6) [OF d va] demo_lookups(2) [OF va d]
    by (simp add: user_byte_def page_offset_def demo_mem_def load_byte_def word_addr_def byte_pos_def entry_addr_def)
  show "user_mem m D" "t \<in> user_dirs m D" "0x2000 \<in> user_dirs m D" "user_va wa \<Longrightarrow> paging_lookup_page_in t wa m = Inl EFAIL"
    using cr(1,2,5) d by simp_all
  assume "places m D x \<noteq> {}"
  then obtain y where "y \<in> places demo_mem {0x1000, 0x2000} x" unfolding cr(3) by blast
  then have "x = 0x4000" using demo_lookups(2) by (auto elim!: placesE split: if_splits)
  then show "page_refs (pal m) x = 2" using cr(4) [of "0x4000"] by (simp add: demo_refs)
qed

theorem exec_clone_image_correct_witness:
  "\<exists>t m. t \<noteq> 0x2000 \<and> paging_create_address_space demo_mem = (t, m) \<and> user_byte 0x2000 0x400000 m = Some 42 \<and>
     (case exec_clone_image 0x2000 t demo_image exec_reset_image m of
        (Inl _, img', m') \<Rightarrow> user_byte 0x2000 0x400000 m' = Some 42
      | (Inr _, img', m') \<Rightarrow> shared_page 0x2000 t 0x400000 m' \<and> user_byte t 0x400000 m' = Some 42)"
proof -
  let ?D = "{0x1000, 0x2000} :: u32 set"
  obtain t m where new: "paging_create_address_space demo_mem = (t, m)" by force
  note ds = demo_space [OF new]
  obtain r img' m' where run: "exec_clone_image 0x2000 t demo_image exec_reset_image m = (r, img', m')" by (metis prod_cases3)
  have "user_mem m' (insert t ?D) \<and> others_same m m' (insert t ?D) t \<and>
    (case r of Inl _ \<Rightarrow> True
     | Inr _ \<Rightarrow> mapped_page_count img' = mapped_page_count demo_image \<and> img_entry_point img' = img_entry_point demo_image
         \<and> img_stack_top img' = img_stack_top demo_image
         \<and> (\<forall>i<unat (mapped_page_count demo_image). mapped_virtuals img' i = mapped_virtuals demo_image i
              \<and> shared_page 0x2000 t (mapped_virtuals demo_image i) m'
              \<and> (\<forall>wa. unat wa div 4096 = unat (mapped_virtuals demo_image i) div 4096 \<longrightarrow> user_byte t wa m' = user_byte 0x2000 wa m)))"
    using ds(1,3-6,8) by (intro exec_clone_image_correct [OF ds(2) _ _ _ _ _ _ run]) (auto simp: demo_image_def image_pages_ok_def page_aligned_def)
  then have "others_same m m' (insert t ?D) t" "\<forall>u. r = Inr u \<longrightarrow> shared_page 0x2000 t 0x400000 m' \<and> user_byte t 0x400000 m' = Some 42"
    using ds(6) by (auto simp: demo_image_def)
  then show ?thesis using new run ds(1,4-6) by (auto simp: others_same_def split: sum.splits)
qed

end
