(* ===== verification/Vfs_Transfer.thy ===== *)
theory Vfs_Transfer
  imports Vfs
begin

text \<open>
  The amounts of \<^verbatim>\<open>src/kernel/vfs.c\<close>: reading a file delivers no more bytes than were asked for and writing takes no more than
  were given, whatever the state of the file system, the pipe or the console is.
\<close>

section \<open>Reads deliver no more than was asked for\<close>

lemma read_loop_length: "length (fst (read_loop d off n acc s)) \<le> length acc + n"
proof (induction d off n acc s rule: read_loop.induct)
  case (1 d off n acc s)
  show ?case
  proof (cases "n = 0")
    case False
    have c: "chunk_at off n \<le> n" by (simp add: chunk_at_def)
    show ?thesis
    proof (cases "simplefs_read_blocks (dk_data_block d + of_nat (off div 512)) 1 s")
      case (Inr scratch)
      have l: "length (take (chunk_at off n) (drop (off mod 512) scratch)) \<le> chunk_at off n" by simp
      show ?thesis using 1 [OF False refl refl _ Inr] False Inr c l
        by (subst read_loop.simps) (auto simp: Let_def)
    qed (use False in \<open>subst read_loop.simps, simp add: Let_def\<close>)
  qed (simp add: read_loop.simps)
qed

lemma pipe_read_loop_length: "length (fst (pipe_read_loop n acc p)) \<le> length acc + n"
proof (induction n acc p rule: pipe_read_loop.induct)
  case (2 n acc p)
  then show ?case by (cases "pipe_pop p") fastforce+
qed simp

lemma console_read_loop_length: "length acc \<le> len \<Longrightarrow> length (fst (fst (console_read_loop len devs acc out s))) \<le> len"
proof (induction len devs acc out s rule: console_read_loop.induct)
  case (1 len devs bytes out s)
  show ?case
  proof (cases "length bytes \<ge> len")
    case True
    then show ?thesis using 1(4) by (simp add: console_read_loop.simps)
  next
    case False
    obtain c s1 where c: "input_try_read_char (case devs of [] \<Rightarrow> no_input | d # _ \<Rightarrow> d) s = (c, s1)" by force
    show ?thesis
    proof (cases c)
      case None
      then show ?thesis using 1(4) False c by (simp add: console_read_loop.simps)
    next
      case (Some ch)
      note ih = 1(1-3) [OF False c [symmetric] Some refl]
      show ?thesis using ih False c Some 1(4)
        by (subst console_read_loop.simps) (auto simp: Let_def split: if_splits)
    qed
  qed
qed

lemma vfs_read_file_length:
  assumes "vfs_read_file devs f len v = (Inr bytes, v')"
  shows "length bytes \<le> unat len"
proof -
  obtain r op where run: "op_read devs f r op len v = (Inr bytes, v')"
    using assms by (auto simp: vfs_read_file_def split: option.splits if_splits)
  show ?thesis
  proof (cases op)
    case ConsoleOps
    then show ?thesis using run console_read_loop_length [of "[]" "unat len" devs "[]" "inp v"]
      by (auto simp: op_read_def console_inode_read_def Let_def text_bytes_def split: if_splits prod.splits)
  next
    case PipeOps
    then show ?thesis using run pipe_read_loop_length [of "unat len" "[]"]
      by (auto simp: op_read_def pipe_inode_read_def Let_def split: option.splits if_splits prod.splits) (metis fst_conv)+
  next
    case SimplefsOps
    then obtain i where "simplefs_file_read f i len v = (Inr bytes, v')" using run by (auto simp: op_read_def split: inode_ref.splits)
    then obtain off where rd: "simplefs_regular_read i (foffset (file_at v f)) len (fs v) = Inr (bytes, off)"
      by (auto simp: simplefs_file_read_def split: sum.splits)
    define l where "l = (if len > dk_size (node_disk (fs v) i) - foffset (file_at v f) then dk_size (node_disk (fs v) i) - foffset (file_at v f) else len)"
    have "bytes = [] \<or> bytes = fst (read_loop (node_disk (fs v) i) (unat (foffset (file_at v f))) (unat l) [] (fs v))"
      using rd by (auto simp: simplefs_regular_read_def Let_def l_def split: if_splits prod.splits bool.splits)
    moreover have "unat l \<le> unat len" by (simp add: l_def word_less_nat_alt)
    ultimately show ?thesis using read_loop_length [of "node_disk (fs v) i" "unat (foffset (file_at v f))" "unat l" "[]" "fs v"] by auto
  qed
qed

section \<open>Writes take no more than was given\<close>

lemma write_loop_length: "fst (fst (write_loop data off bytes w s)) \<le> w + length bytes"
proof (induction data off bytes w s rule: write_loop.induct)
  case (1 data off bytes w s)
  show ?case
  proof (cases "bytes = []")
    case False
    have c: "chunk_at off (length bytes) \<le> length bytes" by (simp add: chunk_at_def)
    show ?thesis using 1 [OF False refl refl refl] False c
      by (subst write_loop.simps) (auto simp: Let_def split: sum.splits prod.splits)
  qed (simp add: write_loop.simps)
qed

lemma pipe_write_loop_length: "fst (pipe_write_loop bs w p) \<le> w + length bs"
proof (induction bs arbitrary: w p)
  case (Cons b bs)
  show ?case using Cons [of "w + 1" "pipe_push b p"] by simp
qed simp

lemma regular_write_loop:
  fixes s :: "'w simplefs"
  assumes "simplefs_regular_write i off bytes s = (Inr (n, off'), s')"
  shows "n = 0 \<or> (\<exists>d o' (s1 :: 'w simplefs). n = of_nat (fst (fst (write_loop d o' bytes 0 s1))))"
proof (cases "of_nat (length bytes) = (0 :: u32)")
  case True
  then show ?thesis using assms by (auto simp: simplefs_regular_write_def Let_def split: if_splits)
next
  case False
  then obtain s1 where w: "(case write_loop (dk_data_block (node_disk s1 i)) (unat off) bytes 0 s1 of
      ((written, True), s2) \<Rightarrow> (Inr (of_nat written, off + of_nat written), s2)
    | ((written, False), s2) \<Rightarrow> if written \<noteq> 0 then (Inr (of_nat written, off), s2) else (Inl EFAIL, s2)) = (Inr (n, off'), s')"
    using assms by (auto simp: simplefs_regular_write_def Let_def split: if_splits dest!: bind_r_InrD)
  obtain wr b s2 where l: "write_loop (dk_data_block (node_disk s1 i)) (unat off) bytes 0 s1 = ((wr, b), s2)" by (metis prod.collapse)
  have "n = of_nat wr" using w l by (cases b) (auto split: if_splits)
  then have "n = of_nat (fst (fst (write_loop (dk_data_block (node_disk s1 i)) (unat off) bytes 0 s1)))" using l by simp
  then show ?thesis by blast
qed

lemma vfs_write_file_length:
  assumes "vfs_write_file f bytes v = (Inr n, v')" "length bytes < 4294967296"
  shows "unat n \<le> length bytes"
proof -
  obtain r op where run: "op_write f r op bytes v = (Inr n, v')"
    using assms(1) by (auto simp: vfs_write_file_def split: option.splits if_splits)
  have le: "unat (of_nat w :: u32) \<le> length bytes" if "w \<le> length bytes" for w
    using that assms(2) by (simp add: unat_of_nat_u32)
  show ?thesis
  proof (cases op)
    case ConsoleOps
    then show ?thesis using run le [of "length bytes"] by (auto simp: op_write_def console_inode_write_def)
  next
    case PipeOps
    then show ?thesis using run le pipe_write_loop_length [of bytes 0]
      by (auto simp: op_write_def pipe_inode_write_def Let_def split: option.splits if_splits prod.splits) (metis fst_conv add_0)
  next
    case SimplefsOps
    then obtain i where "simplefs_file_write f i bytes v = (Inr n, v')" using run by (auto simp: op_write_def split: inode_ref.splits)
    then obtain off fs' where "simplefs_regular_write i (foffset (file_at v f)) bytes (fs v) = (Inr (n, off), fs')"
      by (auto simp: simplefs_file_write_def split: sum.splits prod.splits)
    from regular_write_loop [OF this] show ?thesis
    proof (elim disjE exE)
      fix d o' s assume "n = of_nat (fst (fst (write_loop d o' bytes 0 s)))"
      then show ?thesis using le [of "fst (fst (write_loop d o' bytes 0 s))"] write_loop_length [of d o' bytes 0 s] by simp
    qed simp
  qed
qed

end
