(* ===== verification/Exec_Load.thy ===== *)
theory Exec_Load
  imports Exec_Share Vfs_Transfer
begin

text \<open>
  Loading a program (\<^verbatim>\<open>exec_load_path\<close> of \<^verbatim>\<open>src/kernel/exec.c\<close>) into an address space without user pages: the pages that are mapped are
  the pages of the image, each of them belongs to this address space alone, and a failure takes all of them away again.
\<close>

section \<open>A fresh page\<close>

lemma user_byte_outside:
  assumes "paging_lookup_page_in e wa s' = paging_lookup_page_in e wa s" "page_aligned p"
    and ne: "\<And>x g. paging_lookup_page_in e wa s = Inr (x, g) \<Longrightarrow> x \<noteq> p"
    and same: "\<And>a. \<not> a - p < 4096 \<Longrightarrow> load s' a = load s a"
  shows "user_byte e wa s' = user_byte e wa s"
proof (cases "paging_lookup_page_in e wa s")
  case (Inl err)
  then show ?thesis using assms(1) by (simp add: user_byte_def)
next
  case (Inr xg)
  then obtain x g where l: "paging_lookup_page_in e wa s = Inr (x, g)" by (cases xg) simp
  have "\<not> x + off - p < 4096" if "off < 4096" for off
    using same_frame [OF lookup_InrD(3) [OF l] assms(2), of "x + off"] ne [OF l] that by (auto simp only: add_diff_cancel_left')
  then have "\<forall>off<4096. load s' (x + off) = load s (x + off)" using same by blast
  then show ?thesis using l assms(1) by (intro user_byte_cong [of e wa s' x g s x g]) simp_all
qed

text \<open>A page that was taken and cleared, and is mapped nowhere yet.\<close>

lemma fresh_page:
  assumes um: "user_mem m D" and al: "alloc_page m = (p, m1)" and p: "p \<noteq> 0"
  defines "mz \<equiv> zero_page p m1"
  shows "user_mem mz D" "others_same m mz D d" "places mz D = places m D" "places m D p = {}" "p \<notin> table_pages mz D"
    "page_aligned p" "page_refs (pal mz) p = 1"
    "e \<in> user_dirs m D \<Longrightarrow> user_va wa \<Longrightarrow> paging_lookup_page_in e wa mz = paging_lookup_page_in e wa m"
proof -
  note i = user_memD [OF um] and ok = alloc_page_okD [OF al as_dirD(4) [OF user_memD(1) [OF um]] p]
  obtain a where m1: "m1 = m\<lparr>pal := a\<rparr>" using al by (auto simp: alloc_page_def split: prod.splits)
  show none: "places m D p = {}" using i(3) [of p] ok(3) finite_places [OF i(2), of m p] by simp
  have pt: "p \<notin> table_pages m D" using table_pages_live [OF i(1), of p] ok(3) by auto
  have refs: "page_refs a = (page_refs (pal m))(p := 1)" "palloc_inv a" using ok(1,4) by (simp_all add: m1)
  have um1: "user_mem m1 D"
    unfolding m1 using i(3) table_pages_live [OF i(1)] none by (intro pal_user_mem [OF um refs(2)]) (auto simp: refs(1))
  have same: "load mz b = load m1 b" if "\<not> b - p < 4096" for b using that by (simp add: mz_def)
  note du = data_user_mem [OF um1 ok(2) _ same]
  show "user_mem mz D" "places mz D = places m D" "p \<notin> table_pages mz D" "page_aligned p" "page_refs (pal mz) p = 1"
    using du(1,3,4) pt ok(2) by (simp_all add: mz_def m1 refs)
  show lk: "paging_lookup_page_in e wa mz = paging_lookup_page_in e wa m" if "e \<in> user_dirs m D" "user_va wa" for e wa
    using du(5) [of e wa] pt that by (simp add: mz_def m1)
  have "user_byte e wa mz = user_byte e wa m" if "e \<in> user_dirs m D" "user_va wa" for e wa
  proof (rule user_byte_outside [OF lk [OF that] ok(2)])
    show "x \<noteq> p" if l: "paging_lookup_page_in e wa m = Inr (x, g)" for x g
      using placesI [OF \<open>e \<in> user_dirs m D\<close> \<open>user_va wa\<close> l] none by auto
    show "load mz b = load m b" if "\<not> b - p < 4096" for b using same [OF that] by (simp add: m1)
  qed
  then show "others_same m mz D d" using du(2) pt by (simp add: others_same_def mz_def m1)
qed

lemma fresh_mapped:
  assumes um: "user_mem m D" and d: "d \<in> user_dirs m D" and va: "page_aligned va" "user_va va"
    and p: "page_aligned p" "p \<noteq> 0" "p \<notin> table_pages m D" "places m D p = {}" "page_refs (pal m) p = 1"
    and fl: "flags AND PAGE_FRAME_MASK = 0" and run: "paging_map_page_in d va p flags m = (Inr u, m')"
  shows "place_set m m' D d va (Inr (p, flags OR PAGE_PRESENT))" "user_mem m' D" "others_same m m' D d"
    "places m' D x = (if x = p then {(d, unat va div 4096)} else places m D x - {(d, unat va div 4096)})"
proof -
  note i = user_memD [OF um]
  note mp = map_place [OF i(1) d va p(1) fl run]
  show st: "place_set m m' D d va (Inr (p, flags OR PAGE_PRESENT))" using mp(1) .
  show pl: "places m' D x = (if x = p then {(d, unat va div 4096)} else places m D x - {(d, unat va div 4096)})" for x
    using p(4) by (simp add: places_set [OF st d va(2)])
  show "others_same m m' D d" using user_byte_set [OF um st] place_setD(2) [OF st] by (auto simp: others_same_def)
  show "user_mem m' D"
  proof (rule user_mem_set [OF um st d va(2)])
    fix x
    have le: "card (places m D x - {(d, unat va div 4096)}) \<le> page_refs (pal m) x"
      using i(3) [of x] card_Diff1_le [of "places m D x" "(d, unat va div 4096)"] by simp
    then show "card (places m' D x) \<le> page_refs (pal m') x"
      using mp(2) [of x] p(5) by (cases "page_refs (pal m) x = 0") (auto simp: pl)
  next
    fix q g assume R: "Inr (p, flags OR PAGE_PRESENT) = (Inr (q, g) :: (u32 \<times> u32) result)"
    have "p \<notin> table_pages m' D" using place_setD(3) [OF st] p by (simp add: frames_kept_def)
    moreover have False if "e \<in> user_dirs m D" "user_va wa" "paging_lookup_page_in e wa m = Inr (p, h)" for e wa h
      using placesI [OF that] p(4) by simp
    ultimately show "q \<noteq> 0 \<and> q \<notin> table_pages m' D \<and>
      (if g AND PAGE_WRITABLE \<noteq> 0 then places m D q \<subseteq> {(d, unat va div 4096)}
       else \<forall>e\<in>user_dirs m D. \<forall>wa h. user_va wa \<longrightarrow> (e, unat wa div 4096) \<noteq> (d, unat va div 4096) \<longrightarrow>
          paging_lookup_page_in e wa m = Inr (q, h) \<longrightarrow> h AND PAGE_WRITABLE = 0)"
      using R p(2,4) by auto
  qed
qed

section \<open>The image owns its pages\<close>

definition image_page :: "exec_image \<Rightarrow> nat \<Rightarrow> bool" where
  "image_page img k \<longleftrightarrow> (\<exists>i<unat (mapped_page_count img). unat (mapped_virtuals img i) div 4096 = k)"

text \<open>Every user page of \<open>d\<close> is a page of the image, below the top of the stack, and its frame is mapped nowhere else.\<close>

definition owned :: "u32 \<Rightarrow> exec_image \<Rightarrow> mem_state \<Rightarrow> u32 set \<Rightarrow> bool" where
  "owned d img m D \<longleftrightarrow> user_mem m D \<and> d \<in> user_dirs m D \<and> image_pages_ok img \<and> unat (mapped_page_count img) \<le> 32
     \<and> (\<forall>i<unat (mapped_page_count img). mapped_virtuals img i < EXEC_USER_STACK_TOP)
     \<and> (\<forall>wa p f. user_va wa \<longrightarrow> paging_lookup_page_in d wa m = Inr (p, f) \<longrightarrow>
          image_page img (unat wa div 4096) \<and> places m D p = {(d, unat wa div 4096)} \<and> f AND PAGE_USER \<noteq> 0)"

lemma ownedD:
  assumes "owned d img m D"
  shows "user_mem m D" "d \<in> user_dirs m D" "image_pages_ok img" "unat (mapped_page_count img) \<le> 32"
    "i < unat (mapped_page_count img) \<Longrightarrow> mapped_virtuals img i < EXEC_USER_STACK_TOP"
    "user_va wa \<Longrightarrow> paging_lookup_page_in d wa m = Inr (p, f) \<Longrightarrow>
      image_page img (unat wa div 4096) \<and> places m D p = {(d, unat wa div 4096)} \<and> f AND PAGE_USER \<noteq> 0"
  using assms unfolding owned_def by blast+

lemma release_owned:
  assumes ow: "owned d img m D" and run: "exec_release_image d img m = (img', m')"
  shows "img' = exec_reset_image" "user_mem m' D" "others_same m m' D d" "user_va wa \<Longrightarrow> paging_lookup_page_in d wa m' = Inl EFAIL"
proof -
  note o = ownedD [OF ow]
  have m': "m' = fold (release_image_page d img) [0..<unat (mapped_page_count img)] m" "img' = exec_reset_image"
    using run by (simp_all add: exec_release_image_def)
  note rp = release_pages_ok [OF o(1,2), of "[0..<unat (mapped_page_count img)]" img, folded m'(1)]
  have *: "user_mem m' D \<and> others_same m m' D d \<and> (\<forall>wa. user_va wa \<longrightarrow> paging_lookup_page_in d wa m' =
      (if \<exists>i\<in>set [0..<unat (mapped_page_count img)]. unat wa div 4096 = unat (mapped_virtuals img i) div 4096 then Inl EFAIL
       else paging_lookup_page_in d wa m))" using o(3) by (intro rp) (simp add: image_pages_ok_def)
  then show "img' = exec_reset_image" "user_mem m' D" "others_same m m' D d" using m'(2) by simp_all
  assume wa: "user_va wa"
  have ef: "paging_lookup_page_in d wa m = Inl e \<Longrightarrow> e = EFAIL" for e
    by (auto simp: paging_lookup_page_in_def Let_def split: if_splits)
  show "paging_lookup_page_in d wa m' = Inl EFAIL"
  proof (cases "paging_lookup_page_in d wa m")
    case (Inl e)
    then show ?thesis using * wa ef by simp
  next
    case (Inr pf)
    then obtain p f where "paging_lookup_page_in d wa m = Inr (p, f)" by (cases pf) simp
    from o(6) [OF wa this] obtain i where "i < unat (mapped_page_count img)" "unat (mapped_virtuals img i) div 4096 = unat wa div 4096"
      by (auto simp: image_page_def)
    then have "\<exists>i\<in>set [0..<unat (mapped_page_count img)]. unat wa div 4096 = unat (mapped_virtuals img i) div 4096"
      by (intro bexI [of _ i]) simp_all
    then show ?thesis using * wa by simp
  qed
qed

text \<open>Mapping one more page of the image; what both \<open>exec_map_segment\<close> and \<open>exec_map_stack\<close> do with a page.\<close>

lemma track_fail: "exec_track_mapping va p img = (Inl e, img1) \<Longrightarrow> img1 = img"
  by (simp add: exec_track_mapping_def split: if_splits)

lemma own_page:
  assumes ow: "owned d img m D" and va: "page_aligned va" "user_va va" "va < EXEC_USER_STACK_TOP"
    and al: "alloc_page m = (p, m1)" "p \<noteq> 0" and fl: "flags AND PAGE_FRAME_MASK = 0" "(flags OR PAGE_PRESENT) AND PAGE_USER \<noteq> 0"
    and run: "paging_map_page_in d va p flags (zero_page p m1) = (r, m2)"
  shows "r = Inl e \<Longrightarrow> owned d img (release_page p m2) D \<and> others_same m (release_page p m2) D d"
    "r = Inr u \<Longrightarrow> exec_track_mapping va p img = (Inl e', img1) \<Longrightarrow>
      owned d img1 (release_page p (paging_unmap_page_in d va m2)) D \<and> others_same m (release_page p (paging_unmap_page_in d va m2)) D d"
    "r = Inr u \<Longrightarrow> exec_track_mapping va p img = (Inr u', img1) \<Longrightarrow> owned d img1 m2 D \<and> others_same m m2 D d"
proof -
  note o = ownedD [OF ow]
  define mz where "mz = zero_page p m1"
  note fp = fresh_page [OF o(1) al, folded mz_def]
  have dz: "d \<in> user_dirs mz D" "user_dirs mz D = user_dirs m D" using fp(2) o(2) by (simp_all add: others_same_def)
  have dD: "d \<in> D" "d \<noteq> kernel_page_directory_phys mz" using dz(1) by (simp_all add: user_dirs_def)
  have owz: "owned d img mz D" using ow dz fp(1) fp(8) [OF o(2)] unfolding owned_def fp(3) by simp
  show "owned d img (release_page p m2) D \<and> others_same m (release_page p m2) D d" if "r = Inl e"
  proof -
    have "m2 = mz"
      using map_page_in_cases(1,2) [OF user_memD(1) [OF fp(1)] dD va(1) user_va_slot [OF va(2)] fp(6) run [folded mz_def]] that by auto
    moreover have "card (places mz D p) < page_refs (pal mz) p" using fp(3,4,7) by simp
    note drop_reference(1) [OF fp(1) al(2) fp(5) this] drop_reference(2) [OF fp(1) al(2) fp(5) this, of d]
    ultimately show ?thesis
      using owz others_same_trans [OF fp(2)] unfolding owned_def by (simp add: release_page_def)
  qed
  have ok: "owned d img (release_page p (paging_unmap_page_in d va m2)) D \<and> others_same m (release_page p (paging_unmap_page_in d va m2)) D d
     \<and> (\<forall>u' img1. exec_track_mapping va p img = (Inr u', img1) \<longrightarrow> owned d img1 m2 D \<and> others_same m m2 D d)" if r: "r = Inr u"
  proof -
    have "places mz D p = {}" using fp(3,4) by simp
    note mp = fresh_mapped [OF fp(1) dz(1) va(1,2) fp(6) al(2) fp(5) this fp(7) fl(1) run [folded mz_def, unfolded r]]
    have d2: "d \<in> user_dirs m2 D" using place_setD(2) [OF mp(1)] dz by simp
    have lk: "paging_lookup_page_in d wa m2 = (if unat wa div 4096 = unat va div 4096 then Inr (p, flags OR PAGE_PRESENT)
        else paging_lookup_page_in d wa m)" if "user_va wa" for wa
      using place_setD(4) [OF mp(1) dz(1) that] fp(8) [OF o(2) that] by simp
    have "paging_lookup_page_in d va m2 = Inr (p, flags OR PAGE_PRESENT)" using lk [OF va(2)] by simp
    note rp = release_place [OF mp(2) d2 va(1,2) this]
    have same2: "others_same m m2 D d" using others_same_trans [OF fp(2) mp(3)] .
    define m3 where "m3 = release_page p (paging_unmap_page_in d va m2)"
    have one: "places m2 D x = {(d, unat wa div 4096)}" "x \<noteq> p"
      if "user_va wa" "unat wa div 4096 \<noteq> unat va div 4096" "paging_lookup_page_in d wa m = Inr (x, g)" for wa x g
    proof -
      have x: "places m D x = {(d, unat wa div 4096)}" using o(6) [OF that(1,3)] by simp
      then show "x \<noteq> p" using fp(4) by auto
      then show "places m2 D x = {(d, unat wa div 4096)}" using x that(2) fp(3) by (simp add: mp(4))
    qed
    have "owned d img m3 D"
      unfolding owned_def
    proof (intro conjI allI impI)
      fix wa x g assume wa: "user_va wa" "paging_lookup_page_in d wa m3 = Inr (x, g)"
      have k: "unat wa div 4096 \<noteq> unat va div 4096" and l: "paging_lookup_page_in d wa m = Inr (x, g)"
        using wa rp(4) [OF d2 wa(1)] lk [OF wa(1)] by (simp_all add: m3_def split: if_splits)
      show "image_page img (unat wa div 4096)" "g AND PAGE_USER \<noteq> 0" using o(6) [OF wa(1) l] by simp_all
      show "places m3 D x = {(d, unat wa div 4096)}" using one [OF wa(1) k l] k by (simp add: m3_def rp(6))
    qed (use rp(1,2) d2 o(3-5) in \<open>simp_all add: m3_def\<close>)
    moreover have "others_same m m3 D d"
      using others_same_trans [OF same2, of m3] rp(2,3) by (simp add: others_same_def m3_def)
    moreover have "owned d img1 m2 D" if tr: "exec_track_mapping va p img = (Inr u', img1)" for u' img1
      unfolding owned_def
    proof (intro conjI allI impI mp(2) d2)
      note t1 = track_one [OF tr]
      have c: "mapped_page_count img < 32" and i1: "img1 = img\<lparr>mapped_virtuals := (mapped_virtuals img)(unat (mapped_page_count img) := va),
              mapped_pages := (mapped_pages img)(unat (mapped_page_count img) := p), mapped_page_count := mapped_page_count img + 1\<rparr>"
        using tr by (auto simp: exec_track_mapping_def not_le split: if_splits)
      have n: "unat (mapped_page_count img1) = Suc (unat (mapped_page_count img))" using t1(1) by (simp add: tracks_def)
      show "image_pages_ok img1" using t1(2) [OF o(3) va(1,2)] .
      show "unat (mapped_page_count img1) \<le> 32" using n c by (simp add: word_less_nat_alt)
      show "mapped_virtuals img1 i < EXEC_USER_STACK_TOP" if "i < unat (mapped_page_count img1)" for i
        using that o(5) [of i] va(3) n by (auto simp: i1 less_Suc_eq)
      fix wa x g assume wa: "user_va wa" "paging_lookup_page_in d wa m2 = Inr (x, g)"
      have "image_page img1 (unat wa div 4096) \<and> places m2 D x = {(d, unat wa div 4096)} \<and> g AND PAGE_USER \<noteq> 0"
      proof (cases "unat wa div 4096 = unat va div 4096")
        case True
        then have "x = p" "g = flags OR PAGE_PRESENT" using wa lk [OF wa(1)] by simp_all
        moreover have "image_page img1 (unat va div 4096)"
          unfolding image_page_def n by (rule exI [of _ "unat (mapped_page_count img)"]) (simp add: i1)
        ultimately show ?thesis using True fl(2) by (simp add: mp(4))
      next
        case False
        then have l: "paging_lookup_page_in d wa m = Inr (x, g)" using wa lk [OF wa(1)] by simp
        have "image_page img1 k" if "image_page img k" for k
          using that unfolding image_page_def n by (auto simp: i1) (metis less_SucI nat_neq_iff)
        then show ?thesis using one [OF wa(1) False l] o(6) [OF wa(1) l] by simp
      qed
      then show "image_page img1 (unat wa div 4096)" "places m2 D x = {(d, unat wa div 4096)}" "g AND PAGE_USER \<noteq> 0" by simp_all
    qed
    ultimately show ?thesis using same2 by (simp add: m3_def)
  qed
  show "r = Inr u \<Longrightarrow> exec_track_mapping va p img = (Inl e', img1) \<Longrightarrow>
      owned d img1 (release_page p (paging_unmap_page_in d va m2)) D \<and> others_same m (release_page p (paging_unmap_page_in d va m2)) D d"
    using ok track_fail by blast
  show "r = Inr u \<Longrightarrow> exec_track_mapping va p img = (Inr u', img1) \<Longrightarrow> owned d img1 m2 D \<and> others_same m m2 D d" using ok by blast
qed

section \<open>Segments\<close>

lemma resolve_lookup:
  "paging_resolve_physical_in d va m = (case paging_lookup_page_in d va m of Inl _ \<Rightarrow> 0 | Inr (p, _) \<Rightarrow> p)"
  by (simp add: paging_resolve_physical_in_def paging_lookup_page_in_def Let_def)

definition segment_page_ok :: "u32 \<Rightarrow> bool" where
  "segment_page_ok va \<longleftrightarrow> page_aligned va \<and> user_va va \<and> va < EXEC_USER_STACK_TOP"

lemma map_segment_pages_ok:
  assumes "owned d img m D" "\<forall>va\<in>set vas. segment_page_ok va" "map_segment_pages d fl vas img m = (r, img', m')"
  shows "owned d img' m' D \<and> others_same m m' D d"
  using assms
proof (induction vas arbitrary: img m)
  case (Cons va vas)
  have va: "page_aligned va" "user_va va" "va < EXEC_USER_STACK_TOP" using Cons.prems(2) by (simp_all add: segment_page_ok_def)
  obtain p m1 where al: "alloc_page m = (p, m1)" by force
  let ?f = "PAGE_USER OR (if fl AND ELF_FLAG_WRITE \<noteq> 0 then PAGE_WRITABLE else 0)"
  obtain q m2 where mp: "paging_map_page_in d va p ?f (zero_page p m1) = (q, m2)" by force
  obtain t img1 where tr: "exec_track_mapping va p img = (t, img1)" by force
  show ?case
  proof (cases "paging_resolve_physical_in d va m \<noteq> 0 \<or> p = 0")
    case True
    then have "img' = img" "m' = m \<or> p = 0 \<and> m' = m1" using Cons.prems(3) al by (auto split: if_splits)
    moreover have "m1 = m" if "p = 0" using alloc_page_failD [of m m1] al that as_dirD(4) [OF user_memD(1) [OF ownedD(1) [OF Cons.prems(1)]]] by simp
    ultimately show ?thesis using Cons.prems(1) by auto
  next
    case False
    have fl: "?f AND PAGE_FRAME_MASK = 0" "(?f OR PAGE_PRESENT) AND PAGE_USER \<noteq> 0" by simp_all
    note op = own_page [OF Cons.prems(1) _ _ _ al _ fl mp]
    show ?thesis
    proof (cases q)
      case (Inl e)
      then have "img' = img" "m' = release_page p m2" using Cons.prems(3) False al mp by (simp_all add: Let_def)
      then show ?thesis using op(1) [OF _ _ _ _ Inl] va False by simp
    next
      case (Inr u)
      show ?thesis
      proof (cases t)
        case (Inl e)
        then have "img' = img1" "m' = release_page p (paging_unmap_page_in d va m2)"
          using Cons.prems(3) False al mp tr Inr by (simp_all add: Let_def)
        then show ?thesis using op(2) [OF _ _ _ _ Inr tr [unfolded Inl]] va False by simp
      next
        case t: (Inr u')
        have "map_segment_pages d fl vas img1 m2 = (r, img', m')" using Cons.prems(3) False al mp tr Inr t by (simp add: Let_def)
        moreover have "owned d img1 m2 D" "others_same m m2 D d" using op(3) [OF _ _ _ _ Inr tr [unfolded t]] va False by simp_all
        ultimately show ?thesis using Cons.IH [of img1 m2] Cons.prems(2) others_same_trans [of m m2 D d m'] by simp
      qed
    qed
  qed
qed simp

lemma read_exact_length: "exec_read_exact devs f off len v = (ok, bytes, v') \<Longrightarrow> length bytes \<le> unat len"
  by (auto simp: exec_read_exact_def split: sum.splits prod.splits dest: vfs_read_file_length)

lemma fill_segment_ok:
  assumes "owned d img m D" "USER_VIRT_BASE \<le> va" "unat va + unat n \<le> 0x800000" "fill_segment devs d f off va n m v = (r, m', v')"
  shows "owned d img m' D \<and> others_same m m' D d"
  using assms
proof (induction devs d f off va n m v rule: fill_segment.induct)
  case (1 devs d f off va n m v)
  note ow = 1(2) and o = ownedD [OF 1(2)]
  show ?case
  proof (cases "n = 0 \<or> paging_resolve_physical_in d va m = 0")
    case True
    then have "m' = m" using 1(5) by (subst (asm) fill_segment.simps) (cases "n = 0"; simp add: Let_def)
    then show ?thesis using ow by simp
  next
    case False
    then have n: "0 < unat n" by (simp add: unat_gt_0)
    have va: "user_va va" using 1(3,4) n by (simp add: user_va_def word_le_nat_alt word_less_nat_alt)
    obtain p g where l: "paging_lookup_page_in d va m = Inr (p, g)" using False by (auto simp: resolve_lookup split: sum.splits)
    then have p: "paging_resolve_physical_in d va m = p" by (simp add: resolve_lookup)
    define c where "c = exec_chunk va n"
    have c: "unat c \<le> unat n" "unat c \<le> 4096 - unat va mod 4096" by (simp_all add: c_def exec_chunk_unat)
    obtain ok bytes v1 where rd: "exec_read_exact devs f off c v = (ok, bytes, v1)" by (metis prod_cases3)
    define m1 where "m1 = m\<lparr>pm := store_bytes (p + page_offset va) bytes (pm m)\<rparr>"
    have len: "length bytes \<le> 4096 - unat va mod 4096" using read_exact_length [OF rd] c(2) by linarith
    note sc = store_chunk [OF o(1,2) va l _ _ len m1_def]
    have ow1: "owned d img m1 D" "others_same m m1 D d"
      using sc(1-5) o(6) [OF va l] ow o(2) by (simp_all add: owned_def others_same_def)
    show ?thesis
    proof (cases ok)
      case True
      have "fill_segment devs d f (off + c) (va + c) (n - c) m1 v1 = (r, m', v')"
        using 1(5) False rd True by (simp add: fill_segment.simps [of devs d f off va n] p c_def m1_def Let_def)
      moreover have "unat (va + c) = unat va + unat c" "unat (n - c) = unat n - unat c"
        using 1(4) c(1) by (simp_all add: unat_add_u32 unat_sub word_le_nat_alt)
      ultimately have "owned d img m' D \<and> others_same m1 m' D d"
        using 1(1) [OF _ p [symmetric] _ c_def, of "(ok, bytes, v1)" ok "(bytes, v1)" bytes v1 m1] False p rd True 1(3,4) ow1(1) c(1) m1_def
        by (simp add: word_le_nat_alt)
      then show ?thesis using others_same_trans [OF ow1(2)] by blast
    next
      case f: False
      then have "m' = m1" using 1(5) False rd by (simp add: fill_segment.simps [of devs d f off va n] p c_def m1_def Let_def)
      then show ?thesis using ow1 by simp
    qed
  qed
qed

lemma align_unat:
  "unat (exec_align_down va PAGE_SIZE) = unat va div 4096 * 4096"
  "unat x < 0x10000000 \<Longrightarrow> unat (exec_align_up x PAGE_SIZE) = (unat x + 4095) div 4096 * 4096"
  "page_aligned (exec_align_down va PAGE_SIZE)"
proof -
  have "NOT (PAGE_SIZE - 1) = PAGE_FRAME_MASK" by simp
  then have e: "exec_align_down y PAGE_SIZE = y AND PAGE_FRAME_MASK" for y by (simp only: exec_align_down_def)
  show "unat (exec_align_down va PAGE_SIZE) = unat va div 4096 * 4096" "page_aligned (exec_align_down va PAGE_SIZE)"
    by (simp_all add: e page_base)
  assume "unat x < 0x10000000"
  then have "unat (x + 4095) = unat x + 4095" by (simp add: unat_add_u32)
  moreover have "exec_align_up x PAGE_SIZE = exec_align_down (x + 4095) PAGE_SIZE" by (simp add: exec_align_up_def exec_align_down_def add.commute)
  ultimately show "unat (exec_align_up x PAGE_SIZE) = (unat x + 4095) div 4096 * 4096" by (simp add: e page_base)
qed

lemma segment_range:
  assumes "exec_segment_in_user_range ph"
  shows "USER_VIRT_BASE \<le> p_vaddr ph" "unat (p_vaddr ph) + unat (p_memsz ph) \<le> 0x7FF000" "unat (p_filesz ph) \<le> unat (p_memsz ph)"
    "unat (p_vaddr ph + p_memsz ph) = unat (p_vaddr ph) + unat (p_memsz ph)"
proof -
  have r: "\<not> p_memsz ph < p_filesz ph" "\<not> p_vaddr ph + p_memsz ph < p_vaddr ph" "\<not> p_vaddr ph < USER_VIRT_BASE" "\<not> p_vaddr ph + p_memsz ph > 0x7FF000"
    using assms by (auto simp: exec_segment_in_user_range_def Let_def split: if_splits)
  then show "USER_VIRT_BASE \<le> p_vaddr ph" "unat (p_filesz ph) \<le> unat (p_memsz ph)" by (simp_all add: not_less word_le_nat_alt)
  show u: "unat (p_vaddr ph + p_memsz ph) = unat (p_vaddr ph) + unat (p_memsz ph)"
    using r(2) by (simp add: not_less no_olen_add_nat unat_add_u32)
  show "unat (p_vaddr ph) + unat (p_memsz ph) \<le> 0x7FF000" using r(4) u by (simp add: not_less word_le_nat_alt)
qed

lemma segment_pages:
  assumes "exec_segment_in_user_range ph"
    and "va \<in> set (segment_page_list (exec_align_down (p_vaddr ph) PAGE_SIZE) (exec_align_up (p_vaddr ph + p_memsz ph) PAGE_SIZE))"
  shows "segment_page_ok va"
proof -
  note r = segment_range [OF assms(1)]
  define a where "a = unat (p_vaddr ph) div 4096"
  define b where "b = (unat (p_vaddr ph) + unat (p_memsz ph) + 4095) div 4096"
  have u: "unat (exec_align_down (p_vaddr ph) PAGE_SIZE) = a * 4096" "unat (exec_align_up (p_vaddr ph + p_memsz ph) PAGE_SIZE) = b * 4096"
    using align_unat(2) [of "p_vaddr ph + p_memsz ph"] r(2,4) by (simp_all add: align_unat(1) a_def b_def)
  have ab: "1024 \<le> a" "b \<le> 2047" using r(1,2) by (simp_all add: a_def b_def word_le_nat_alt)
  obtain i where "i \<in> {0..<(b * 4096 - a * 4096 + 4095) div 4096}" and va: "va = exec_align_down (p_vaddr ph) PAGE_SIZE + of_nat i * PAGE_SIZE"
    using assms(2) unfolding segment_page_list_def u set_map set_upt by blast
  then have i: "i < (b * 4096 - a * 4096 + 4095) div 4096" by simp
  have "(b * 4096 - a * 4096 + 4095) div 4096 = b - a" by (simp add: diff_mult_distrib [symmetric])
  then have ib: "i < b - a" using i by simp
  then have "unat (of_nat i * PAGE_SIZE) = i * 4096" using ab by (simp add: unat_word_ariths unat_of_nat)
  then have "unat va = (a + i) * 4096" using u(1) ab ib by (simp add: va unat_add_u32 add_mult_distrib)
  moreover define c where "c = a + i"
  ultimately have "unat va = c * 4096" "1024 \<le> c" "c < 2047" using ab ib by simp_all
  then show ?thesis by (simp add: segment_page_ok_def page_aligned_unat user_va_def word_le_nat_alt word_less_nat_alt)
qed

lemma exec_map_segment_ok:
  assumes "owned d img m D" "exec_map_segment devs d f n ph img m v = (r, img', m', v')"
  shows "owned d img' m' D \<and> others_same m m' D d"
proof (cases "exec_segment_in_user_range ph \<and> \<not> p_offset ph + p_filesz ph > n")
  case False
  then have "img' = img" "m' = m" using assms(2) by (auto simp: exec_map_segment_def split: if_splits)
  then show ?thesis using assms(1) by simp
next
  case True
  let ?ps = "segment_page_list (exec_align_down (p_vaddr ph) PAGE_SIZE) (exec_align_up (p_vaddr ph + p_memsz ph) PAGE_SIZE)"
  obtain q img1 m1 where mp: "map_segment_pages d (p_flags ph) ?ps img m = (q, img1, m1)" by (metis prod_cases3)
  have ow: "owned d img1 m1 D" "others_same m m1 D d"
    using map_segment_pages_ok [OF assms(1) _ mp] segment_pages True by blast+
  show ?thesis
  proof (cases q)
    case (Inl e)
    then show ?thesis using assms(2) True mp ow by (auto simp: exec_map_segment_def)
  next
    case (Inr u)
    obtain q2 m2 v2 where fs: "fill_segment devs d f (p_offset ph) (p_vaddr ph) (p_filesz ph) m1 v = (q2, m2, v2)" by (metis prod_cases3)
    then have e: "img' = img1" "m' = m2" using assms(2) True mp Inr by (auto simp: exec_map_segment_def)
    have rg: "exec_segment_in_user_range ph" using True by blast
    have "unat (p_vaddr ph) + unat (p_filesz ph) \<le> 0x800000" using segment_range(2,3) [OF rg] by linarith
    then show ?thesis using fill_segment_ok [OF ow(1) segment_range(1) [OF rg] _ fs] others_same_trans [OF ow(2)] by (simp add: e)
  qed
qed

section \<open>The loader\<close>

lemma load_segments_ok:
  assumes "owned d img m D" "load_segments devs d f n phs k img m v = (r, img', m', v')"
  shows "owned d img' m' D \<and> others_same m m' D d"
  using assms
proof (induction phs arbitrary: k img m v)
  case (Cons ph phs)
  obtain q img1 m1 v1 where ms: "exec_map_segment devs d f n ph img m v = (q, img1, m1, v1)" by (metis prod_cases4)
  note ok = exec_map_segment_ok [OF Cons.prems(1) ms]
  show ?case
  proof (cases "p_type ph \<noteq> 1 \<or> p_memsz ph = 0")
    case True
    then show ?thesis using Cons by simp
  next
    case False
    show ?thesis
    proof (cases q)
      case (Inl e)
      then show ?thesis using False Cons.prems(2) ms ok by simp
    next
      case (Inr u)
      then show ?thesis using False Cons.prems(2) ms ok Cons.IH [of img1 m1 "Suc k" v1] others_same_trans [of m m1 D d m'] by simp
    qed
  qed
qed simp

lemma exec_map_stack_ok:
  assumes ow: "owned d img m D" and run: "exec_map_stack d img m = (r, img', m')"
  shows "owned d img' m' D \<and> others_same m m' D d"
proof -
  obtain p m1 where al: "alloc_page m = (p, m1)" by force
  let ?va = "0x7FF000 :: u32" and ?f = "PAGE_USER OR PAGE_WRITABLE"
  obtain q m2 where mp: "paging_map_page_in d ?va p ?f (zero_page p m1) = (q, m2)" by force
  obtain t img1 where tr: "exec_track_mapping ?va p img = (t, img1)" by force
  show ?thesis
  proof (cases "p = 0")
    case True
    then have "m1 = m" using alloc_page_failD [of m m1] al as_dirD(4) [OF user_memD(1) [OF ownedD(1) [OF ow]]] by simp
    then show ?thesis using True ow run al by (simp add: exec_map_stack_def)
  next
    case False
    have va: "page_aligned ?va" "user_va ?va" "?va < EXEC_USER_STACK_TOP" by (simp_all add: page_aligned_def user_va_def)
    have fl: "?f AND PAGE_FRAME_MASK = 0" "(?f OR PAGE_PRESENT) AND PAGE_USER \<noteq> 0" by simp_all
    note op = own_page [OF ow va al False fl mp]
    have same: "owned d (i\<lparr>img_stack_top := x\<rparr>) mm D = owned d i mm D" for i x mm
      by (simp add: owned_def image_pages_ok_def image_page_def)
    show ?thesis
    proof (cases q)
      case (Inl e)
      then show ?thesis using op(1) [OF Inl] run al mp False by (simp add: exec_map_stack_def Let_def)
    next
      case (Inr u)
      show ?thesis
      proof (cases t)
        case (Inl e)
        then show ?thesis using op(2) [OF Inr tr [unfolded Inl]] run al mp tr False Inr by (simp add: exec_map_stack_def Let_def)
      next
        case t: (Inr u')
        then show ?thesis using op(3) [OF Inr tr [unfolded t]] run al mp tr False Inr same by (auto simp: exec_map_stack_def Let_def)
      qed
    qed
  qed
qed

lemma load_failed_ok:
  assumes "owned d img m1 D" "others_same m m1 D d" "load_failed d f img m1 v = (r, img', m', v')"
  shows "r = Inl EFAIL" "img' = exec_reset_image" "user_mem m' D" "others_same m m' D d" "user_va wa \<Longrightarrow> paging_lookup_page_in d wa m' = Inl EFAIL"
proof -
  obtain im mm where re: "exec_release_image d img m1 = (im, mm)" by force
  have "r = Inl EFAIL" "im = img'" "mm = m'" using assms(3) re by (simp_all add: load_failed_def)
  then show "r = Inl EFAIL" "img' = exec_reset_image" "user_mem m' D" "others_same m m' D d" "user_va wa \<Longrightarrow> paging_lookup_page_in d wa m' = Inl EFAIL"
    using release_owned [OF assms(1) re] others_same_trans [OF assms(2)] by simp_all
qed

lemma load_image_ok:
  assumes ow: "owned d exec_reset_image m D" and run: "load_image devs d f n h phs m v = (r, img, m', v')"
  shows "user_mem m' D \<and> others_same m m' D d \<and>
    (case r of Inl _ \<Rightarrow> img = exec_reset_image \<and> (\<forall>wa. user_va wa \<longrightarrow> paging_lookup_page_in d wa m' = Inl EFAIL)
     | Inr _ \<Rightarrow> owned d img m' D)"
proof -
  obtain q img1 m1 v1 where ls: "load_segments devs d f n phs 0 exec_reset_image m v = (q, img1, m1, v1)" by (metis prod_cases4)
  note s1 = load_segments_ok [OF ow ls]
  obtain t img2 m2 where ms: "exec_map_stack d img1 m1 = (t, img2, m2)" by (metis prod_cases3)
  note s2 = exec_map_stack_ok [OF conjunct1 [OF s1] ms]
  note same2 = others_same_trans [OF conjunct2 [OF s1] conjunct2 [OF s2]]
  show ?thesis
  proof (cases "q = Inr 0 \<or> (\<exists>e. q = Inl e)")
    case True
    then have "load_failed d f img1 m1 v1 = (r, img, m', v')" using run ls by (auto simp: load_image_def)
    from load_failed_ok [OF conjunct1 [OF s1] conjunct2 [OF s1] this] show ?thesis by simp
  next
    case False
    then obtain k where k: "q = Inr k" "k \<noteq> 0" by (cases q) auto
    show ?thesis
    proof (cases t)
      case (Inl e)
      then have "load_failed d f img2 m2 v1 = (r, img, m', v')" using run ls ms k by (simp add: load_image_def)
      from load_failed_ok [OF conjunct1 [OF s2] same2 this] show ?thesis by simp
    next
      case (Inr u)
      then have "r = Inr ()" "img = img2\<lparr>img_entry_point := e_entry h\<rparr>" "m' = m2" using run ls ms k by (simp_all add: load_image_def)
      moreover have "owned d (img2\<lparr>img_entry_point := e_entry h\<rparr>) m2 D" using s2 by (simp add: owned_def image_pages_ok_def image_page_def)
      ultimately show ?thesis using same2 ownedD(1) by simp
    qed
  qed
qed

text \<open>
  C38. Loading a program into an address space without user pages. Whatever the file holds, the user memory stays
  consistent and no other address space sees a byte change. If loading fails, the image is empty and every page that was
  mapped has been taken away again. If it succeeds, the image has at most 32 pages, all of them page-aligned addresses from the
  user base up to the top of the stack, and a user page of the address space is always a page of the image whose frame is mapped nowhere else.
\<close>

theorem exec_load_path_correct:
  assumes "user_mem m D" "d \<in> user_dirs m D" "\<forall>wa. user_va wa \<longrightarrow> paging_lookup_page_in d wa m = Inl EFAIL"
    and "exec_load_path devs d path img0 m v = (r, img, m', v')"
  shows "user_mem m' D \<and> others_same m m' D d \<and>
    (case r of Inl _ \<Rightarrow> img = exec_reset_image \<and> (\<forall>wa. user_va wa \<longrightarrow> paging_lookup_page_in d wa m' = Inl EFAIL)
     | Inr _ \<Rightarrow> owned d img m' D)"
proof -
  have d0: "d \<noteq> 0" using assms(2) as_dirD(1) [OF user_memD(1) [OF assms(1)]] by (auto simp: user_dirs_def)
  have ow: "owned d exec_reset_image m D" using assms(1-3) by (simp add: owned_def image_pages_ok_def exec_reset_image_def)
  have none: ?thesis if "r = Inl EFAIL" "img = exec_reset_image" "m' = m" using that assms(1,3) by simp
  obtain q v1 where op: "vfs_open_path path VFS_O_RDONLY None v = (q, v1)" by force
  show ?thesis
  proof (cases q)
    case (Inl e)
    then show ?thesis using assms(4) d0 op by (intro none) (simp_all add: exec_load_path_def)
  next
    case (Inr f)
    obtain ok bytes v2 where rd: "exec_read_exact devs f 0 ELF_HEADER_SIZE v1 = (ok, bytes, v2)" by (metis prod_cases3)
    let ?h = "decode_elf32_header bytes" and ?n = "case finode (file_at v1 f) of None \<Rightarrow> 0 | Some r \<Rightarrow> isize (inode_at v1 r)"
    obtain ok2 phs v3 where rp: "exec_read_exact devs f (e_phoff ?h) (ucast (e_phnum ?h) * ELF_PHENT_SIZE) v2 = (ok2, phs, v3)"
      by (metis prod_cases3)
    show ?thesis
    proof (cases "ok \<and> exec_validate_header ?h ?n \<and> \<not> e_phnum ?h > ELF_MAX_PROGRAM_HEADERS \<and> ok2")
      case False
      then show ?thesis using assms(4) d0 op Inr rd rp by (intro none) (auto simp: exec_load_path_def Let_def split: if_splits)
    next
      case True
      then have "load_image devs d f ?n ?h (map (\<lambda>i. decode_elf32_program_header (drop (32 * i) phs)) [0..<unat (e_phnum ?h)]) m v3 = (r, img, m', v')"
        using assms(4) d0 op Inr rd rp by (simp add: exec_load_path_def Let_def)
      from load_image_ok [OF ow this] show ?thesis .
    qed
  qed
qed

theorem exec_load_path_correct_witness:
  "\<exists>t m. paging_create_address_space demo_mem = (t, m) \<and> t \<noteq> 0x2000 \<and>
     (\<forall>devs path v. case exec_load_path devs t path exec_reset_image m v of (r, img, m', v') \<Rightarrow>
        user_byte 0x2000 0x400000 m' = Some 42 \<and>
        (case r of Inl _ \<Rightarrow> paging_lookup_page_in t 0x400000 m' = Inl EFAIL | Inr _ \<Rightarrow> owned t img m' {t, 0x1000, 0x2000}))"
proof -
  let ?D = "{0x1000, 0x2000} :: u32 set"
  obtain t m where new: "paging_create_address_space demo_mem = (t, m)" by force
  note ds = demo_space [OF new]
  have "user_byte 0x2000 0x400000 m' = Some 42 \<and>
      (case r of Inl _ \<Rightarrow> paging_lookup_page_in t 0x400000 m' = Inl EFAIL | Inr _ \<Rightarrow> owned t img m' {t, 0x1000, 0x2000})"
    if run: "exec_load_path devs t path exec_reset_image m v = (r, img, m', v')" for devs path v r img m' v'
    using exec_load_path_correct [OF ds(2,3) _ run] ds(1,4-7) by (auto simp: others_same_def split: sum.splits)
  then show ?thesis using new ds(1) by blast
qed

end
