(* ===== verification/Net.thy ===== *)
theory Net
  imports Trace Bytes
begin

text \<open>
  The network stack, \<^verbatim>\<open>src/kernel/net.c\<close>: answering address resolution and echo requests, and one outstanding
  ping. A packet is the list of its bytes, so the packed structures are layouts of such lists and a pointer into a
  frame is the rest of the list. The network card is a parameter: the functions of \<^verbatim>\<open>src/kernel/e1000.c\<close> on a
  state of the card of any type. Console messages are not modelled.
\<close>

section \<open>Data\<close>

abbreviation NET_ETH_TYPE_ARP :: u16 where "NET_ETH_TYPE_ARP \<equiv> 0x0806"
abbreviation NET_ETH_TYPE_IPV4 :: u16 where "NET_ETH_TYPE_IPV4 \<equiv> 0x0800"
abbreviation NET_ARP_REQUEST :: u16 where "NET_ARP_REQUEST \<equiv> 1"
abbreviation NET_ARP_REPLY :: u16 where "NET_ARP_REPLY \<equiv> 2"
abbreviation NET_ARP_HW_ETHERNET :: u16 where "NET_ARP_HW_ETHERNET \<equiv> 1"
abbreviation NET_IPV4_PROTOCOL_ICMP :: u8 where "NET_IPV4_PROTOCOL_ICMP \<equiv> 1"
abbreviation NET_ICMP_ECHO_REPLY :: u8 where "NET_ICMP_ECHO_REPLY \<equiv> 0"
abbreviation NET_ICMP_ECHO_REQUEST :: u8 where "NET_ICMP_ECHO_REQUEST \<equiv> 8"
abbreviation NET_IPV4_VERSION_IHL :: u8 where "NET_IPV4_VERSION_IHL \<equiv> 0x45"
abbreviation NET_FRAME_BUFFER_BYTES :: nat where "NET_FRAME_BUFFER_BYTES \<equiv> 1600"
abbreviation NET_QEMU_IPV4 :: u32 where "NET_QEMU_IPV4 \<equiv> 0x0A00020F"
abbreviation NET_QEMU_NETMASK :: u32 where "NET_QEMU_NETMASK \<equiv> 0xFFFFFF00"
abbreviation NET_QEMU_GATEWAY :: u32 where "NET_QEMU_GATEWAY \<equiv> 0x0A000202"
abbreviation NET_PING_RETRY_TICKS :: u32 where "NET_PING_RETRY_TICKS \<equiv> 20"
abbreviation NET_PING_DEFAULT_TIMEOUT :: u32 where "NET_PING_DEFAULT_TIMEOUT \<equiv> 100"
abbreviation SYS_PING_OK :: int where "SYS_PING_OK \<equiv> 0"
abbreviation SYS_PING_ERR_TIMEOUT :: int where "SYS_PING_ERR_TIMEOUT \<equiv> - 1"
abbreviation SYS_PING_ERR_NOT_READY :: int where "SYS_PING_ERR_NOT_READY \<equiv> - 3"
abbreviation SYS_PING_ERR_BUSY :: int where "SYS_PING_ERR_BUSY \<equiv> - 4"
abbreviation SYS_PING_ERR_INVALID :: int where "SYS_PING_ERR_INVALID \<equiv> - 5"
abbreviation SYS_TRACE_CATEGORY_NET :: u32 where "SYS_TRACE_CATEGORY_NET \<equiv> 5"

datatype net_ping_stage = NET_PING_STAGE_IDLE | NET_PING_STAGE_ARP | NET_PING_STAGE_ECHO

record net_ping_state =
  pg_active :: bool
  pg_completed :: bool
  owner_pid :: u32
  destination_ipv4 :: u32
  next_hop_ipv4 :: u32
  deadline_tick :: u32
  next_action_tick :: u32
  pg_identifier :: u16
  pg_sequence :: u16
  pg_attempts :: u32
  pg_stage :: net_ping_stage
  pg_result :: int

record net_state =
  net_up :: bool
  net_mac :: "u8 list"
  ipv4_addr :: u32
  ipv4_netmask :: u32
  ipv4_gateway :: u32
  arp_valid :: bool
  arp_mac :: "u8 list"
  arp_ipv4 :: u32
  rx_packets :: u32
  tx_packets :: u32
  next_ping_identifier :: u16
  ping :: net_ping_state

text \<open>The functions of the card's driver; a result is the \<open>int32_t\<close> the driver returns, with the bytes it stores.\<close>

record 'e e1000 =
  e1000_transmit :: "u8 list \<Rightarrow> 'e \<Rightarrow> int \<times> 'e"
  e1000_receive :: "nat \<Rightarrow> 'e \<Rightarrow> (int \<times> u8 list) \<times> 'e"
  e1000_init :: "'e \<Rightarrow> int \<times> 'e"
  e1000_get_mac :: "'e \<Rightarrow> (int \<times> u8 list) \<times> 'e"

record 'e net_env =
  net :: net_state
  nic :: 'e
  ntrace :: trace_state

definition zero_ping :: net_ping_state where
  "zero_ping = \<lparr>pg_active = False, pg_completed = False, owner_pid = 0, destination_ipv4 = 0, next_hop_ipv4 = 0, deadline_tick = 0,
     next_action_tick = 0, pg_identifier = 0, pg_sequence = 0, pg_attempts = 0, pg_stage = NET_PING_STAGE_IDLE, pg_result = 0\<rparr>"

definition zero_mac :: "u8 list" where "zero_mac = replicate 6 0"

definition broadcast_mac :: "u8 list" where "broadcast_mac = replicate 6 0xFF"

section \<open>Byte order and checksums\<close>

definition net_bswap16 :: "u16 \<Rightarrow> u16" where
  "net_bswap16 value = push_bit 8 value OR drop_bit 8 value"

definition net_bswap32 :: "u32 \<Rightarrow> u32" where
  "net_bswap32 value =
     push_bit 24 (value AND 0x000000FF) OR push_bit 8 (value AND 0x0000FF00)
     OR drop_bit 8 (value AND 0x00FF0000) OR drop_bit 24 (value AND 0xFF000000)"

definition net_htons :: "u16 \<Rightarrow> u16" where "net_htons = net_bswap16"
definition net_ntohs :: "u16 \<Rightarrow> u16" where "net_ntohs = net_bswap16"
definition net_htonl :: "u32 \<Rightarrow> u32" where "net_htonl = net_bswap32"
definition net_ntohl :: "u32 \<Rightarrow> u32" where "net_ntohl = net_bswap32"

definition enc16 :: "u16 \<Rightarrow> u8 list" where
  "enc16 w = [ucast w, ucast (drop_bit 8 w)]"


definition mac_equal :: "u8 list \<Rightarrow> u8 list \<Rightarrow> bool" where
  "mac_equal left right = (take 6 left = take 6 right)"

definition mac_is_broadcast :: "u8 list \<Rightarrow> bool" where
  "mac_is_broadcast mac = (take 6 mac = replicate 6 0xFF)"

text \<open>The sum of the big-endian 16-bit words, an odd byte being the high byte of the last one.\<close>

fun word_sum :: "u8 list \<Rightarrow> u32 \<Rightarrow> u32" where
  "word_sum (a # b # rest) acc = word_sum rest (acc + (push_bit 8 (ucast a) OR ucast b))"
| "word_sum [a] acc = acc + push_bit 8 (ucast a)"
| "word_sum [] acc = acc"

lemma fold_sum_less:
  fixes acc :: u32
  assumes "drop_bit 16 acc \<noteq> 0"
  shows "unat ((acc AND 0xFFFF) + drop_bit 16 acc) = unat acc mod 65536 + unat acc div 65536"
    "unat acc mod 65536 + unat acc div 65536 < unat acc"
proof -
  have hi: "unat (drop_bit 16 acc) = unat acc div 65536" by (simp only: unat_drop_bit_eq) (simp add: drop_bit_eq_div)
  have "acc AND 0xFFFF = take_bit 16 acc" by (simp add: take_bit_eq_mask mask_eq_exp_minus_1)
  then have lo: "unat (acc AND 0xFFFF) = unat acc mod 65536" by (simp add: take_bit_eq_mod unat_mod)
  have b: "unat acc div 65536 < 65536" by (rule less_mult_imp_div_less) simp
  then show "unat ((acc AND 0xFFFF) + drop_bit 16 acc) = unat acc mod 65536 + unat acc div 65536"
    using mod_less_divisor [of 65536 "unat acc"] by (subst unat_add_u32) (simp_all add: lo hi)
  have "0 < unat acc div 65536" using assms hi by (metis gr0I unat_eq_zero)
  then show "unat acc mod 65536 + unat acc div 65536 < unat acc"
    using div_mult_mod_eq [of "unat acc" 65536] by linarith
qed

function fold_sum :: "u32 \<Rightarrow> u32" where
  "fold_sum acc = (if drop_bit 16 acc \<noteq> 0 then fold_sum ((acc AND 0xFFFF) + drop_bit 16 acc) else acc)"
  by auto

termination
  by (relation "measure unat") (simp_all add: fold_sum_less)

declare fold_sum.simps [simp del]

definition checksum16 :: "u8 list \<Rightarrow> u16" where
  "checksum16 bytes = ucast (NOT (fold_sum (word_sum bytes 0)))"

section \<open>Sending\<close>

definition route_next_hop :: "u32 \<Rightarrow> net_state \<Rightarrow> u32" where
  "route_next_hop destination n =
     (if destination AND ipv4_netmask n = ipv4_addr n AND ipv4_netmask n then destination else ipv4_gateway n)"

definition arp_cache_matches :: "u32 \<Rightarrow> net_state \<Rightarrow> bool" where
  "arp_cache_matches addr n = (arp_valid n \<and> arp_ipv4 n = addr)"

definition arp_cache_store :: "u32 \<Rightarrow> u8 list \<Rightarrow> net_state \<Rightarrow> net_state" where
  "arp_cache_store addr mac n = n\<lparr>arp_valid := True, arp_ipv4 := addr, arp_mac := take 6 mac\<rparr>"

definition upd_net :: "(net_state \<Rightarrow> net_state) \<Rightarrow> 'e net_env \<Rightarrow> 'e net_env" where
  "upd_net f s = s\<lparr>net := f (net s)\<rparr>"

definition upd_ping :: "(net_ping_state \<Rightarrow> net_ping_state) \<Rightarrow> 'e net_env \<Rightarrow> 'e net_env" where
  "upd_ping f = upd_net (\<lambda>n. n\<lparr>ping := f (ping n)\<rparr>)"

definition net_log :: "u32 \<Rightarrow> u32 \<Rightarrow> u32 \<Rightarrow> u32 \<Rightarrow> u32 \<Rightarrow> 'e net_env \<Rightarrow> 'e net_env" where
  "net_log ticks event a b c s = s\<lparr>ntrace := trace_log ticks SYS_TRACE_CATEGORY_NET event a b c (ntrace s)\<rparr>"

definition send_frame :: "'e e1000 \<Rightarrow> u8 list \<Rightarrow> 'e net_env \<Rightarrow> int \<times> 'e net_env" where
  "send_frame dev frame s =
     (let (result, e) = e1000_transmit dev frame (nic s); s1 = s\<lparr>nic := e\<rparr>
      in (result, if result > 0 then upd_net (\<lambda>n. n\<lparr>tx_packets := tx_packets n + 1\<rparr>) s1 else s1))"

definition ping_complete :: "int \<Rightarrow> 'e net_env \<Rightarrow> 'e net_env" where
  "ping_complete result s =
     (if \<not> pg_active (ping (net s)) \<or> pg_completed (ping (net s)) then s
      else upd_ping (\<lambda>p. p\<lparr>pg_completed := True, pg_result := result\<rparr>) s)"

definition eth_header :: "u8 list \<Rightarrow> u8 list \<Rightarrow> u16 \<Rightarrow> u8 list" where
  "eth_header destination source ethertype = destination @ source @ enc16 (net_htons ethertype)"

definition arp_packet :: "u16 \<Rightarrow> u8 list \<Rightarrow> u32 \<Rightarrow> u8 list \<Rightarrow> u32 \<Rightarrow> u8 list" where
  "arp_packet opcode sender_mac sender_ipv4 target_mac target_ipv4 =
     enc16 (net_htons NET_ARP_HW_ETHERNET) @ enc16 (net_htons NET_ETH_TYPE_IPV4) @ [6, 4] @ enc16 (net_htons opcode)
     @ sender_mac @ enc32 (net_htonl sender_ipv4) @ target_mac @ enc32 (net_htonl target_ipv4)"

definition send_arp :: "'e e1000 \<Rightarrow> u16 \<Rightarrow> u8 list \<Rightarrow> u32 \<Rightarrow> u8 list \<Rightarrow> 'e net_env \<Rightarrow> int \<times> 'e net_env" where
  "send_arp dev opcode destination_mac target_ipv4 target_mac s =
     (let n = net s in
      send_frame dev (eth_header destination_mac (net_mac n) NET_ETH_TYPE_ARP
        @ arp_packet opcode (net_mac n) (ipv4_addr n) target_mac target_ipv4) s)"

definition send_arp_request :: "'e e1000 \<Rightarrow> u32 \<Rightarrow> 'e net_env \<Rightarrow> int \<times> 'e net_env" where
  "send_arp_request dev target_ipv4 = send_arp dev NET_ARP_REQUEST broadcast_mac target_ipv4 zero_mac"

definition send_arp_reply :: "'e e1000 \<Rightarrow> u8 list \<Rightarrow> u32 \<Rightarrow> 'e net_env \<Rightarrow> int \<times> 'e net_env" where
  "send_arp_reply dev destination_mac target_ipv4 = send_arp dev NET_ARP_REPLY destination_mac target_ipv4 destination_mac"

text \<open>The headers with a given checksum field; the checksum is computed while the field is zero.\<close>

definition ipv4_header :: "u16 \<Rightarrow> u16 \<Rightarrow> u32 \<Rightarrow> u32 \<Rightarrow> u16 \<Rightarrow> u8 list" where
  "ipv4_header total_length identification source destination checksum =
     [NET_IPV4_VERSION_IHL, 0] @ enc16 (net_htons total_length) @ enc16 (net_htons identification) @ enc16 0
     @ [64, NET_IPV4_PROTOCOL_ICMP] @ enc16 (net_htons checksum) @ enc32 (net_htonl source) @ enc32 (net_htonl destination)"

definition icmp_echo :: "u8 \<Rightarrow> u16 \<Rightarrow> u16 \<Rightarrow> u8 list \<Rightarrow> u16 \<Rightarrow> u8 list" where
  "icmp_echo type identifier sequence payload checksum =
     [type, 0] @ enc16 (net_htons checksum) @ enc16 (net_htons identifier) @ enc16 (net_htons sequence) @ payload"

definition icmp_frame :: "u8 list \<Rightarrow> u8 list \<Rightarrow> u8 \<Rightarrow> u32 \<Rightarrow> u32 \<Rightarrow> u16 \<Rightarrow> u16 \<Rightarrow> u8 list \<Rightarrow> u8 list" where
  "icmp_frame destination_mac source_mac type source destination identifier sequence payload =
     (let total_length = 20 + 8 + of_nat (length payload);
          ip = ipv4_header total_length sequence source destination;
          icmp = icmp_echo type identifier sequence payload
      in eth_header destination_mac source_mac NET_ETH_TYPE_IPV4 @ ip (checksum16 (ip 0)) @ icmp (checksum16 (icmp 0)))"

definition send_icmp ::
  "'e e1000 \<Rightarrow> u8 \<Rightarrow> u32 \<Rightarrow> u8 list \<Rightarrow> u16 \<Rightarrow> u16 \<Rightarrow> u8 list \<Rightarrow> 'e net_env \<Rightarrow> int \<times> 'e net_env" where
  "send_icmp dev type destination destination_mac identifier sequence payload s =
     (if length payload > 16 then (- 1, s)
      else send_frame dev (icmp_frame destination_mac (net_mac (net s)) type (ipv4_addr (net s)) destination identifier sequence payload) s)"

definition send_icmp_echo_request :: "'e e1000 \<Rightarrow> u32 \<Rightarrow> u8 list \<Rightarrow> u16 \<Rightarrow> u16 \<Rightarrow> 'e net_env \<Rightarrow> int \<times> 'e net_env" where
  "send_icmp_echo_request dev destination destination_mac identifier sequence =
     send_icmp dev NET_ICMP_ECHO_REQUEST destination destination_mac identifier sequence [0x72, 0x69, 0x76, 0x65, 0x72, 0x69, 0x78, 0]"

definition send_icmp_echo_reply :: "'e e1000 \<Rightarrow> u32 \<Rightarrow> u8 list \<Rightarrow> u16 \<Rightarrow> u16 \<Rightarrow> u8 list \<Rightarrow> 'e net_env \<Rightarrow> int \<times> 'e net_env" where
  "send_icmp_echo_reply dev destination destination_mac identifier sequence payload =
     send_icmp dev NET_ICMP_ECHO_REPLY destination destination_mac identifier sequence payload"

section \<open>Receiving\<close>

definition process_arp :: "'e e1000 \<Rightarrow> u32 \<Rightarrow> u8 list \<Rightarrow> 'e net_env \<Rightarrow> 'e net_env" where
  "process_arp dev ticks arp s =
     (if length arp < 28 \<or> net_ntohs (rd16 arp 0) \<noteq> NET_ARP_HW_ETHERNET \<or> net_ntohs (rd16 arp 2) \<noteq> NET_ETH_TYPE_IPV4
         \<or> arp ! 4 \<noteq> 6 \<or> arp ! 5 \<noteq> 4 then s
      else
        let opcode = net_ntohs (rd16 arp 6);
            sender_mac = take 6 (drop 8 arp);
            sender_ipv4 = net_ntohl (rd32 arp 14);
            target_ipv4 = net_ntohl (rd32 arp 24);
            s1 = net_log ticks 11 sender_ipv4 target_ipv4 (ucast opcode) (upd_net (arp_cache_store sender_ipv4 sender_mac) s);
            p = ping (net s1);
            s2 = (if pg_active p \<and> \<not> pg_completed p \<and> pg_stage p = NET_PING_STAGE_ARP \<and> sender_ipv4 = next_hop_ipv4 p \<and> opcode = NET_ARP_REPLY
                  then upd_ping (\<lambda>p. p\<lparr>pg_stage := NET_PING_STAGE_ECHO, pg_attempts := 0, next_action_tick := 0\<rparr>) s1 else s1)
        in if opcode = NET_ARP_REQUEST \<and> target_ipv4 = ipv4_addr (net s2) then snd (send_arp_reply dev sender_mac sender_ipv4 s2) else s2)"

definition process_icmp :: "'e e1000 \<Rightarrow> u32 \<Rightarrow> u8 list \<Rightarrow> u32 \<Rightarrow> u8 list \<Rightarrow> 'e net_env \<Rightarrow> 'e net_env" where
  "process_icmp dev ticks source_mac source_ipv4 payload s =
     (if length payload < 8 then s
      else
        let identifier = net_ntohs (rd16 payload 4);
            sequence = net_ntohs (rd16 payload 6);
            p = ping (net s) in
        if payload ! 0 = NET_ICMP_ECHO_REPLY \<and> pg_active p \<and> \<not> pg_completed p \<and> pg_stage p = NET_PING_STAGE_ECHO
           \<and> source_ipv4 = destination_ipv4 p \<and> identifier = pg_identifier p \<and> sequence = pg_sequence p
        then ping_complete SYS_PING_OK (net_log ticks 13 (destination_ipv4 p) (ucast identifier) (ucast sequence) s)
        else if payload ! 0 = NET_ICMP_ECHO_REQUEST
        then snd (send_icmp_echo_reply dev source_ipv4 source_mac identifier sequence (drop 8 payload) s)
        else s)"

definition process_ipv4 :: "'e e1000 \<Rightarrow> u32 \<Rightarrow> u8 list \<Rightarrow> u8 list \<Rightarrow> 'e net_env \<Rightarrow> 'e net_env" where
  "process_ipv4 dev ticks source_mac payload s =
     (if length payload < 20 then s
      else if drop_bit 4 (payload ! 0) \<noteq> 4 then s
      else
        let header_length = unat (payload ! 0 AND 0x0F) * 4 in
        if header_length < 20 \<or> header_length > length payload then s
        else
          let total_length = unat (net_ntohs (rd16 payload 2)) in
          if total_length < header_length \<or> total_length > length payload then s
          else if net_ntohl (rd32 payload 16) \<noteq> ipv4_addr (net s) then s
          else if payload ! 9 = NET_IPV4_PROTOCOL_ICMP
          then process_icmp dev ticks source_mac (net_ntohl (rd32 payload 12))
                 (take (total_length - header_length) (drop header_length payload)) s
          else s)"

definition process_frame :: "'e e1000 \<Rightarrow> u32 \<Rightarrow> u8 list \<Rightarrow> 'e net_env \<Rightarrow> 'e net_env" where
  "process_frame dev ticks frame s =
     (if length frame < 14 then s
      else if \<not> mac_equal frame (net_mac (net s)) \<and> \<not> mac_is_broadcast frame then s
      else
        let ethertype = net_ntohs (rd16 frame 12) in
        if ethertype = NET_ETH_TYPE_ARP then process_arp dev ticks (drop 14 frame) s
        else if ethertype = NET_ETH_TYPE_IPV4 then process_ipv4 dev ticks (take 6 (drop 6 frame)) (drop 14 frame) s
        else s)"

section \<open>Ping\<close>

text \<open>The signed difference of two tick counts, \<open>(int32_t)(a - b)\<close>.\<close>

definition tick_diff :: "u32 \<Rightarrow> u32 \<Rightarrow> int" where
  "tick_diff a b = sint (a - b)"

definition drive_ping :: "'e e1000 \<Rightarrow> u32 \<Rightarrow> 'e net_env \<Rightarrow> 'e net_env" where
  "drive_ping dev now s =
     (let p = ping (net s) in
      if \<not> pg_active p \<or> pg_completed p then s
      else if tick_diff now (deadline_tick p) \<ge> 0
      then ping_complete SYS_PING_ERR_TIMEOUT (net_log now 14 (destination_ipv4 p) (pg_attempts p) 0 s)
      else if tick_diff now (next_action_tick p) < 0 then s
      else
        let step = (case pg_stage p of
                      NET_PING_STAGE_ARP \<Rightarrow> send_arp_request dev (next_hop_ipv4 p) s
                    | NET_PING_STAGE_ECHO \<Rightarrow>
                        if arp_cache_matches (next_hop_ipv4 p) (net s)
                        then send_icmp_echo_request dev (destination_ipv4 p) (arp_mac (net s)) (pg_identifier p) (pg_sequence p) s
                        else (- 1, s)
                    | NET_PING_STAGE_IDLE \<Rightarrow> (- 1, s)) in
        if fst step < 0 then snd step
        else upd_ping (\<lambda>q. q\<lparr>pg_attempts := pg_attempts q + 1, next_action_tick := now + NET_PING_RETRY_TICKS\<rparr>) (snd step))"

definition net_init :: "'e e1000 \<Rightarrow> u32 \<Rightarrow> 'e net_env \<Rightarrow> int \<times> 'e net_env" where
  "net_init dev ticks s =
     (let n0 = \<lparr>net_up = False, net_mac = zero_mac, ipv4_addr = NET_QEMU_IPV4, ipv4_netmask = NET_QEMU_NETMASK, ipv4_gateway = NET_QEMU_GATEWAY,
                arp_valid = False, arp_mac = zero_mac, arp_ipv4 = 0, rx_packets = 0, tx_packets = 0, next_ping_identifier = 1, ping = zero_ping\<rparr>;
          (r, e1) = e1000_init dev (nic s) in
      if r \<noteq> 0 then (- 1, s\<lparr>net := n0, nic := e1\<rparr>)
      else
        let ((r2, mac), e2) = e1000_get_mac dev e1 in
        if r2 \<noteq> 0 then (- 1, s\<lparr>net := n0, nic := e2\<rparr>)
        else (0, net_log ticks 10 NET_QEMU_IPV4 NET_QEMU_GATEWAY 0 (s\<lparr>net := n0\<lparr>net_mac := mac, net_up := True\<rparr>, nic := e2\<rparr>)))"

fun receive_loop :: "'e e1000 \<Rightarrow> u32 \<Rightarrow> nat \<Rightarrow> 'e net_env \<Rightarrow> 'e net_env" where
  "receive_loop dev ticks 0 s = s"
| "receive_loop dev ticks (Suc budget) s =
     (let ((result, frame), e) = e1000_receive dev NET_FRAME_BUFFER_BYTES (nic s); s1 = s\<lparr>nic := e\<rparr> in
      if result = 0 then s1
      else if result < 0 then receive_loop dev ticks budget s1
      else receive_loop dev ticks budget
             (process_frame dev ticks (take (nat result) frame) (upd_net (\<lambda>n. n\<lparr>rx_packets := rx_packets n + 1\<rparr>) s1)))"

definition net_poll :: "'e e1000 \<Rightarrow> u32 \<Rightarrow> 'e net_env \<Rightarrow> 'e net_env" where
  "net_poll dev ticks s = (if \<not> net_up (net s) then s else drive_ping dev ticks (receive_loop dev ticks 8 s))"

definition net_ready :: "'e net_env \<Rightarrow> bool" where
  "net_ready s = net_up (net s)"

record sys_netinfo =
  ni_ready :: bool
  ni_mac :: "u8 list"
  ni_ipv4_addr :: u32
  ni_ipv4_netmask :: u32
  ni_ipv4_gateway :: u32
  ni_arp_valid :: bool
  ni_arp_mac :: "u8 list"
  ni_arp_ipv4 :: u32
  ni_rx_packets :: u32
  ni_tx_packets :: u32

definition net_get_info :: "'e net_env \<Rightarrow> sys_netinfo" where
  "net_get_info s =
     (let n = net s in
      \<lparr>ni_ready = net_up n, ni_mac = net_mac n, ni_ipv4_addr = ipv4_addr n, ni_ipv4_netmask = ipv4_netmask n, ni_ipv4_gateway = ipv4_gateway n,
       ni_arp_valid = arp_valid n, ni_arp_mac = arp_mac n, ni_arp_ipv4 = arp_ipv4 n, ni_rx_packets = rx_packets n, ni_tx_packets = tx_packets n\<rparr>)"

definition net_ping4_start :: "'e e1000 \<Rightarrow> u32 \<Rightarrow> u32 \<Rightarrow> u32 \<Rightarrow> u32 \<Rightarrow> 'e net_env \<Rightarrow> int \<times> 'e net_env" where
  "net_ping4_start dev ticks requester_pid destination timeout_ticks s =
     (let n = net s in
      if \<not> net_up n then (SYS_PING_ERR_NOT_READY, s)
      else if requester_pid = 0 \<or> destination = 0 then (SYS_PING_ERR_INVALID, s)
      else if pg_active (ping n) \<and> \<not> pg_completed (ping n) then (SYS_PING_ERR_BUSY, s)
      else
        let timeout = (if timeout_ticks \<noteq> 0 then timeout_ticks else NET_PING_DEFAULT_TIMEOUT);
            hop = route_next_hop destination n;
            p = zero_ping\<lparr>pg_active := True, owner_pid := requester_pid, destination_ipv4 := destination, next_hop_ipv4 := hop,
                  deadline_tick := ticks + timeout, pg_identifier := next_ping_identifier n, pg_sequence := 1,
                  pg_stage := (if arp_cache_matches hop n then NET_PING_STAGE_ECHO else NET_PING_STAGE_ARP), next_action_tick := 0\<rparr>;
            s1 = s\<lparr>net := n\<lparr>ping := p, next_ping_identifier := next_ping_identifier n + 1\<rparr>\<rparr>
        in (0, drive_ping dev ticks (net_log ticks 12 destination hop timeout s1)))"

text \<open>The result and, when it is 1, the value stored through the pointer.\<close>

definition net_ping4_poll_result :: "u32 \<Rightarrow> 'e net_env \<Rightarrow> (int \<times> int) \<times> 'e net_env" where
  "net_ping4_poll_result requester_pid s =
     (let p = ping (net s) in
      if \<not> pg_active p \<or> owner_pid p \<noteq> requester_pid then ((- 1, 0), s)
      else if \<not> pg_completed p then ((0, 0), s)
      else ((1, pg_result p), upd_ping (\<lambda>_. zero_ping) s))"

section \<open>Checksums\<close>












section \<open>Echo requests are answered\<close>

lemma ntohs_htons [simp]: "net_ntohs (net_htons v) = v"
  unfolding net_ntohs_def net_htons_def net_bswap16_def
  by (rule bit_word_eqI) (auto simp: bit_simps dest: bit_imp_le_length)

lemma bswap32_bit:
  assumes "n < 8"
  shows "bit (net_bswap32 v) n = bit v (n + 24)" "bit (net_bswap32 v) (n + 8) = bit v (n + 16)"
    "bit (net_bswap32 v) (n + 16) = bit v (n + 8)" "bit (net_bswap32 v) (n + 24) = bit v n"
proof -
  have m: "(0x000000FF :: u32) = mask 8" "(0x0000FF00 :: u32) = push_bit 8 (mask 8)"
    "(0x00FF0000 :: u32) = push_bit 16 (mask 8)" "(0xFF000000 :: u32) = push_bit 24 (mask 8)"
    by (simp_all add: mask_eq_exp_minus_1 push_bit_eq_mult)
  show "bit (net_bswap32 v) n = bit v (n + 24)" "bit (net_bswap32 v) (n + 8) = bit v (n + 16)"
    "bit (net_bswap32 v) (n + 16) = bit v (n + 8)" "bit (net_bswap32 v) (n + 24) = bit v n"
    unfolding net_bswap32_def m using assms by (simp_all add: bit_simps add.commute)
qed

lemma ntohl_htonl [simp]: "net_ntohl (net_htonl v) = v"
  unfolding net_ntohl_def net_htonl_def
proof (rule bit_word_eqI)
  fix n assume "n < LENGTH(32)"
  then have "n < 8 \<or> (\<exists>k<8. n = k + 8) \<or> (\<exists>k<8. n = k + 16) \<or> (\<exists>k<8. n = k + 24)" by simp presburger
  then show "bit (net_bswap32 (net_bswap32 v)) n = bit v n" by (elim disjE exE conjE) (simp_all add: bswap32_bit)
qed







text \<open>A card that keeps the frames it was given.\<close>

definition log_card :: "u8 list list e1000" where
  "log_card = \<lparr>e1000_transmit = (\<lambda>f fs. (int (length f), fs @ [f])), e1000_receive = (\<lambda>_ fs. ((0, []), fs)),
     e1000_init = (\<lambda>fs. (0, fs)), e1000_get_mac = (\<lambda>fs. ((0, [2, 0, 0, 0, 0, 1]), fs))\<rparr>"

definition demo_net :: "u8 list list net_env" where
  "demo_net = \<lparr>net = \<lparr>net_up = True, net_mac = [2, 0, 0, 0, 0, 1], ipv4_addr = NET_QEMU_IPV4, ipv4_netmask = NET_QEMU_NETMASK,
       ipv4_gateway = NET_QEMU_GATEWAY, arp_valid = False, arp_mac = zero_mac, arp_ipv4 = 0, rx_packets = 0, tx_packets = 0,
       next_ping_identifier = 1, ping = zero_ping\<rparr>, nic = [], ntrace = trace_init\<rparr>"


section \<open>A ping comes to an end\<close>

text \<open>What every step of the stack keeps of the outstanding ping.\<close>

definition ping_kept :: "'e net_env \<Rightarrow> 'e net_env \<Rightarrow> bool" where
  "ping_kept s s' \<longleftrightarrow>
     (let p = ping (net s); p' = ping (net s') in
      net_up (net s') = net_up (net s) \<and> pg_active p' = pg_active p \<and> owner_pid p' = owner_pid p \<and> deadline_tick p' = deadline_tick p
      \<and> (pg_completed p \<longrightarrow> pg_completed p' \<and> pg_result p' = pg_result p))"

lemma ping_kept_refl [simp]: "ping_kept s s"
  by (simp add: ping_kept_def Let_def)

lemma ping_kept_trans: "ping_kept s s1 \<Longrightarrow> ping_kept s1 s2 \<Longrightarrow> ping_kept s s2"
  by (simp add: ping_kept_def Let_def)

lemma send_frame_ping [simp]:
  "ping (net (snd (send_frame dev f s))) = ping (net s)" "net_up (net (snd (send_frame dev f s))) = net_up (net s)"
  by (simp_all add: send_frame_def upd_net_def Let_def split: prod.splits)

lemma send_ping [simp]:
  "ping (net (snd (send_arp dev op dm ti tm s))) = ping (net s)" "net_up (net (snd (send_arp dev op dm ti tm s))) = net_up (net s)"
  "ping (net (snd (send_icmp dev ty d dm i q pl s))) = ping (net s)" "net_up (net (snd (send_icmp dev ty d dm i q pl s))) = net_up (net s)"
  by (simp_all add: send_arp_def send_icmp_def Let_def)

lemma upd_sel [simp]:
  "net (upd_net f s) = f (net s)" "net (net_log t e a b c s) = net s" "net (upd_ping g s) = (net s)\<lparr>ping := g (ping (net s))\<rparr>"
  by (simp_all add: upd_net_def net_log_def upd_ping_def)

lemma process_frame_kept: "ping_kept s (process_frame dev t f s)"
proof -
  have arp: "ping_kept s (process_arp dev t a s)" for a
    by (simp add: process_arp_def send_arp_reply_def arp_cache_store_def ping_kept_def Let_def)
  have icmp: "ping_kept s (process_icmp dev t sm si pl s)" for sm si pl
    by (simp add: process_icmp_def send_icmp_echo_reply_def ping_complete_def ping_kept_def Let_def)
  have "ping_kept s (process_ipv4 dev t sm pl s)" for sm pl by (simp add: process_ipv4_def icmp Let_def)
  with arp show ?thesis by (simp add: process_frame_def Let_def)
qed

lemma receive_loop_kept: "ping_kept s (receive_loop dev t n s)"
proof (induction n arbitrary: s)
  case (Suc n)
  obtain r f e where rv: "e1000_receive dev NET_FRAME_BUFFER_BYTES (nic s) = ((r, f), e)" by (metis prod_cases3 prod.collapse)
  have nic: "ping_kept s (s\<lparr>nic := e\<rparr>)" "ping_kept s (upd_net (\<lambda>n. n\<lparr>rx_packets := rx_packets n + 1\<rparr>) (s\<lparr>nic := e\<rparr>))"
    by (simp_all add: ping_kept_def Let_def)
  show ?case
    using nic Suc ping_kept_trans [OF nic(1) Suc] ping_kept_trans [OF ping_kept_trans [OF nic(2) process_frame_kept] Suc]
    by (simp add: rv Let_def)
qed simp

lemma drive_ping_kept:
  "ping_kept s (drive_ping dev now s)"
  "pg_active (ping (net s)) \<Longrightarrow> tick_diff now (deadline_tick (ping (net s))) \<ge> 0 \<Longrightarrow> pg_completed (ping (net (drive_ping dev now s)))"
proof -
  show "ping_kept s (drive_ping dev now s)"
    by (auto simp: drive_ping_def send_arp_request_def send_icmp_echo_request_def ping_complete_def ping_kept_def Let_def split: net_ping_stage.splits)
  show "pg_active (ping (net s)) \<Longrightarrow> tick_diff now (deadline_tick (ping (net s))) \<ge> 0 \<Longrightarrow> pg_completed (ping (net (drive_ping dev now s)))"
    by (simp add: drive_ping_def ping_complete_def Let_def)
qed

lemma net_poll_kept:
  "ping_kept s (net_poll dev now s)"
  "net_up (net s) \<Longrightarrow> pg_active (ping (net s)) \<Longrightarrow> tick_diff now (deadline_tick (ping (net s))) \<ge> 0 \<Longrightarrow>
     pg_completed (ping (net (net_poll dev now s)))"
proof -
  note rl = receive_loop_kept [of s dev now 8]
  show "ping_kept s (net_poll dev now s)" using ping_kept_trans [OF rl drive_ping_kept(1)] by (simp add: net_poll_def)
  show "net_up (net s) \<Longrightarrow> pg_active (ping (net s)) \<Longrightarrow> tick_diff now (deadline_tick (ping (net s))) \<ge> 0 \<Longrightarrow>
     pg_completed (ping (net (net_poll dev now s)))"
    using rl drive_ping_kept(2) [of "receive_loop dev now 8 s" now dev] by (simp add: net_poll_def ping_kept_def Let_def)
qed

lemma net_polls_kept: "ping_kept s (fold (net_poll dev) ts s)"
proof (induction ts arbitrary: s)
  case (Cons t ts)
  then show ?case using ping_kept_trans [OF net_poll_kept(1) Cons.IH] by simp
qed simp

text \<open>
  C39. A ping always comes to an end, whatever the card and the other machines do: if starting it succeeds, then after every sequence
  of polls of which one happens at or after the deadline (as the signed difference of tick counts), the requester gets a result.
\<close>

theorem net_ping_terminates:
  assumes "net_ping4_start dev now pid dst timeout s = (0, s1)" "t \<in> set ts"
    and "tick_diff t (now + (if timeout \<noteq> 0 then timeout else NET_PING_DEFAULT_TIMEOUT)) \<ge> 0"
  shows "\<exists>r s2. net_ping4_poll_result pid (fold (net_poll dev) ts s1) = ((1, r), s2)"
proof -
  have start: "net_up (net s1) \<and> pg_active (ping (net s1)) \<and> owner_pid (ping (net s1)) = pid
      \<and> deadline_tick (ping (net s1)) = now + (if timeout \<noteq> 0 then timeout else NET_PING_DEFAULT_TIMEOUT)"
  proof -
    define m where "m = net_log now 12 dst (route_next_hop dst (net s)) (if timeout \<noteq> 0 then timeout else NET_PING_DEFAULT_TIMEOUT)
      (s\<lparr>net := (net s)\<lparr>ping := zero_ping\<lparr>pg_active := True, owner_pid := pid, destination_ipv4 := dst, next_hop_ipv4 := route_next_hop dst (net s),
          deadline_tick := now + (if timeout \<noteq> 0 then timeout else NET_PING_DEFAULT_TIMEOUT), pg_identifier := next_ping_identifier (net s), pg_sequence := 1,
          pg_stage := (if arp_cache_matches (route_next_hop dst (net s)) (net s) then NET_PING_STAGE_ECHO else NET_PING_STAGE_ARP), next_action_tick := 0\<rparr>,
        next_ping_identifier := next_ping_identifier (net s) + 1\<rparr>\<rparr>)"
    have "s1 = drive_ping dev now m" "net_up (net s)" using assms(1) by (auto simp: net_ping4_start_def m_def Let_def split: if_splits)
    then show ?thesis using drive_ping_kept(1) [of m dev now] by (simp add: ping_kept_def m_def Let_def)
  qed
  obtain xs ys where ts: "ts = xs @ t # ys" using assms(2) by (meson split_list)
  define a where "a = fold (net_poll dev) xs s1"
  define b where "b = net_poll dev t a"
  have ka: "ping_kept s1 a" using net_polls_kept by (simp add: a_def)
  have "pg_completed (ping (net b))"
    unfolding b_def using start ka assms(3) by (intro net_poll_kept(2)) (simp_all add: ping_kept_def Let_def)
  moreover have "ping_kept s1 b" using ping_kept_trans [OF ka net_poll_kept(1)] by (simp add: b_def)
  moreover have "ping_kept b (fold (net_poll dev) ts s1)" using net_polls_kept by (simp add: ts a_def b_def)
  ultimately show ?thesis using start by (simp add: net_ping4_poll_result_def ping_kept_def Let_def)
qed

theorem net_ping_terminates_witness:
  "\<exists>s1 r s2. net_ping4_start log_card 10 3 0x0A000203 5 demo_net = (0, s1)
     \<and> net_ping4_poll_result 3 (fold (net_poll log_card) [11, 12, 20] s1) = ((1, r), s2)"
proof -
  obtain q s1 where st: "net_ping4_start log_card 10 3 0x0A000203 5 demo_net = (q, s1)" by force
  then have "q = 0" by (simp add: net_ping4_start_def demo_net_def zero_ping_def Let_def)
  then show ?thesis
    using st net_ping_terminates [of log_card 10 3 "0x0A000203" 5 demo_net s1 20 "[11, 12, 20]"] by (simp add: tick_diff_def)
qed

text \<open>
  The deadline is compared as a signed difference, so a timeout of more than \<open>2\<^sup>3\<^sup>1\<close> ticks is over at once: a ping that
  asks for the longest timeout fails before any frame is sent.
\<close>

lemma net_ping_longest_timeout:
  assumes "net_up (net s)" "pid \<noteq> 0" "dst \<noteq> 0" "pg_active (ping (net s)) \<longrightarrow> pg_completed (ping (net s))"
    "net_ping4_start dev now pid dst 0xFFFFFFFF s = (r, s1)"
  shows "r = 0" "pg_completed (ping (net s1))" "pg_result (ping (net s1)) = SYS_PING_ERR_TIMEOUT" "nic s1 = nic s"
proof -
  have t: "tick_diff now (now + 0xFFFFFFFF) \<ge> 0" by (simp add: tick_diff_def)
  then show "r = 0" "pg_completed (ping (net s1))" "pg_result (ping (net s1)) = SYS_PING_ERR_TIMEOUT" "nic s1 = nic s"
    using assms by (auto simp: net_ping4_start_def drive_ping_def ping_complete_def zero_ping_def upd_ping_def upd_net_def net_log_def Let_def)
qed

end
