(* ===== verification/Spec2Isabelle.thy ===== *)
theory Spec2Isabelle
  imports Kheap Kstack Trace Simplefs_Mount Vfs_Files Exec_Load Net
begin

text \<open>
  Riverix: a verification development of the kernel.
\<close>

end
